(* ===== verification/Bespokv_Prelude.thy ===== *)
theory Bespokv_Prelude
  imports Main "HOL-Library.Word"
begin

text \<open>
  Shared vocabulary of the development: the sum type in which every fallible operation of the
  C++ sources returns its result, the conversion of integers to the 32-bit and 64-bit two's
  complement types of the sources, and lemmas on lists that several components use.
\<close>

unbundle bit_operations_syntax

named_theorems fault_simps \<open>elimination of the fault monad\<close>
named_theorems invar_intros \<open>operations keep the invariant of their component\<close>
named_theorems c_lib \<open>the parts of the C library the sources use\<close>

section \<open>Faults\<close>

text \<open>
  What stops the program instead of returning: a glog CHECK or an assert that fails, a
  dereference of a null pointer, an access outside an object, a read of memory nobody wrote, a
  pointer to no object, a use of a deleted string or a second deletion, an exception of the C++ library, a call of exit. A loop
  that is modelled with fuel and uses all of it diverges.
\<close>

datatype fault =
    Check_failed
  | Null_deref
  | Out_of_bounds
  | Uninitialised
  | Dangling
  | Use_after_free
  | Double_free
  | Out_of_range
  | Exit_failure
  | Diverges

type_synonym 'a res = "fault + 'a"

definition rbind :: "'a res \<Rightarrow> ('a \<Rightarrow> 'b res) \<Rightarrow> 'b res" where
  "rbind m f = (case m of Inl e \<Rightarrow> Inl e | Inr x \<Rightarrow> f x)"

definition CHECK :: "bool \<Rightarrow> 'a res \<Rightarrow> 'a res" where
  "CHECK b m = (if b then m else Inl Check_failed)"

definition deref :: "'a option \<Rightarrow> 'a res" where
  "deref p = (case p of None \<Rightarrow> Inl Null_deref | Some x \<Rightarrow> Inr x)"

lemma rbind_Inl [simp, fault_simps]: "rbind (Inl e) f = Inl e"
  by (simp add: rbind_def)

lemma rbind_Inr [simp, fault_simps]: "rbind (Inr x) f = f x"
  by (simp add: rbind_def)

lemma rbind_eq_Inr: "rbind m f = Inr y \<longleftrightarrow> (\<exists>x. m = Inr x \<and> f x = Inr y)"
  by (auto simp: rbind_def split: sum.splits)

lemma rbind_eq_Inl: "rbind m f = Inl e \<longleftrightarrow> m = Inl e \<or> (\<exists>x. m = Inr x \<and> f x = Inl e)"
  by (auto simp: rbind_def split: sum.splits)

lemma rbind_assoc: "rbind (rbind m f) g = rbind m (\<lambda>x. rbind (f x) g)"
  by (simp add: rbind_def split: sum.splits)

lemma CHECK_True [simp, fault_simps]: "CHECK True m = m"
  by (simp add: CHECK_def)

lemma CHECK_False [simp, fault_simps]: "CHECK False m = Inl Check_failed"
  by (simp add: CHECK_def)

lemma CHECK_eq_Inr: "CHECK b m = Inr y \<longleftrightarrow> b \<and> m = Inr y"
  by (simp add: CHECK_def)

lemma deref_Some [simp, fault_simps]: "deref (Some x) = Inr x"
  by (simp add: deref_def)

lemma deref_None [simp, fault_simps]: "deref None = Inl Null_deref"
  by (simp add: deref_def)

lemma deref_eq_Inr: "deref p = Inr x \<longleftrightarrow> p = Some x"
  by (simp add: deref_def split: option.splits)

lemmas res_Inr_iff = rbind_eq_Inr CHECK_eq_Inr deref_eq_Inr

text \<open>
  A Hoare triple for the fault monad: the computation returns a value that satisfies Q, or it stops
  with one of the faults in E.
\<close>

definition outcome :: "fault set \<Rightarrow> 'a res \<Rightarrow> ('a \<Rightarrow> bool) \<Rightarrow> bool" where
  "outcome E m Q \<longleftrightarrow> (case m of Inl f \<Rightarrow> f \<in> E | Inr x \<Rightarrow> Q x)"

named_theorems outcomes \<open>decomposition of a triple along the monad\<close>

lemma outcome_Inr [simp]: "outcome E (Inr x) Q \<longleftrightarrow> Q x"
  by (simp add: outcome_def)

lemma outcome_Inl [simp]: "outcome E (Inl f) Q \<longleftrightarrow> f \<in> E"
  by (simp add: outcome_def)

lemma outcome_bind [outcomes]: "outcome E m (\<lambda>x. outcome E (f x) Q) \<Longrightarrow> outcome E (rbind m f) Q"
  by (auto simp: outcome_def rbind_def split: sum.splits)

lemma outcome_CHECK [outcomes]: "Check_failed \<in> E \<Longrightarrow> (b \<Longrightarrow> outcome E m Q) \<Longrightarrow> outcome E (CHECK b m) Q"
  by (simp add: CHECK_def)

lemma outcome_deref [outcomes]: "Null_deref \<in> E \<Longrightarrow> (\<And>x. v = Some x \<Longrightarrow> Q x) \<Longrightarrow> outcome E (deref v) Q"
  by (cases v) auto

lemma outcome_weaken: "outcome E m Q \<Longrightarrow> (\<And>x. Q x \<Longrightarrow> R x) \<Longrightarrow> outcome E m R"
  by (auto simp: outcome_def split: sum.splits)

lemma outcome_conj: "outcome E m Q \<Longrightarrow> outcome E m R \<Longrightarrow> outcome E m (\<lambda>x. Q x \<and> R x)"
  by (auto simp: outcome_def split: sum.splits)

lemma outcomeI: "(\<And>f. m = Inl f \<Longrightarrow> f \<in> E) \<Longrightarrow> (\<And>x. m = Inr x \<Longrightarrow> Q x) \<Longrightarrow> outcome E m Q"
  by (simp add: outcome_def split: sum.splits)

lemma outcomeD: "outcome E m Q \<Longrightarrow> m = Inr x \<Longrightarrow> Q x"
  by (simp add: outcome_def)

lemma outcome_fault: "outcome E m Q \<Longrightarrow> m = Inl f \<Longrightarrow> f \<in> E"
  by (simp add: outcome_def)

section \<open>Status codes of the proxy (src/src/server.h)\<close>

datatype rstatus = CO_OK | CO_ERR | CO_EAGAIN | CO_ENOMEM | CO_C_DROP | CO_PARSE_END

type_synonym lid = nat

text \<open>Link objects live in a store; lid is the address of one.\<close>

section \<open>Two's complement casts\<close>

text \<open>The value a C cast to a signed 32-bit or 64-bit integer produces.\<close>

definition to_int32 :: "int \<Rightarrow> int" where
  "to_int32 v = sint (word_of_int v :: 32 word)"

definition to_int64 :: "int \<Rightarrow> int" where
  "to_int64 v = sint (word_of_int v :: 64 word)"

lemma to_int32_eq: "to_int32 v = (v + 2 ^ 31) mod 2 ^ 32 - 2 ^ 31"
  by (simp add: to_int32_def signed_of_int signed_take_bit_eq_take_bit_shift take_bit_eq_mod)

lemma to_int32_id: "- (2 ^ 31) \<le> v \<Longrightarrow> v < 2 ^ 31 \<Longrightarrow> to_int32 v = v"
  by (simp add: to_int32_def signed_of_int signed_take_bit_int_eq_self)

lemma to_int64_id: "- (2 ^ 63) \<le> v \<Longrightarrow> v < 2 ^ 63 \<Longrightarrow> to_int64 v = v"
  by (simp add: to_int64_def signed_of_int signed_take_bit_int_eq_self)

lemma to_int32_bounds: "- (2 ^ 31) \<le> to_int32 v \<and> to_int32 v < 2 ^ 31"
  using sint_ge [of "word_of_int v :: 32 word"] sint_lt [of "word_of_int v :: 32 word"]
  by (simp add: to_int32_def)

section \<open>Lists\<close>

lemma takeWhile_append_stop:
  "(\<forall>x\<in>set xs. P x) \<Longrightarrow> ys = [] \<or> \<not> P (hd ys) \<Longrightarrow> takeWhile P (xs @ ys) = xs"
  by (induction xs) (cases ys; auto)+

lemma dropWhile_append_stop:
  "(\<forall>x\<in>set xs. P x) \<Longrightarrow> ys = [] \<or> \<not> P (hd ys) \<Longrightarrow> dropWhile P (xs @ ys) = ys"
  by (induction xs) (cases ys; auto)+

text \<open>Overwriting a run of cells: what memcpy does to its destination.\<close>

definition blit :: "'a list \<Rightarrow> nat \<Rightarrow> 'a list \<Rightarrow> 'a list" where
  "blit mem i xs = take i mem @ xs @ drop (i + length xs) mem"

lemma length_blit [simp]: "i + length xs \<le> length mem \<Longrightarrow> length (blit mem i xs) = length mem"
  by (simp add: blit_def)

lemma take_blit [simp]: "j \<le> i \<Longrightarrow> i \<le> length mem \<Longrightarrow> take j (blit mem i xs) = take j mem"
  by (simp add: blit_def min_def)

lemma blit_slice:
  "i + length xs \<le> length mem \<Longrightarrow> take (length xs) (drop i (blit mem i xs)) = xs"
  by (simp add: blit_def)

lemma blit_extend:
  assumes "o' + n + length xs \<le> length mem"
  shows "take (n + length xs) (drop o' (blit mem (o' + n) xs)) = take n (drop o' mem) @ xs"
  using assms by (cases xs) (auto simp: blit_def min_def take_drop add.commute)

end
