(* ===== verification/C_Lib.thy ===== *)
theory C_Lib
  imports Bespokv_Prelude
begin

text \<open>
  The functions of the C library that the sources call on text: character classes, tolower,
  the decimal conversions printf("%d") and strtol, and atoi, which is strtol cast to int. A
  C string is the list of its characters without the terminating NUL.
\<close>

abbreviation cval :: "char \<Rightarrow> nat" where
  "cval c \<equiv> of_char c"

definition LF :: char where "LF = CHR 0x0A"
definition CR :: char where "CR = CHR 0x0D"
definition TAB :: char where "TAB = CHR 0x09"
definition BACKSLASH :: char where "BACKSLASH = CHR 0x5C"

lemmas char_defs = LF_def CR_def TAB_def BACKSLASH_def

text \<open>The characters of a string up to the terminating zero, as c_str is read.\<close>

definition c_chars :: "string \<Rightarrow> string" where
  "c_chars s = takeWhile (\<lambda>c. c \<noteq> CHR 0x00) s"

lemma c_chars_id: "(\<forall>c\<in>set s. c \<noteq> CHR 0x00) \<Longrightarrow> c_chars s = s"
  by (simp add: c_chars_def takeWhile_eq_all_conv)

section \<open>Character classes\<close>

text \<open>The value of a plain char, which is signed on the targets of the code.\<close>

definition schar :: "char \<Rightarrow> int" where
  "schar c = (if cval c < 128 then int (cval c) else int (cval c) - 256)"

definition isspace :: "char \<Rightarrow> bool" where
  "isspace c \<longleftrightarrow> c = CHR '' '' \<or> (9 \<le> cval c \<and> cval c \<le> 13)"

definition isdigit :: "char \<Rightarrow> bool" where
  "isdigit c \<longleftrightarrow> 48 \<le> cval c \<and> cval c \<le> 57"

definition tolower :: "char \<Rightarrow> char" where
  "tolower c = (if 65 \<le> cval c \<and> cval c \<le> 90 then char_of (cval c + 32) else c)"

definition toupper :: "char \<Rightarrow> char" where
  "toupper c = (if 97 \<le> cval c \<and> cval c \<le> 122 then char_of (cval c - 32) else c)"

lemma cval_bound: "cval c < 256"
proof -
  have "cval c \<in> {0..<256}" unfolding range_nat_of_char [symmetric] by (rule rangeI)
  then show ?thesis by simp
qed

lemma cval_char_of: "n < 256 \<Longrightarrow> cval (char_of n) = n"
  by simp

lemma tolower_idem [simp]: "tolower (tolower c) = tolower c"
  by (simp add: tolower_def)

section \<open>Decimal digits\<close>

definition digit_char :: "nat \<Rightarrow> char" where
  "digit_char d = char_of (48 + d)"

definition digit_val :: "char \<Rightarrow> nat" where
  "digit_val c = cval c - 48"

lemma isdigit_digit_char [simp]: "d < 10 \<Longrightarrow> isdigit (digit_char d)"
  by (simp add: isdigit_def digit_char_def)

lemma digit_val_digit_char [simp]: "d < 10 \<Longrightarrow> digit_val (digit_char d) = d"
  by (simp add: digit_val_def digit_char_def)

lemma isdigit_not_isspace: "isdigit c \<Longrightarrow> \<not> isspace c"
  by (auto simp: isdigit_def isspace_def)

text \<open>printf("%u"): the decimal digits of a number, most significant first.\<close>

fun dec_nat :: "nat \<Rightarrow> string" where
  "dec_nat n = (if n < 10 then [digit_char n] else dec_nat (n div 10) @ [digit_char (n mod 10)])"

declare dec_nat.simps [simp del]

text \<open>printf("%d") and printf("%" PRId64).\<close>

definition dec_int :: "int \<Rightarrow> string" where
  "dec_int i = (if i < 0 then CHR ''-'' # dec_nat (nat (- i)) else dec_nat (nat i))"

definition digits_val :: "string \<Rightarrow> nat" where
  "digits_val ds = foldl (\<lambda>v c. 10 * v + digit_val c) 0 ds"

lemma digits_val_snoc [simp]: "digits_val (ds @ [c]) = 10 * digits_val ds + digit_val c"
  by (simp add: digits_val_def)

lemma digits_val_single [simp]: "digits_val [c] = digit_val c"
  by (simp add: digits_val_def)

lemma dec_nat_not_Nil [simp]: "dec_nat n \<noteq> []"
  by (subst dec_nat.simps) simp

lemma dec_nat_digits: "\<forall>c\<in>set (dec_nat n). isdigit c"
proof (induction n rule: dec_nat.induct)
  case (1 n)
  then show ?case
    by (subst dec_nat.simps) auto
qed

lemma digits_val_dec_nat [simp]: "digits_val (dec_nat n) = n"
proof (induction n rule: dec_nat.induct)
  case (1 n)
  then show ?case
    by (subst dec_nat.simps) (auto simp: minus_mod_eq_mult_div [symmetric])
qed

lemma hd_dec_nat: "isdigit (hd (dec_nat n))"
  using dec_nat_digits [of n] dec_nat_not_Nil [of n] by (metis hd_in_set)

lemma length_dec_nat: "n < 10 ^ k \<Longrightarrow> 0 < k \<Longrightarrow> length (dec_nat n) \<le> k"
proof (induction n arbitrary: k rule: dec_nat.induct)
  case (1 n)
  show ?case
  proof (cases "n < 10")
    case True
    then show ?thesis using "1.prems" by (subst dec_nat.simps) simp
  next
    case False
    moreover obtain j where k: "k = Suc j"
      using "1.prems" by (cases k) auto
    ultimately have "0 < j"
      using "1.prems" by (cases j) auto
    have "n div 10 < 10 ^ j"
      using "1.prems" k by (simp add: less_mult_imp_div_less mult.commute)
    with "1.IH" False k \<open>0 < j\<close> show ?thesis
      by (subst dec_nat.simps) auto
  qed
qed

section \<open>strtol and atoi\<close>

definition LONG_MAX :: int where "LONG_MAX = 2 ^ 63 - 1"
definition LONG_MIN :: int where "LONG_MIN = - (2 ^ 63)"

definition clamp_long :: "int \<Rightarrow> int" where
  "clamp_long v = max LONG_MIN (min LONG_MAX v)"

text \<open>
  strtol in base 10: leading white space, an optional sign, digits. strtol_body is the number that
  is written there and the unread rest, None with no digit at all. strtol saturates the value to a
  long and sets errno to ERANGE when it had to; with no digit the value is 0 and the rest is the
  whole string. On the 64-bit targets of the code strtoll is the same function.
\<close>

definition strtol_body :: "string \<Rightarrow> (int \<times> string) option" where
  "strtol_body s =
     (let (neg, t) = (case s of
                        [] \<Rightarrow> (False, s)
                      | c # r \<Rightarrow> if c = CHR ''-'' then (True, r)
                                 else if c = CHR ''+'' then (False, r) else (False, s));
          ds = takeWhile isdigit t
      in if ds = [] then None
         else Some (if neg then - int (digits_val ds) else int (digits_val ds),
                    dropWhile isdigit t))"

datatype errno = E_NONE | EINVAL | ERANGE

definition strtol :: "string \<Rightarrow> int \<times> string" where
  "strtol s = (case strtol_body (dropWhile isspace s) of
                 None \<Rightarrow> (0, s) | Some (v, r) \<Rightarrow> (clamp_long v, r))"

definition strtol_errno :: "errno \<Rightarrow> string \<Rightarrow> errno" where
  "strtol_errno e s = (case strtol_body (dropWhile isspace s) of
                         None \<Rightarrow> e | Some (v, r) \<Rightarrow> if clamp_long v = v then e else ERANGE)"

definition ULONG_MAX :: int where "ULONG_MAX = 2 ^ 64 - 1"

text \<open>strtoull negates modulo 2^64 and saturates a magnitude above ULONG_MAX.\<close>

definition strtoull :: "string \<Rightarrow> int \<times> string" where
  "strtoull s = (case strtol_body (dropWhile isspace s) of
                   None \<Rightarrow> (0, s)
                 | Some (v, r) \<Rightarrow> (if abs v > ULONG_MAX then ULONG_MAX else v mod 2 ^ 64, r))"

definition strtoull_errno :: "errno \<Rightarrow> string \<Rightarrow> errno" where
  "strtoull_errno e s = (case strtol_body (dropWhile isspace s) of
                           None \<Rightarrow> e | Some (v, r) \<Rightarrow> if abs v > ULONG_MAX then ERANGE else e)"

text \<open>atoi is (int)strtol(s, NULL, 10).\<close>

definition atoi :: "string \<Rightarrow> int" where
  "atoi s = to_int32 (fst (strtol s))"

lemma not_isspace_minus: "\<not> isspace CHR ''-''"
  by (simp add: isspace_def)

lemma strtol_body_dec_nat:
  assumes "r = [] \<or> \<not> isdigit (hd r)"
  shows "strtol_body (dec_nat n @ r) = Some (int n, r)"
proof -
  have "isdigit (hd (dec_nat n))" by (rule hd_dec_nat)
  then obtain c cs where c: "dec_nat n = c # cs" "isdigit c"
    by (cases "dec_nat n") auto
  then have "c \<noteq> CHR ''-''" "c \<noteq> CHR ''+''" by (auto simp: isdigit_def)
  moreover have "takeWhile isdigit (dec_nat n @ r) = dec_nat n"
    and "dropWhile isdigit (dec_nat n @ r) = r"
    using takeWhile_append_stop [OF dec_nat_digits assms] dropWhile_append_stop [OF dec_nat_digits assms]
    by simp_all
  ultimately show ?thesis
    using c digits_val_dec_nat [of n] by (simp add: strtol_body_def del: digits_val_dec_nat)
qed

lemma strtol_body_neg:
  assumes "r = [] \<or> \<not> isdigit (hd r)"
  shows "strtol_body (CHR ''-'' # dec_nat n @ r) = Some (- int n, r)"
proof -
  have "takeWhile isdigit (dec_nat n @ r) = dec_nat n"
    and "dropWhile isdigit (dec_nat n @ r) = r"
    using takeWhile_append_stop [OF dec_nat_digits assms] dropWhile_append_stop [OF dec_nat_digits assms]
    by simp_all
  then show ?thesis by (simp add: strtol_body_def)
qed

lemma dropWhile_isspace_dec_int: "dropWhile isspace (dec_int i @ r) = dec_int i @ r"
proof -
  have "\<not> isspace (hd (dec_int i @ r))"
    using hd_dec_nat [of "nat i"]
    by (auto simp: dec_int_def not_isspace_minus isdigit_not_isspace)
  then show ?thesis by (cases "dec_int i @ r") auto
qed

text \<open>strtol reads back what printf wrote, whatever non-digit follows.\<close>

lemma strtol_dec_int [c_lib]:
  assumes "LONG_MIN \<le> i" "i \<le> LONG_MAX" "r = [] \<or> \<not> isdigit (hd r)"
  shows "strtol (dec_int i @ r) = (i, r)"
proof -
  have "clamp_long i = i" using assms by (simp add: clamp_long_def)
  then show ?thesis
    using strtol_body_dec_nat [OF assms(3), of "nat i"] strtol_body_neg [OF assms(3), of "nat (- i)"]
    by (simp add: strtol_def dropWhile_isspace_dec_int) (simp add: dec_int_def)
qed

lemma strtol_errno_dec_int [c_lib]:
  assumes "LONG_MIN \<le> i" "i \<le> LONG_MAX" "r = [] \<or> \<not> isdigit (hd r)"
  shows "strtol_errno e (dec_int i @ r) = e"
proof -
  have "clamp_long i = i" using assms by (simp add: clamp_long_def)
  then show ?thesis
    using strtol_body_dec_nat [OF assms(3), of "nat i"] strtol_body_neg [OF assms(3), of "nat (- i)"]
    by (simp add: strtol_errno_def dropWhile_isspace_dec_int) (simp add: dec_int_def)
qed

lemma strtoull_dec_nat [c_lib]:
  assumes "int n \<le> ULONG_MAX" "r = [] \<or> \<not> isdigit (hd r)"
  shows "strtoull (dec_nat n @ r) = (int n, r)"
  using assms strtol_body_dec_nat [OF assms(2), of n] dropWhile_isspace_dec_int [of "int n" r]
  by (simp add: strtoull_def dec_int_def ULONG_MAX_def)

lemma atoi_dec_int [c_lib]:
  assumes "- (2 ^ 31) \<le> i" "i < 2 ^ 31" "r = [] \<or> \<not> isdigit (hd r)"
  shows "atoi (dec_int i @ r) = i"
  using assms strtol_dec_int [of i r] to_int32_id [of i]
  by (simp add: atoi_def LONG_MIN_def LONG_MAX_def)

section \<open>Tokens and lines\<close>

text \<open>One call of strtok_r with a single delimiter: the token and what saveptr points to.\<close>

definition strtok_r :: "char \<Rightarrow> string \<Rightarrow> (string \<times> string) option" where
  "strtok_r d s =
     (let r = dropWhile (\<lambda>c. c = d) s
      in if r = [] then None else Some (takeWhile (\<lambda>c. c \<noteq> d) r, tl (dropWhile (\<lambda>c. c \<noteq> d) r)))"

text \<open>The strings fgets returns until the end of the file, each of at most sz - 1 characters, a newline included.\<close>

function fgets_lines :: "nat \<Rightarrow> string \<Rightarrow> string list" where
  "fgets_lines sz s =
     (if s = [] \<or> sz < 2 then []
      else let n = min (sz - 1) (Suc (length (takeWhile (\<lambda>c. c \<noteq> LF) s))) in take n s # fgets_lines sz (drop n s))"
  by pat_completeness auto
termination by (relation "measure (length \<circ> snd)") auto

declare fgets_lines.simps [simp del]

lemma strtok_r_token:
  assumes "a \<noteq> []" "d \<notin> set a"
  shows "strtok_r d (a @ d # r) = Some (a, r)" "strtok_r d a = Some (a, [])"
proof -
  have h: "dropWhile (\<lambda>c. c = d) (a @ r') = a @ r'" for r' using assms by (cases a) auto
  have n: "\<forall>x\<in>set a. x \<noteq> d" using assms(2) by blast
  show "strtok_r d (a @ d # r) = Some (a, r)"
    using h [of "d # r"] takeWhile_append_stop [OF n, of "d # r"] dropWhile_append_stop [OF n, of "d # r"] assms(1) by (simp add: strtok_r_def)
  show "strtok_r d a = Some (a, [])"
    using h [of "[]"] takeWhile_append_stop [OF n, of "[]"] dropWhile_append_stop [OF n, of "[]"] assms(1) by (simp add: strtok_r_def del: dropWhile_eq_Nil_conv)
qed

lemma fgets_line:
  assumes "LF \<notin> set l" "Suc (length l) < sz"
  shows "fgets_lines sz (l @ LF # s) = (l @ [LF]) # fgets_lines sz s"
proof -
  have "takeWhile (\<lambda>c. c \<noteq> LF) (l @ LF # s) = l" using assms(1) by (intro takeWhile_append_stop) auto
  moreover have "min (sz - 1) (Suc (length l)) = Suc (length l)" using assms(2) by simp
  ultimately show ?thesis using assms(2) by (subst fgets_lines.simps) (simp add: Let_def)
qed

lemma fgets_Nil [simp]: "fgets_lines sz [] = []"
  by (simp add: fgets_lines.simps)

lemma fgets_concat:
  assumes "\<forall>l\<in>set ls. LF \<notin> set l \<and> Suc (length l) < sz"
  shows "fgets_lines sz (concat (map (\<lambda>l. l @ [LF]) ls)) = map (\<lambda>l. l @ [LF]) ls"
  using assms by (induction ls) (simp_all add: fgets_line)

section \<open>Memory\<close>

text \<open>
  A heap block is the list of its cells, a cell that nobody wrote is None. Offsets are C integers,
  so an access checks both ends of the block.
\<close>

type_synonym cells = "char option list"

definition mem_get :: "cells \<Rightarrow> int \<Rightarrow> char res" where
  "mem_get m i = (if i < 0 \<or> int (length m) \<le> i then Inl Out_of_bounds
                  else case m ! nat i of None \<Rightarrow> Inl Uninitialised | Some c \<Rightarrow> Inr c)"

definition mem_read :: "cells \<Rightarrow> int \<Rightarrow> int \<Rightarrow> string res" where
  "mem_read m i n =
     (if i < 0 \<or> n < 0 \<or> int (length m) < i + n then Inl Out_of_bounds
      else let xs = take (nat n) (drop (nat i) m)
           in if None \<in> set xs then Inl Uninitialised else Inr (map the xs))"

definition mem_write :: "cells \<Rightarrow> int \<Rightarrow> string \<Rightarrow> cells res" where
  "mem_write m i xs =
     (if i < 0 \<or> int (length m) < i + int (length xs) then Inl Out_of_bounds
      else Inr (blit m (nat i) (map Some xs)))"

text \<open>memchr: the offset of the first byte equal to c among n bytes from i.\<close>

fun mem_chr :: "cells \<Rightarrow> int \<Rightarrow> nat \<Rightarrow> char \<Rightarrow> int option res" where
  "mem_chr m i 0 c = Inr None"
| "mem_chr m i (Suc n) c =
     rbind (mem_get m i) (\<lambda>x. if x = c then Inr (Some i) else mem_chr m (i + 1) n c)"

text \<open>realloc to n bytes, which keeps the common prefix.\<close>

definition mem_resize :: "cells \<Rightarrow> nat \<Rightarrow> cells" where
  "mem_resize m n = take n m @ replicate (n - length m) None"

text \<open>memcmp over the first n bytes; only the sign of the result is specified.\<close>

fun memcmp :: "string \<Rightarrow> string \<Rightarrow> nat \<Rightarrow> int" where
  "memcmp (a # x) (b # y) (Suc n) =
     (if a = b then memcmp x y n else if cval a < cval b then -1 else 1)"
| "memcmp _ _ _ = 0"

text \<open>A run of cells that holds the given text.\<close>

definition holds :: "cells \<Rightarrow> int \<Rightarrow> string \<Rightarrow> bool" where
  "holds m i s \<longleftrightarrow> 0 \<le> i \<and> i + int (length s) \<le> int (length m) \<and>
                  take (length s) (drop (nat i) m) = map Some s"

lemma holds_Nil [simp]: "holds m i [] \<longleftrightarrow> 0 \<le> i \<and> i \<le> int (length m)"
  by (simp add: holds_def)

lemma holds_append:
  "holds m i (s @ t) \<longleftrightarrow> holds m i s \<and> holds m (i + int (length s)) t"
proof -
  have "nat (i + int (length s)) = nat i + length s" if "0 \<le> i" using that by simp
  then show ?thesis
    by (auto simp: holds_def take_add add.commute)
qed

lemma holds_ConsD: "holds m i (c # s) \<Longrightarrow> holds m i [c] \<and> holds m (i + 1) s"
  using holds_append [of m i "[c]" s] by simp

lemma mem_get_holds: "holds m i [c] \<Longrightarrow> mem_get m i = Inr c"
  by (auto simp: holds_def mem_get_def take_Suc_conv_app_nth nth_via_drop
      simp flip: hd_drop_conv_nth split: option.splits)

lemma mem_read_holds: "holds m i s \<Longrightarrow> mem_read m i (int (length s)) = Inr s"
  by (auto simp: holds_def mem_read_def Let_def comp_def)

lemma mem_write_holds:
  assumes "0 \<le> i" "i + int (length s) \<le> int (length m)"
  shows "\<exists>m'. mem_write m i s = Inr m' \<and> length m' = length m \<and> holds m' i s \<and>
              (\<forall>j t. j + int (length t) \<le> i \<longrightarrow> holds m j t \<longrightarrow> holds m' j t)"
proof -
  let ?m' = "blit m (nat i) (map Some s)"
  have len: "nat i + length (map Some s) \<le> length m" using assms by simp
  have "holds ?m' i s"
    using assms blit_slice [OF len] length_blit [OF len] by (simp add: holds_def)
  moreover have "holds ?m' j t" if "j + int (length t) \<le> i" "holds m j t" for j t
  proof -
    have j: "0 \<le> j" "nat j + length t \<le> nat i" using that by (auto simp: holds_def)
    have "take (length t) (drop (nat j) ?m') = drop (nat j) (take (nat j + length t) ?m')"
      by (simp add: take_drop add.commute)
    also have "\<dots> = drop (nat j) (take (nat j + length t) m)"
      using j assms by simp
    also have "\<dots> = map Some t" using that by (simp add: holds_def take_drop add.commute)
    finally show ?thesis using that assms length_blit [OF len] by (simp add: holds_def)
  qed
  ultimately show ?thesis using assms by (simp add: mem_write_def)
qed

lemma holds_resize: "holds m i s \<Longrightarrow> length m \<le> n \<Longrightarrow> holds (mem_resize m n) i s"
  by (auto simp: holds_def mem_resize_def)

lemma length_mem_resize [simp]: "length (mem_resize m n) = n"
  by (simp add: mem_resize_def)

lemma mem_chr_holds:
  assumes "holds m i (s @ [c])" "c \<notin> set s" "length s < n"
  shows "mem_chr m i n c = Inr (Some (i + int (length s)))"
  using assms
proof (induction s arbitrary: i n)
  case Nil
  then show ?case by (cases n) (simp_all add: mem_get_holds)
next
  case (Cons a s)
  then obtain k where "n = Suc k" by (cases n) auto
  moreover have "mem_get m i = Inr a" "holds m (i + 1) (s @ [c])"
    using holds_ConsD [of m i a "s @ [c]"] Cons.prems by (simp_all add: mem_get_holds)
  ultimately show ?case using Cons by auto
qed

lemma mem_chr_none:
  assumes "holds m i s" "c \<notin> set s"
  shows "mem_chr m i (length s) c = Inr None"
  using assms
proof (induction s arbitrary: i)
  case (Cons a s)
  then have "mem_get m i = Inr a" "holds m (i + 1) s"
    using holds_ConsD [of m i a s] by (simp_all add: mem_get_holds)
  with Cons show ?case by auto
qed simp

text \<open>
  strtol on memory that need not be NUL-terminated: it reads white space, a sign, digits and the
  first character after them, all of which must be there.
\<close>

definition mem_text :: "cells \<Rightarrow> int \<Rightarrow> string" where
  "mem_text m i = map the (takeWhile (\<lambda>c. c \<noteq> None) (drop (nat i) m))"

definition skip_sign :: "string \<Rightarrow> string" where
  "skip_sign s = (case s of [] \<Rightarrow> [] | c # r \<Rightarrow> if c = CHR ''-'' \<or> c = CHR ''+'' then r else s)"

definition mem_strtol :: "cells \<Rightarrow> int \<Rightarrow> errno \<Rightarrow> (int \<times> errno) res" where
  "mem_strtol m i e =
     (if i < 0 \<or> dropWhile isdigit (skip_sign (dropWhile isspace (mem_text m i))) = [] then Inl Out_of_bounds
      else Inr (fst (strtol (mem_text m i)), strtol_errno e (mem_text m i)))"

lemma mem_text_holds:
  assumes "holds m i s"
  shows "\<exists>t. mem_text m i = s @ t"
proof -
  have "drop (nat i) m = map Some s @ drop (length s) (drop (nat i) m)"
    using assms by (metis append_take_drop_id holds_def)
  then have "takeWhile (\<lambda>c. c \<noteq> None) (drop (nat i) m)
      = map Some s @ takeWhile (\<lambda>c. c \<noteq> None) (drop (length s) (drop (nat i) m))"
    by (metis (mono_tags, lifting) imageE list.set_map option.distinct(1) takeWhile_append2)
  then show ?thesis by (simp add: mem_text_def comp_def)
qed

lemma mem_strtol_dec:
  assumes "holds m i (dec_int (int n) @ [c])" "\<not> isdigit c" "int n \<le> LONG_MAX"
  shows "mem_strtol m i e = Inr (int n, e)"
proof -
  obtain t where t: "mem_text m i = dec_int (int n) @ c # t"
    using mem_text_holds [OF assms(1)] by auto
  have r: "c # t = [] \<or> \<not> isdigit (hd (c # t))" using assms(2) by simp
  have d: "dec_int (int n) = dec_nat n" by (simp add: dec_int_def)
  obtain a as where a: "dec_nat n = a # as" "isdigit a"
    using dec_nat_digits [of n] dec_nat_not_Nil [of n] by (cases "dec_nat n") auto
  have "skip_sign (dropWhile isspace (mem_text m i)) = dec_nat n @ c # t"
    using a isdigit_not_isspace [OF a(2)] unfolding t d by (auto simp: skip_sign_def isdigit_def)
  then have "dropWhile isdigit (skip_sign (dropWhile isspace (mem_text m i))) = c # t"
    using dropWhile_append_stop [OF dec_nat_digits r] by simp
  moreover have "0 \<le> i" using assms(1) by (simp add: holds_def)
  moreover have "LONG_MIN \<le> int n" by (simp add: LONG_MIN_def)
  ultimately show ?thesis
    using strtol_dec_int [OF _ assms(3) r] strtol_errno_dec_int [OF _ assms(3) r, of e] unfolding mem_strtol_def t
    by simp
qed

lemma mem_chr_bounds: "mem_chr m i n c = Inr (Some j) \<Longrightarrow> i \<le> j \<and> j < i + int n"
  by (induction n arbitrary: i) (fastforce simp: rbind_eq_Inr split: if_splits)+

end
