(* ===== verification/Util_Strings.thy ===== *)
theory Util_Strings
  imports C_Lib
begin

text \<open>
  The string helpers of src/src/util/strings.h and the line codec of src/src/util/line.h: trimming
  and case mapping, the escape format, the conversions between integers and text with the errno
  protocol around strtol, substrings with negative indices, bit counting and byte swapping. The
  lemmas show that decoding undoes encoding for the escape format, for numbers and for whole
  sequences of lines, and that byte swapping is an involution.
\<close>

section \<open>Trimming and case\<close>

definition is_empty_str :: "string \<Rightarrow> bool" where
  "is_empty_str s \<longleftrightarrow> dropWhile isspace s = []"

definition ltrim :: "string \<Rightarrow> string" where
  "ltrim s = dropWhile isspace s"

definition rtrim :: "string \<Rightarrow> string" where
  "rtrim s = rev (dropWhile isspace (rev s))"

definition trim :: "string \<Rightarrow> string" where
  "trim s = rtrim (ltrim s)"

definition strtolower :: "string \<Rightarrow> string" where
  "strtolower s = map tolower s"

definition strtoupper :: "string \<Rightarrow> string" where
  "strtoupper s = map toupper s"

text \<open>real_dirname with the result of getcwd as an argument, None when it failed.\<close>

definition real_dirname :: "string option \<Rightarrow> string \<Rightarrow> string" where
  "real_dirname cwd filepath =
     (let dir = (if filepath = [] \<or> hd filepath \<noteq> CHR ''/'' then
                   (case cwd of None \<Rightarrow> [] | Some p \<Rightarrow> p) @ ''/''
                 else [])
      in if CHR ''/'' \<in> set filepath then
           dir @ rev (tl (dropWhile (\<lambda>c. c \<noteq> CHR ''/'') (rev filepath)))
         else dir)"

section \<open>The escape format\<close>

definition hex_digit :: "nat \<Rightarrow> char" where
  "hex_digit d = ''0123456789abcdef'' ! d"

text \<open>One iteration of the loop of str_escape: the text appended for one byte.\<close>

definition escape_char :: "char \<Rightarrow> string" where
  "escape_char c =
     (if c = CR then [BACKSLASH, CHR ''r'']
      else if c = LF then [BACKSLASH, CHR ''n'']
      else if c = TAB then [BACKSLASH, CHR ''t'']
      else if c = BACKSLASH then [BACKSLASH, BACKSLASH]
      else if c = CHR '' '' then [c]
      else if 33 \<le> cval c \<and> cval c \<le> 126 then [c]
      else [BACKSLASH, CHR ''x'', hex_digit (cval c div 16), hex_digit (cval c mod 16)])"

fun str_escape :: "string \<Rightarrow> string" where
  "str_escape [] = []"
| "str_escape (c # s) = escape_char c @ str_escape s"

definition hexmem :: "string \<Rightarrow> string" where
  "hexmem s = str_escape s"

definition hex_int :: "char \<Rightarrow> int" where
  "hex_int c = (if isdigit c then schar c - 48 else schar c - 97 + 10)"

text \<open>The cases of the switch on the character after a backslash, other than 'x'.\<close>

definition unescape_char :: "char \<Rightarrow> char" where
  "unescape_char c2 =
     (if c2 = CHR ''a'' then CHR 0x07
      else if c2 = CHR ''b'' then CHR 0x08
      else if c2 = CHR ''f'' then CHR 0x0C
      else if c2 = CHR ''v'' then CHR 0x0B
      else if c2 = CHR ''r'' then CR
      else if c2 = CHR ''n'' then LF
      else if c2 = CHR ''t'' then TAB
      else if c2 = BACKSLASH then BACKSLASH
      else c2)"

fun str_unescape :: "string \<Rightarrow> string" where
  "str_unescape [] = []"
| "str_unescape (c # s) =
     (if c \<noteq> BACKSLASH then c # str_unescape s
      else case s of
        [] \<Rightarrow> []
      | c2 # s2 \<Rightarrow>
          if c2 = CHR ''x'' then
            (case s2 of
               c3 # c4 # s4 \<Rightarrow>
                 char_of (nat ((hex_int c3 * 16 + hex_int c4) mod 256)) # str_unescape s4
             | _ \<Rightarrow> str_unescape s2)
          else unescape_char c2 # str_unescape s2)"

section \<open>Integers and text\<close>

definition str_int :: "int \<Rightarrow> string" where
  "str_int v = dec_int v"

text \<open>
  str_to_int and str_to_int64 return the value and leave errno 0 exactly when the whole string
  was read; errno is an explicit input because the code only overwrites it when it was 0.
\<close>

definition str_to_int64 :: "errno \<Rightarrow> string \<Rightarrow> int \<times> errno" where
  "str_to_int64 e s =
     (let (v, r) = strtol s; e' = strtol_errno e s
      in (v, if r = [] then E_NONE else if e' = E_NONE then EINVAL else e'))"

definition str_to_int :: "errno \<Rightarrow> string \<Rightarrow> int \<times> errno" where
  "str_to_int e s =
     (let (v, r) = strtol s; e' = strtol_errno e s
      in (to_int32 v, if r = [] then E_NONE else if e' = E_NONE then EINVAL else e'))"

definition str_uint64 :: "nat \<Rightarrow> string" where
  "str_uint64 v = dec_nat v"

definition str_to_uint64 :: "errno \<Rightarrow> string \<Rightarrow> int \<times> errno" where
  "str_to_uint64 e s =
     (let (v, r) = strtoull s; e' = strtoull_errno e s
      in (v, if r = [] then E_NONE else if e' = E_NONE then EINVAL else e'))"

section \<open>Substrings\<close>

text \<open>std::string::substr(pos, n) for a position inside the string.\<close>

definition std_substr :: "string \<Rightarrow> nat \<Rightarrow> nat \<Rightarrow> string" where
  "std_substr s i n = take n (drop i s)"

definition substr :: "string \<Rightarrow> int \<Rightarrow> int \<Rightarrow> string" where
  "substr s start sz =
     (let start' = (if start < 0 then int (length s) + start else start);
          sz' = (if sz < 0 then (int (length s) + sz) - start' else sz)
      in if start' < 0 \<or> start' \<ge> int (length s) \<or> sz' < 0 then []
         else std_substr s (nat start') (nat sz'))"

definition str_slice :: "string \<Rightarrow> int \<Rightarrow> int \<Rightarrow> string" where
  "str_slice s start stop =
     (let start' = (if start < 0 then int (length s) + start else start);
          sz = (if stop < 0 then (int (length s) + stop + 1) - start' else stop - start' + 1)
      in if start' < 0 \<or> start' \<ge> int (length s) \<or> sz < 0 then []
         else std_substr s (nat start') (nat sz))"

section \<open>Bits and byte order\<close>

text \<open>The inner loop of bitcount: n += c & 1; c >>= 1 while c is not 0.\<close>

fun bitcount_byte :: "nat \<Rightarrow> nat" where
  "bitcount_byte c = (if c = 0 then 0 else c mod 2 + bitcount_byte (c div 2))"

declare bitcount_byte.simps [simp del]

fun bitcount :: "string \<Rightarrow> nat" where
  "bitcount [] = 0"
| "bitcount (c # s) = bitcount_byte (cval c) + bitcount s"

definition big_endian16 :: "16 word \<Rightarrow> 16 word" where
  "big_endian16 v = drop_bit 8 v OR push_bit 8 v"

definition big_endian32 :: "32 word \<Rightarrow> 32 word" where
  "big_endian32 v = drop_bit 24 v OR (drop_bit 8 v AND 0xff00)
                    OR (push_bit 8 v AND 0xff0000) OR push_bit 24 v"

definition big_endian64 :: "64 word \<Rightarrow> 64 word" where
  "big_endian64 v =
     (let h = ucast (drop_bit 32 v) :: 32 word; l = ucast (v AND 0xffffffff) :: 32 word
      in ucast (big_endian32 h) OR push_bit 32 (ucast (big_endian32 l)))"

section \<open>The line codec\<close>

definition line_write :: "string \<Rightarrow> string \<Rightarrow> string" where
  "line_write val data = val @ str_escape data @ [LF]"

definition line_write_int :: "string \<Rightarrow> int \<Rightarrow> string" where
  "line_write_int val data = line_write val (str_int data)"

record line_decoder =
  ld_buf :: string
  ld_spos :: nat
  ld_epos :: nat

definition line_decoder_new :: "string \<Rightarrow> line_decoder" where
  "line_decoder_new s = \<lparr>ld_buf = s, ld_spos = 0, ld_epos = 0\<rparr>"

text \<open>LineDecoder::read: None is the return value -1.\<close>

definition line_read :: "line_decoder \<Rightarrow> string option \<times> line_decoder" where
  "line_read d =
     (let e = ld_epos d + length (takeWhile (\<lambda>c. c \<noteq> LF) (drop (ld_epos d) (ld_buf d)))
      in if e \<ge> length (ld_buf d) then (None, d\<lparr>ld_epos := e\<rparr>)
         else (Some (str_unescape (take (e - ld_spos d) (drop (ld_spos d) (ld_buf d)))),
               d\<lparr>ld_spos := e + 1, ld_epos := e + 1\<rparr>))"

definition line_read_int64 :: "errno \<Rightarrow> line_decoder \<Rightarrow> (int \<times> errno) option \<times> line_decoder" where
  "line_read_int64 err d =
     (case line_read d of (None, d') \<Rightarrow> (None, d')
      | (Some line, d') \<Rightarrow> (Some (str_to_int64 err line), d'))"

fun line_write_all :: "string \<Rightarrow> string list \<Rightarrow> string" where
  "line_write_all val [] = val"
| "line_write_all val (x # xs) = line_write_all (line_write val x) xs"

fun line_read_n :: "nat \<Rightarrow> line_decoder \<Rightarrow> string list option \<times> line_decoder" where
  "line_read_n 0 d = (Some [], d)"
| "line_read_n (Suc n) d =
     (case line_read d of
        (None, d') \<Rightarrow> (None, d')
      | (Some l, d') \<Rightarrow> (case line_read_n n d' of
                           (None, d'') \<Rightarrow> (None, d'')
                         | (Some ls, d'') \<Rightarrow> (Some (l # ls), d'')))"

section \<open>Trimming\<close>

lemma set_dropWhile_head: "dropWhile P xs = y # ys \<Longrightarrow> \<not> P y"
  by (induction xs) (auto split: if_splits)

lemma rtrim_last: "rtrim s = [] \<or> \<not> isspace (last (rtrim s))"
  by (cases "dropWhile isspace (rev s)") (auto simp: rtrim_def dest: set_dropWhile_head)

lemma rtrim_prefix: "\<exists>t. s = rtrim s @ t \<and> (\<forall>c\<in>set t. isspace c)"
proof -
  have "s = rev (dropWhile isspace (rev s)) @ rev (takeWhile isspace (rev s))"
    by (metis rev_append rev_rev_ident takeWhile_dropWhile_id)
  then show ?thesis unfolding rtrim_def by (metis set_rev set_takeWhileD)
qed

lemma trim_ends: "trim s = [] \<or> (\<not> isspace (hd (trim s)) \<and> \<not> isspace (last (trim s)))"
proof (cases "ltrim s")
  case Nil
  then show ?thesis by (simp add: trim_def rtrim_def)
next
  case (Cons c r)
  then have "\<not> isspace c" by (auto simp: ltrim_def dest: set_dropWhile_head)
  moreover obtain t where "ltrim s = trim s @ t"
    using rtrim_prefix [of "ltrim s"] by (auto simp: trim_def)
  ultimately have "trim s = [] \<or> \<not> isspace (hd (trim s))"
    using Cons by (cases "trim s") auto
  then show ?thesis using rtrim_last [of "ltrim s"] by (auto simp: trim_def)
qed

text \<open>Trimming removes white space at both ends only, and all of it.\<close>

lemma trim_spec:
  "\<exists>l r. s = l @ trim s @ r \<and> (\<forall>c\<in>set l \<union> set r. isspace c) \<and>
     (trim s = [] \<or> (\<not> isspace (hd (trim s)) \<and> \<not> isspace (last (trim s))))"
proof -
  have "s = takeWhile isspace s @ ltrim s" by (simp add: ltrim_def)
  moreover obtain t where "ltrim s = trim s @ t" "\<forall>c\<in>set t. isspace c"
    using rtrim_prefix [of "ltrim s"] by (auto simp: trim_def)
  ultimately have "s = takeWhile isspace s @ trim s @ t" by simp
  with \<open>\<forall>c\<in>set t. isspace c\<close> trim_ends [of s] show ?thesis
    by (intro exI [of _ "takeWhile isspace s"] exI [of _ t]) (auto dest: set_takeWhileD)
qed

lemma is_empty_str_iff: "is_empty_str s \<longleftrightarrow> trim s = []"
proof
  assume "trim s = []"
  then have "\<forall>c\<in>set (ltrim s). isspace c"
    by (simp add: trim_def rtrim_def)
  then have "ltrim s = []"
    by (cases "ltrim s") (auto simp: ltrim_def dest: set_dropWhile_head)
  then show "is_empty_str s" by (simp add: is_empty_str_def ltrim_def)
next
  assume "is_empty_str s"
  then have "ltrim s = []" by (simp only: is_empty_str_def ltrim_def)
  then show "trim s = []" by (simp add: trim_def rtrim_def)
qed

section \<open>Escaping\<close>

lemma hex_int_hex_digit: "d < 16 \<Longrightarrow> hex_int (hex_digit d) = int d"
proof -
  have "\<forall>d\<in>set [0..<16]. hex_int (hex_digit d) = int d" by code_simp
  then show "d < 16 \<Longrightarrow> hex_int (hex_digit d) = int d" by simp
qed

lemma hex_digit_printable: "d < 16 \<Longrightarrow> 33 \<le> cval (hex_digit d) \<and> cval (hex_digit d) \<le> 126"
proof -
  have "\<forall>d\<in>set [0..<16]. 33 \<le> cval (hex_digit d) \<and> cval (hex_digit d) \<le> 126" by code_simp
  then show "d < 16 \<Longrightarrow> 33 \<le> cval (hex_digit d) \<and> cval (hex_digit d) \<le> 126" by simp
qed

lemma cval_div_16: "cval c div 16 < 16"
  using cval_bound [of c] by (intro less_mult_imp_div_less) simp

lemma hex_pair: "char_of (nat ((hex_int (hex_digit (cval c div 16)) * 16
                                + hex_int (hex_digit (cval c mod 16))) mod 256)) = c"
proof -
  have "hex_int (hex_digit (cval c div 16)) * 16 + hex_int (hex_digit (cval c mod 16))
             = int (cval c)"
    by (simp add: cval_div_16 hex_int_hex_digit zmod_int zdiv_int)
  then show ?thesis using cval_bound [of c] by simp
qed

lemma str_unescape_escape_char: "str_unescape (escape_char c @ s) = c # str_unescape s"
  by (simp add: escape_char_def hex_pair) (simp add: unescape_char_def char_defs)

lemma str_unescape_str_escape: "str_unescape (str_escape s) = s"
  by (induction s) (simp_all add: str_unescape_escape_char del: str_unescape.simps(2))

lemma escape_char_printable:
  "\<forall>d\<in>set (escape_char c). 32 \<le> cval d \<and> cval d \<le> 126"
  using hex_digit_printable [OF cval_div_16 [of c]] hex_digit_printable [of "cval c mod 16"]
  by (simp add: escape_char_def char_defs)

lemma str_escape_printable: "\<forall>d\<in>set (str_escape s). 32 \<le> cval d \<and> cval d \<le> 126"
proof (induction s)
  case (Cons c s)
  with escape_char_printable [of c] show ?case by (simp add: ball_Un)
qed simp

lemma str_escape_no_LF: "LF \<notin> set (str_escape s)"
  using str_escape_printable [of s] by (auto simp: LF_def)

section \<open>Numbers\<close>

lemma str_to_int64_str: "LONG_MIN \<le> v \<Longrightarrow> v \<le> LONG_MAX \<Longrightarrow> str_to_int64 e (str_int v) = (v, E_NONE)"
  using strtol_dec_int [of v "[]"] by (simp add: str_to_int64_def str_int_def)

lemma str_to_int_str: "- (2 ^ 31) \<le> v \<Longrightarrow> v < 2 ^ 31 \<Longrightarrow> str_to_int e (str_int v) = (v, E_NONE)"
  using strtol_dec_int [of v "[]"] to_int32_id [of v]
  by (simp add: str_to_int_def str_int_def LONG_MIN_def LONG_MAX_def)

lemma str_to_uint64_str: "int v \<le> ULONG_MAX \<Longrightarrow> str_to_uint64 e (str_uint64 v) = (int v, E_NONE)"
  using strtoull_dec_nat [of v "[]"] by (simp add: str_to_uint64_def str_uint64_def)

section \<open>Bits and bytes\<close>

lemma bitcount_byte_le: "c < 2 ^ k \<Longrightarrow> bitcount_byte c \<le> k"
proof (induction k arbitrary: c)
  case (Suc k)
  then have "bitcount_byte (c div 2) \<le> k" by simp
  then show ?case by (subst bitcount_byte.simps) (use mod_less_divisor [of 2 c] in auto)
qed (simp add: bitcount_byte.simps)

lemma bitcount_byte_card: "bitcount_byte c = card {i. bit c i}"
proof (induction c rule: bitcount_byte.induct)
  case (1 c)
  have fin: "finite {i. bit d i}" for d :: nat
  proof (rule finite_subset [of _ "{..<d}"])
    show "{i. bit d i} \<subseteq> {..<d}"
    proof
      fix i assume "i \<in> {i. bit d i}"
      then have "2 ^ i \<le> d" by (auto simp: bit_iff_odd intro: ccontr)
      with less_exp [of i] have "i < d" by (rule less_le_trans)
      then show "i \<in> {..<d}" by simp
    qed
  qed simp
  show ?case
  proof (cases "c = 0")
    case False
    have "{i. bit c i} = (if odd c then {0} else {}) \<union> Suc ` {i. bit (c div 2) i}"
    proof (rule set_eqI)
      fix i show "i \<in> {i. bit c i} \<longleftrightarrow> i \<in> (if odd c then {0} else {}) \<union> Suc ` {i. bit (c div 2) i}"
        by (cases i) (auto simp: bit_0 bit_Suc)
    qed
    then have "card {i. bit c i} = c mod 2 + card {i. bit (c div 2) i}"
      using fin [of "c div 2"] by (auto simp: card_image odd_iff_mod_2_eq_one)
    with 1 False show ?thesis by (subst bitcount_byte.simps) simp
  qed (simp add: bitcount_byte.simps)
qed

lemma bitcount_le: "bitcount s \<le> 8 * length s"
proof (induction s)
  case (Cons c s)
  have "bitcount_byte (cval c) \<le> 8" using cval_bound [of c] by (intro bitcount_byte_le) simp
  with Cons show ?case by simp
qed simp

lemma big_endian16_invol: "big_endian16 (big_endian16 v) = v"
proof (rule bit_word_eqI)
  fix n assume "n < LENGTH(16)"
  then show "bit (big_endian16 (big_endian16 v)) n = bit v n"
    by (cases "n < 8") (auto simp: big_endian16_def bit_or_iff bit_drop_bit_eq bit_push_bit_iff)
qed

text \<open>Bit r of byte q of the swapped word is bit r of byte 3 - q.\<close>

lemma bit_big_endian32:
  assumes "q < 4" "r < 8"
  shows "bit (big_endian32 v) (8 * q + r) \<longleftrightarrow> bit v (8 * (3 - q) + r)"
proof -
  have m: "(0xff00 :: 32 word) = push_bit 8 (mask 8)" "(0xff0000 :: 32 word) = push_bit 16 (mask 8)"
    by (simp_all add: push_bit_eq_mult mask_eq_exp_minus_1)
  have "q = 0 \<or> q = 1 \<or> q = 2 \<or> q = 3" using assms by linarith
  then show ?thesis
    unfolding big_endian32_def m using assms(2)
    by (elim disjE)
       (auto simp: bit_or_iff bit_and_iff bit_drop_bit_eq bit_push_bit_iff bit_mask_iff add.commute
             dest: bit_imp_le_length)
qed

lemma big_endian32_invol: "big_endian32 (big_endian32 v) = v"
proof (rule bit_word_eqI)
  fix n assume "n < LENGTH(32)"
  then have q: "n div 8 < 4" by (simp add: less_mult_imp_div_less)
  have r: "n mod 8 < 8" by simp
  have n: "n = 8 * (n div 8) + n mod 8" by simp
  have "bit (big_endian32 (big_endian32 v)) (8 * (n div 8) + n mod 8) \<longleftrightarrow> bit v (8 * (n div 8) + n mod 8)"
    using bit_big_endian32 [OF q r, of "big_endian32 v"] bit_big_endian32 [of "3 - n div 8" "n mod 8" v] q r
    by simp
  then show "bit (big_endian32 (big_endian32 v)) n = bit v n" by simp
qed

lemma big_endian64_eq:
  "big_endian64 v = ucast (big_endian32 (ucast (drop_bit 32 v)))
                    OR push_bit 32 (ucast (big_endian32 (ucast v)))"
proof -
  have m: "(0xffffffff :: 64 word) = mask 32" by (simp add: mask_eq_exp_minus_1)
  have "(ucast (v AND 0xffffffff) :: 32 word) = ucast v"
    unfolding m by (intro bit_word_eqI) (auto simp: bit_and_iff bit_mask_iff bit_ucast_iff)
  then show ?thesis by (simp add: big_endian64_def)
qed

lemma big_endian64_halves:
  "(ucast (drop_bit 32 (big_endian64 v)) :: 32 word) = big_endian32 (ucast v)"
  "(ucast (big_endian64 v) :: 32 word) = big_endian32 (ucast (drop_bit 32 v))"
  by (rule bit_word_eqI; auto simp: big_endian64_eq bit_or_iff bit_drop_bit_eq bit_push_bit_iff bit_ucast_iff
             dest: bit_imp_le_length)+

lemma big_endian64_invol: "big_endian64 (big_endian64 v) = v"
  by (subst big_endian64_eq, simp only: big_endian64_halves big_endian32_invol)
     (rule bit_word_eqI, auto simp: bit_or_iff bit_push_bit_iff bit_drop_bit_eq bit_ucast_iff)

section \<open>The line codec\<close>

text \<open>A decoder stands at the start of a line: what is left to read, and nothing half read.\<close>

definition line_at :: "line_decoder \<Rightarrow> string \<Rightarrow> bool" where
  "line_at d s \<longleftrightarrow> ld_epos d = ld_spos d \<and> ld_spos d \<le> length (ld_buf d) \<and> drop (ld_spos d) (ld_buf d) = s"

lemma line_at_new: "line_at (line_decoder_new s) s"
  by (simp add: line_at_def line_decoder_new_def)

lemma line_read_line:
  assumes "line_at d (str_escape x @ [LF] @ s)"
  shows "\<exists>d'. line_read d = (Some x, d') \<and> line_at d' s"
proof -
  have d: "ld_epos d = ld_spos d" "ld_spos d \<le> length (ld_buf d)"
    "drop (ld_spos d) (ld_buf d) = str_escape x @ LF # s"
    using assms by (auto simp: line_at_def)
  have t: "takeWhile (\<lambda>c. c \<noteq> LF) (str_escape x @ LF # s) = str_escape x"
    using str_escape_no_LF [of x] by (intro takeWhile_append_stop) auto
  have l: "length (ld_buf d) = ld_spos d + length (str_escape x) + Suc (length s)"
    using arg_cong [OF d(3), of length] d(2) by simp
  have "drop (ld_spos d + length (str_escape x) + 1) (ld_buf d)
        = drop (length (str_escape x) + 1) (drop (ld_spos d) (ld_buf d))"
    by (simp add: add.commute add.left_commute)
  then have "drop (ld_spos d + length (str_escape x) + 1) (ld_buf d) = s" by (simp add: d(3))
  with d t l show ?thesis
    by (simp add: line_read_def line_at_def Let_def str_unescape_str_escape)
qed

lemma line_write_all_eq: "line_write_all val xs = val @ concat (map (\<lambda>x. str_escape x @ [LF]) xs)"
  by (induction xs arbitrary: val) (simp_all add: line_write_def)

lemma line_read_n_all:
  "line_at d (concat (map (\<lambda>x. str_escape x @ [LF]) xs) @ s) \<Longrightarrow>
   \<exists>d'. line_read_n (length xs) d = (Some xs, d') \<and> line_at d' s"
proof (induction xs arbitrary: d)
  case (Cons x xs)
  then obtain d' where d': "line_read d = (Some x, d')"
    "line_at d' (concat (map (\<lambda>x. str_escape x @ [LF]) xs) @ s)"
    using line_read_line [of d x "concat (map (\<lambda>x. str_escape x @ [LF]) xs) @ s"] by auto
  from Cons.IH [OF d'(2)] d'(1) show ?case by auto
qed auto

lemma line_read_at_end: "line_at d [] \<Longrightarrow> fst (line_read d) = None"
  by (simp add: line_at_def line_read_def Let_def)

section \<open>Properties\<close>

text \<open>Whatever strings are written by LineEncoder::write, one after the other, LineDecoder::read
  returns them in that order, and the next read reports the end of the input.\<close>

theorem line_codec_roundtrip:
  "case line_read_n (length xs) (line_decoder_new (line_write_all [] xs)) of
     (r, d) \<Rightarrow> r = Some xs \<and> fst (line_read d) = None"
  using line_read_n_all [of "line_decoder_new (line_write_all [] xs)" xs "[]"] line_at_new [of "line_write_all [] xs"]
  by (auto simp: line_write_all_eq line_read_at_end)

text \<open>A 64-bit integer written by LineEncoder::write(int64_t) behind any text of whole lines is read
  back by LineDecoder::read(int64_t*) with errno 0, whatever errno was before.\<close>

theorem line_codec_int64:
  assumes "LONG_MIN \<le> v" "v \<le> LONG_MAX"
  shows "fst (line_read_int64 e (snd (line_read_n (length xs)
           (line_decoder_new (line_write_int (line_write_all [] xs) v))))) = Some (v, E_NONE)"
proof -
  have "line_write_int (line_write_all [] xs) v
        = concat (map (\<lambda>x. str_escape x @ [LF]) xs) @ str_escape (str_int v) @ [LF] @ []"
    by (simp add: line_write_int_def line_write_def line_write_all_eq)
  then obtain d where "snd (line_read_n (length xs)
      (line_decoder_new (line_write_int (line_write_all [] xs) v))) = d"
    and "line_at d (str_escape (str_int v) @ [LF] @ [])"
    using line_read_n_all [of _ xs] line_at_new by (metis snd_conv)
  then show ?thesis
    using line_read_line [of d "str_int v" "[]"] assms
    by (auto simp: line_read_int64_def str_to_int64_str)
qed

theorem line_codec_int64_witness:
  "fst (line_read_int64 ERANGE (snd (line_read_n (length [''a'', [LF]])
     (line_decoder_new (line_write_int (line_write_all [] [''a'', [LF]]) (- 42)))))) = Some (- 42, E_NONE)"
  by (rule line_codec_int64) (simp_all add: LONG_MIN_def LONG_MAX_def)

text \<open>Each of the three big_endian overloads is its own inverse, so a value converted for the wire
  and back is unchanged.\<close>

theorem big_endian_involution:
  "big_endian16 (big_endian16 u) = u \<and> big_endian32 (big_endian32 v) = v \<and> big_endian64 (big_endian64 w) = w"
  by (simp add: big_endian16_invol big_endian32_invol big_endian64_invol)

end
