(* ===== verification/Buffers.thy ===== *)
theory Buffers
  imports Util_Strings "HOL-Library.List_Lexorder" "HOL-Library.Char_ord"
begin

text \<open>
  Bytes, Buffer and Decoder of src/src/util/bytes.h and bytes.cpp. A Buffer owns a heap block and a
  window (offset and size) into it; the operations append behind the window, drop from its front,
  move it back and enlarge the block. The success of realloc is a parameter of the operations that
  grow. Bytes is ordered by compare, which is shown to be the lexicographic order of its bytes. The
  interface byte_buffer states what the users of a buffer rely on; it is interpreted here on Buffer.
\<close>

section \<open>Bytes\<close>

datatype bytes = Bytes (bstr: string)

definition bytes_size :: "bytes \<Rightarrow> nat" where
  "bytes_size x = length (bstr x)"

definition bytes_compare :: "bytes \<Rightarrow> bytes \<Rightarrow> int" where
  "bytes_compare x y =
     (let min_len = (if bytes_size x < bytes_size y then bytes_size x else bytes_size y);
          r = memcmp (bstr x) (bstr y) min_len
      in if r = 0 then
           (if bytes_size x < bytes_size y then -1 else if bytes_size x > bytes_size y then 1 else r)
         else r)"

definition bytes_eq :: "bytes \<Rightarrow> bytes \<Rightarrow> bool" where
  "bytes_eq x y \<longleftrightarrow> bytes_size x = bytes_size y \<and> memcmp (bstr x) (bstr y) (bytes_size x) = 0"

definition bytes_ne :: "bytes \<Rightarrow> bytes \<Rightarrow> bool" where
  "bytes_ne x y \<longleftrightarrow> \<not> bytes_eq x y"

definition bytes_gt :: "bytes \<Rightarrow> bytes \<Rightarrow> bool" where
  "bytes_gt x y \<longleftrightarrow> bytes_compare x y > 0"

definition bytes_ge :: "bytes \<Rightarrow> bytes \<Rightarrow> bool" where
  "bytes_ge x y \<longleftrightarrow> bytes_compare x y \<ge> 0"

definition bytes_lt :: "bytes \<Rightarrow> bytes \<Rightarrow> bool" where
  "bytes_lt x y \<longleftrightarrow> bytes_compare x y < 0"

definition bytes_le :: "bytes \<Rightarrow> bytes \<Rightarrow> bool" where
  "bytes_le x y \<longleftrightarrow> bytes_compare x y \<le> 0"

definition bytes_Int :: "errno \<Rightarrow> bytes \<Rightarrow> int \<times> errno" where
  "bytes_Int e x = str_to_int e (bstr x)"

definition bytes_Int64 :: "errno \<Rightarrow> bytes \<Rightarrow> int \<times> errno" where
  "bytes_Int64 e x = str_to_int64 e (bstr x)"

definition bytes_Uint64 :: "errno \<Rightarrow> bytes \<Rightarrow> int \<times> errno" where
  "bytes_Uint64 e x = str_to_uint64 e (bstr x)"

section \<open>Buffer\<close>

text \<open>b_data is data_ - buf; a field no constructor sets is None until it is assigned.\<close>

record buffer =
  b_buf :: cells
  b_data :: int
  b_size :: int
  b_last_sz :: "int option"
  b_total :: int

definition Buffer_new :: "nat \<Rightarrow> buffer" where
  "Buffer_new n =
     \<lparr>b_buf = replicate n None, b_data = 0, b_size = 0, b_last_sz = None, b_total = int n\<rparr>"

definition Buffer_wrap :: "string \<Rightarrow> buffer" where
  "Buffer_wrap s =
     \<lparr>b_buf = map Some s, b_data = 0, b_size = int (length s), b_last_sz = None, b_total = int (length s)\<rparr>"

definition b_empty :: "'a buffer_scheme \<Rightarrow> bool" where
  "b_empty b \<longleftrightarrow> b_size b = 0"

definition b_slot :: "'a buffer_scheme \<Rightarrow> int" where
  "b_slot b = b_data b + b_size b"

definition b_space :: "'a buffer_scheme \<Rightarrow> int" where
  "b_space b = b_total b - b_data b - b_size b"

definition b_incr :: "int \<Rightarrow> 'a buffer_scheme \<Rightarrow> 'a buffer_scheme" where
  "b_incr num b = b\<lparr>b_size := b_size b + num\<rparr>"

definition b_decr :: "int \<Rightarrow> 'a buffer_scheme \<Rightarrow> 'a buffer_scheme" where
  "b_decr num b = b\<lparr>b_size := b_size b - num, b_data := b_data b + num\<rparr>"

definition b_remember_sz :: "int \<Rightarrow> 'a buffer_scheme \<Rightarrow> 'a buffer_scheme" where
  "b_remember_sz sz b = b\<lparr>b_last_sz := Some sz\<rparr>"

definition b_reset_dataptr :: "'a buffer_scheme \<Rightarrow> 'a buffer_scheme res" where
  "b_reset_dataptr b = (case b_last_sz b of
      None \<Rightarrow> Inl Uninitialised
    | Some sz \<Rightarrow> Inr (b\<lparr>b_size := sz, b_data := 0\<rparr>))"

definition b_size_diff :: "'a buffer_scheme \<Rightarrow> int res" where
  "b_size_diff b = (case b_last_sz b of
      None \<Rightarrow> Inl Uninitialised
    | Some sz \<Rightarrow> CHECK (sz \<ge> b_size b) (Inr (sz - b_size b)))"

text \<open>memcpy is undefined on overlapping ranges, so an overlap is a fault.\<close>

definition b_nice :: "'a buffer_scheme \<Rightarrow> 'a buffer_scheme res" where
  "b_nice b =
     (if b_data b > b_total b div 2 then
        rbind (mem_read (b_buf b) (b_data b) (b_size b)) (\<lambda>xs.
          if b_size b > b_data b then Inl Out_of_bounds
          else rbind (mem_write (b_buf b) 0 xs) (\<lambda>m. Inr (b\<lparr>b_buf := m, b_data := 0\<rparr>)))
      else Inr b)"

definition b_rewind :: "'a buffer_scheme \<Rightarrow> 'a buffer_scheme" where
  "b_rewind b = b\<lparr>b_data := 0, b_size := b_total b\<rparr>"

definition b_rewind_sz :: "int \<Rightarrow> 'a buffer_scheme \<Rightarrow> 'a buffer_scheme" where
  "b_rewind_sz sz b = b\<lparr>b_data := 0, b_size := sz\<rparr>"

definition grow_size :: "int \<Rightarrow> int" where
  "grow_size t =
     to_int32 (if t < 8 * 1024 then 8 * 1024 else if t < 512 * 1024 then 8 * t else 2 * t)"

text \<open>
  The doubled size may wrap to a negative int, which realloc reads as a size beyond every address
  space; ok says for which sizes realloc succeeds. The boolean result is False for the value -1.
\<close>

definition b_grow :: "(nat \<Rightarrow> bool) \<Rightarrow> 'a buffer_scheme \<Rightarrow> bool \<times> 'a buffer_scheme" where
  "b_grow ok b =
     (let n = grow_size (b_total b)
      in if n < 0 \<or> \<not> ok (nat n) then (False, b)
         else (True, b\<lparr>b_buf := mem_resize (b_buf b) (nat n), b_total := n\<rparr>))"

definition grow_measure :: "int \<Rightarrow> nat" where
  "grow_measure t = (if t < 2 ^ 31 then nat (2 ^ 31 - t) else 2 ^ 31 + 1)"

lemma grow_size_cases:
  assumes "t < 2 ^ 31"
  shows "t < grow_size t \<or> grow_size t < 0"
proof -
  consider "t < 8 * 1024" | "8 * 1024 \<le> t" "t < 512 * 1024" | "512 * 1024 \<le> t" "2 * t < 2 ^ 31"
    | "512 * 1024 \<le> t" "2 ^ 31 \<le> 2 * t"
    by linarith
  then show ?thesis
  proof cases
    case 4
    then have "(2 * t + 2 ^ 31) mod 2 ^ 32 = 2 * t - 2 ^ 31"
      using assms mod_pos_pos_trivial [of "2 * t - 2 ^ 31" "2 ^ 32"] mod_add_self2 [of "2 * t - 2 ^ 31" "2 ^ 32"]
      by (simp add: add.commute)
    then have "to_int32 (2 * t) = 2 * t - 2 ^ 32" by (simp add: to_int32_eq)
    with 4 assms show ?thesis by (simp add: grow_size_def)
  qed (auto simp: grow_size_def to_int32_id)
qed

text \<open>The loop while(need > space()) that every append runs first; False when a grow failed.\<close>

function b_reserve :: "(nat \<Rightarrow> bool) \<Rightarrow> int \<Rightarrow> 'a buffer_scheme \<Rightarrow> bool \<times> 'a buffer_scheme" where
  "b_reserve ok need b =
     (if need > b_space b then
        (case b_grow ok b of (False, b') \<Rightarrow> (False, b') | (True, b') \<Rightarrow> b_reserve ok need b')
      else (True, b))"
  by pat_completeness auto

lemma grow_size_lt: "grow_size t < 2 ^ 31"
  using to_int32_bounds by (simp add: grow_size_def)

lemma b_grow_measure:
  assumes "b_grow ok b = (True, b')"
  shows "grow_measure (b_total b') < grow_measure (b_total b)"
proof -
  have "b_total b' = grow_size (b_total b)" "0 \<le> grow_size (b_total b)"
    using assms by (auto simp: b_grow_def Let_def split: if_splits)
  then show ?thesis
    using grow_size_cases [of "b_total b"] grow_size_lt [of "b_total b"]
    by (auto simp: grow_measure_def)
qed

termination b_reserve
  by (relation "measure (\<lambda>(ok, need, b). grow_measure (b_total b))")
     (auto intro: b_grow_measure [OF sym])

declare b_reserve.simps [simp del]

definition b_append :: "(nat \<Rightarrow> bool) \<Rightarrow> string \<Rightarrow> 'a buffer_scheme \<Rightarrow> (int \<times> 'a buffer_scheme) res" where
  "b_append ok s b =
     (case b_reserve ok (int (length s)) b of
        (False, b') \<Rightarrow> Inr (-1, b')
      | (True, b') \<Rightarrow> rbind (mem_write (b_buf b') (b_slot b') s) (\<lambda>m.
          Inr (int (length s), b'\<lparr>b_buf := m, b_size := b_size b' + int (length s)\<rparr>)))"

definition b_append_char :: "(nat \<Rightarrow> bool) \<Rightarrow> char \<Rightarrow> 'a buffer_scheme \<Rightarrow> (int \<times> 'a buffer_scheme) res" where
  "b_append_char ok c b =
     (case b_reserve ok 1 b of
        (False, b') \<Rightarrow> Inr (-1, b')
      | (True, b') \<Rightarrow> rbind (mem_write (b_buf b') (b_slot b') [c]) (\<lambda>m.
          Inr (1, b'\<lparr>b_buf := m, b_size := b_size b' + 1\<rparr>)))"

definition b_append_record :: "(nat \<Rightarrow> bool) \<Rightarrow> bytes \<Rightarrow> 'a buffer_scheme \<Rightarrow> (int \<times> 'a buffer_scheme) res" where
  "b_append_record ok s b =
     (let need = to_int32 (16 + int (bytes_size s) + 1)
      in case b_reserve ok need b of
           (False, b') \<Rightarrow> Inr (-1, b')
         | (True, b') \<Rightarrow>
             (let len = dec_int (int (bytes_size s)) @ [LF]; num = int (length len); p = b_slot b'
              in rbind (mem_write (b_buf b') p len) (\<lambda>m1.
                 rbind (mem_write m1 (p + num) (bstr s)) (\<lambda>m2.
                 rbind (mem_write m2 (p + num + int (bytes_size s)) [LF]) (\<lambda>m3.
                   Inr (num + int (bytes_size s) + 1,
                        b'\<lparr>b_buf := m3, b_size := b_size b' + (num + int (bytes_size s) + 1)\<rparr>))))))"

text \<open>
  Buffer::read_record: the return value, the Bytes view (offset and length in the block) it stores
  in its argument, and the buffer after it.
\<close>

definition b_read_record :: "'a buffer_scheme \<Rightarrow> (int \<times> (int \<times> int) option \<times> 'a buffer_scheme) res" where
  "b_read_record b =
     (let hd_p = b_data b in
      if b_size b < 0 then Inl Out_of_bounds else
      rbind (mem_chr (b_buf b) hd_p (nat (b_size b)) LF) (\<lambda>r.
      case r of
        None \<Rightarrow> Inr (0, None, b)
      | Some nl \<Rightarrow>
         (let body = nl + 1; head_len = body - hd_p in
          rbind (mem_get (b_buf b) hd_p) (\<lambda>h0.
          if schar h0 < 48 \<or> schar h0 > 57 then Inr (-1, None, b)
          else if head_len + 1 > 20 then Inr (-1, None, b)
          else rbind (mem_read (b_buf b) hd_p (head_len - 1)) (\<lambda>head_str.
          let body_len = atoi head_str; p = body + body_len in
          if body_len < 0 then Inr (-1, None, b)
          else if b_size b \<ge> to_int32 (head_len + body_len + 1) then
            rbind (mem_get (b_buf b) p) (\<lambda>p0.
            if p0 = LF then
              Inr (1, Some (body, body_len), b\<lparr>b_size := b_size b - (head_len + body_len + 1)\<rparr>)
            else if p0 = CR then
              (if b_size b \<ge> to_int32 (head_len + body_len + 2) then
                 rbind (mem_get (b_buf b) (p + 1)) (\<lambda>p1.
                 if p1 = LF then
                   Inr (1, Some (body, body_len), b\<lparr>b_size := b_size b - (head_len + body_len + 2)\<rparr>)
                 else Inr (-1, None, b))
               else Inr (0, None, b))
            else Inr (-1, None, b))
          else Inr (0, None, b))))))"

section \<open>Decoder\<close>

text \<open>The memory behind p, the offset of p in it, and size.\<close>

record decoder =
  d_mem :: cells
  d_p :: int
  d_size :: int

definition Decoder_new :: "cells \<Rightarrow> int \<Rightarrow> int \<Rightarrow> decoder" where
  "Decoder_new m p sz = \<lparr>d_mem = m, d_p = p, d_size = sz\<rparr>"

definition d_advance :: "int \<Rightarrow> decoder \<Rightarrow> decoder" where
  "d_advance n d = d\<lparr>d_p := d_p d + n, d_size := d_size d - n\<rparr>"

definition d_skip :: "int \<Rightarrow> decoder \<Rightarrow> int \<times> decoder" where
  "d_skip n d = (if d_size d < n then (-1, d) else (n, d_advance n d))"

text \<open>The little-endian value of a byte sequence.\<close>

fun le_val :: "string \<Rightarrow> int" where
  "le_val [] = 0"
| "le_val (c # s) = int (cval c) + 256 * le_val s"

text \<open>size_t(size) makes a negative size pass the test.\<close>

definition d_read_uint64 :: "decoder \<Rightarrow> (int option \<times> decoder) res" where
  "d_read_uint64 d =
     (if 0 \<le> d_size d \<and> d_size d < 8 then Inr (None, d)
      else rbind (mem_read (d_mem d) (d_p d) 8) (\<lambda>s. Inr (Some (le_val s), d_advance 8 d)))"

definition d_read_int64 :: "decoder \<Rightarrow> (int option \<times> decoder) res" where
  "d_read_int64 d =
     (if 0 \<le> d_size d \<and> d_size d < 8 then Inr (None, d)
      else rbind (mem_read (d_mem d) (d_p d) 8) (\<lambda>s. Inr (Some (to_int64 (le_val s)), d_advance 8 d)))"

definition d_read_data :: "decoder \<Rightarrow> (string \<times> decoder) res" where
  "d_read_data d =
     rbind (mem_read (d_mem d) (d_p d) (d_size d)) (\<lambda>s.
       Inr (s, d\<lparr>d_p := d_p d + d_size d, d_size := 0\<rparr>))"

text \<open>On a short body the length byte stays consumed, as in the code.\<close>

definition d_read_8_data :: "decoder \<Rightarrow> (string option \<times> decoder) res" where
  "d_read_8_data d =
     (if d_size d < 1 then Inr (None, d)
      else rbind (mem_get (d_mem d) (d_p d)) (\<lambda>c.
        let len = int (cval c); d1 = d_advance 1 d
        in if d_size d1 < len then Inr (None, d1)
           else rbind (mem_read (d_mem d1) (d_p d1) len) (\<lambda>s. Inr (Some s, d_advance len d1))))"

section \<open>The order on Bytes\<close>

lemma memcmp_eq_0:
  "n \<le> length x \<Longrightarrow> n \<le> length y \<Longrightarrow> memcmp x y n = 0 \<longleftrightarrow> take n x = take n y"
  by (induction x y n rule: memcmp.induct) (auto simp: take_Cons')

lemma bytes_compare_lexorder:
  "bytes_compare (Bytes x) (Bytes y) = (if x < y then -1 else if x = y then 0 else 1)"
proof (induction x arbitrary: y)
  case Nil
  show ?case by (cases y) (simp_all add: bytes_compare_def bytes_size_def)
next
  case (Cons a x)
  note IH = Cons.IH
  show ?case
  proof (cases y)
    case Nil
    then show ?thesis by (simp add: bytes_compare_def bytes_size_def)
  next
    case (Cons b z)
    have "bytes_compare (Bytes (a # x)) (Bytes (b # z)) =
        (if a = b then bytes_compare (Bytes x) (Bytes z) else if cval a < cval b then -1 else 1)"
      by (simp add: bytes_compare_def bytes_size_def Let_def)
    moreover have "cval a < cval b \<longleftrightarrow> a < b" by (simp add: less_char_def)
    ultimately show ?thesis using Cons IH [of z] by (auto simp: less_le)
  qed
qed

text \<open>The six operators are those of the lexicographic order of the bytes.\<close>

lemma bytes_le_iff: "bytes_le x y \<longleftrightarrow> bstr x \<le> bstr y"
  using bytes_compare_lexorder [of "bstr x" "bstr y"] by (auto simp: bytes_le_def)

lemma bytes_lt_iff: "bytes_lt x y \<longleftrightarrow> bstr x < bstr y"
  using bytes_compare_lexorder [of "bstr x" "bstr y"] by (auto simp: bytes_lt_def)

instantiation bytes :: linorder
begin

definition less_eq_bytes :: "bytes \<Rightarrow> bytes \<Rightarrow> bool" where
  "less_eq_bytes = bytes_le"

definition less_bytes :: "bytes \<Rightarrow> bytes \<Rightarrow> bool" where
  "less_bytes = bytes_lt"

instance
  by standard (auto simp: less_eq_bytes_def less_bytes_def bytes_le_iff bytes_lt_iff bytes.expand)

end

lemma bytes_gt_iff: "bytes_gt x y \<longleftrightarrow> y < x"
  using bytes_compare_lexorder [of "bstr x" "bstr y"] by (auto simp: bytes_gt_def less_bytes_def bytes_lt_iff)

lemma bytes_ge_iff: "bytes_ge x y \<longleftrightarrow> y \<le> x"
  using bytes_compare_lexorder [of "bstr x" "bstr y"] by (auto simp: bytes_ge_def less_eq_bytes_def bytes_le_iff)

lemma bytes_eq_iff: "bytes_eq x y \<longleftrightarrow> x = y"
  by (auto simp: bytes_eq_def bytes_size_def memcmp_eq_0 bytes.expand)

lemma bytes_ne_iff: "bytes_ne x y \<longleftrightarrow> x \<noteq> y"
  by (simp add: bytes_ne_def bytes_eq_iff)

section \<open>The buffer invariant\<close>

text \<open>
  brep b s: the window of b lies in its block and holds the initialised bytes s. The invariant is
  that there is such an s, which is then the contents.
\<close>

definition brep :: "'a buffer_scheme \<Rightarrow> string \<Rightarrow> bool" where
  "brep b s \<longleftrightarrow> b_size b = int (length s) \<and> holds (b_buf b) (b_data b) s \<and>
               int (length (b_buf b)) = b_total b \<and> b_total b < 2 ^ 31"

definition b_contents :: "'a buffer_scheme \<Rightarrow> string" where
  "b_contents b = map the (take (nat (b_size b)) (drop (nat (b_data b)) (b_buf b)))"

definition b_inv :: "'a buffer_scheme \<Rightarrow> bool" where
  "b_inv b \<longleftrightarrow> brep b (b_contents b)"

lemma brep_contents: "brep b s \<Longrightarrow> b_contents b = s"
  by (auto simp: brep_def b_contents_def holds_def comp_def)

lemma brep_inv: "brep b s \<Longrightarrow> b_inv b"
  by (simp add: b_inv_def brep_contents)

lemma brep_bounds:
  "brep b s \<Longrightarrow> 0 \<le> b_data b \<and> b_data b + int (length s) + b_space b = b_total b \<and> 0 \<le> b_space b"
  by (auto simp: brep_def b_space_def holds_def)

lemma brep_new: "n < 2 ^ 31 \<Longrightarrow> brep (Buffer_new n) []"
  by (simp add: brep_def Buffer_new_def)

lemma brep_wrap: "length s < 2 ^ 31 \<Longrightarrow> brep (Buffer_wrap s) s"
  by (simp add: brep_def Buffer_wrap_def holds_def)

lemma brep_decr:
  assumes "brep b s" "0 \<le> n" "n \<le> int (length s)"
  shows "brep (b_decr n b) (drop (nat n) s)"
proof -
  have "holds (b_buf b) (b_data b + int (length (take (nat n) s))) (drop (nat n) s)"
    using assms(1) holds_append [of "b_buf b" "b_data b" "take (nat n) s" "drop (nat n) s"]
    by (simp add: brep_def)
  with assms show ?thesis by (simp add: brep_def b_decr_def)
qed

lemma b_nice_rep:
  assumes "brep b s"
  shows "\<exists>b'. b_nice b = Inr b' \<and> brep b' s \<and> b_data b' \<le> b_data b"
proof (cases "b_data b > b_total b div 2")
  case True
  have bd: "0 \<le> b_data b" "b_data b + int (length s) \<le> int (length (b_buf b))"
    "b_size b = int (length s)" "int (length (b_buf b)) = b_total b"
    using assms brep_bounds [OF assms] by (auto simp: brep_def)
  have r: "mem_read (b_buf b) (b_data b) (b_size b) = Inr s"
    using assms by (simp add: brep_def mem_read_holds)
  obtain m where "mem_write (b_buf b) 0 s = Inr m" "length m = length (b_buf b)" "holds m 0 s"
    using mem_write_holds [of 0 s "b_buf b"] bd by auto
  moreover have "b_size b \<le> b_data b" using True bd by linarith
  ultimately show ?thesis using True r bd assms by (simp add: b_nice_def brep_def)
next
  case False
  with assms show ?thesis by (simp add: b_nice_def)
qed

text \<open>Growing keeps every run of bytes of the block where it is.\<close>

definition grown :: "'a buffer_scheme \<Rightarrow> 'a buffer_scheme \<Rightarrow> bool" where
  "grown b b' \<longleftrightarrow> b_data b' = b_data b \<and> b_size b' = b_size b \<and> b_total b \<le> b_total b' \<and>
     int (length (b_buf b')) = b_total b' \<and> b_total b' < 2 ^ 31 \<and>
     (\<forall>j t. holds (b_buf b) j t \<longrightarrow> holds (b_buf b') j t)"

lemma grown_brep: "grown b b' \<Longrightarrow> brep b s \<Longrightarrow> brep b' s"
  by (simp add: grown_def brep_def)

lemma grown_refl: "brep b s \<Longrightarrow> grown b b"
  by (simp add: grown_def brep_def)

lemma b_grow_grown:
  assumes "brep b s" "b_grow ok b = (r, b')"
  shows "grown b b'"
proof (cases r)
  case True
  with assms(2) have b': "b' = b\<lparr>b_buf := mem_resize (b_buf b) (nat (grow_size (b_total b))),
        b_total := grow_size (b_total b)\<rparr>" "0 \<le> grow_size (b_total b)"
    by (auto simp: b_grow_def Let_def split: if_splits)
  moreover have "b_total b < grow_size (b_total b)"
    using grow_size_cases [of "b_total b"] assms(1) b'(2) by (auto simp: brep_def)
  ultimately show ?thesis
    using assms(1) grow_size_lt [of "b_total b"] by (auto simp: grown_def brep_def intro!: holds_resize)
next
  case False
  with assms have "b' = b" by (auto simp: b_grow_def Let_def split: if_splits)
  with assms show ?thesis by (simp add: grown_refl)
qed

lemma b_reserve_grown:
  assumes "brep b s" "b_reserve ok need b = (r, b')"
  shows "grown b b' \<and> (r \<longrightarrow> need \<le> b_space b')"
  using assms
proof (induction ok need b arbitrary: r b' rule: b_reserve.induct)
  case (1 ok need b)
  show ?case
  proof (cases "need > b_space b")
    case True
    obtain q c where g: "b_grow ok b = (q, c)" by fastforce
    have c: "grown b c" "brep c s" using b_grow_grown [OF "1.prems"(1) g] "1.prems"(1) by (auto intro: grown_brep)
    show ?thesis
    proof (cases q)
      case True
      with "1.prems" \<open>need > _\<close> g have "b_reserve ok need c = (r, b')" by (simp add: b_reserve.simps [of ok need b])
      from "1.IH" [OF \<open>need > _\<close> g [symmetric]] True c this have "grown c b' \<and> (r \<longrightarrow> need \<le> b_space b')" by auto
      with c show ?thesis by (auto simp: grown_def)
    next
      case False
      with "1.prems" \<open>need > _\<close> g c show ?thesis by (simp add: b_reserve.simps [of ok need b])
    qed
  next
    case False
    with "1.prems" show ?thesis by (auto simp: b_reserve.simps [of ok need b] grown_refl)
  qed
qed

lemma b_write_at:
  assumes "brep b s" "b_data b + b_size b + int (length x) \<le> b_total b"
  shows "\<exists>m. mem_write (b_buf b) (b_slot b) x = Inr m \<and>
             brep (b\<lparr>b_buf := m, b_size := b_size b + int (length x)\<rparr>) (s @ x)"
proof -
  have b: "0 \<le> b_data b" "b_size b = int (length s)" "holds (b_buf b) (b_data b) s"
    "int (length (b_buf b)) = b_total b" "b_total b < 2 ^ 31"
    using assms(1) brep_bounds [OF assms(1)] by (auto simp: brep_def)
  then have "0 \<le> b_slot b" "b_slot b + int (length x) \<le> int (length (b_buf b))"
    using assms(2) by (auto simp: b_slot_def)
  then obtain m where m: "mem_write (b_buf b) (b_slot b) x = Inr m" "length m = length (b_buf b)"
    "holds m (b_slot b) x" "\<forall>j t. j + int (length t) \<le> b_slot b \<longrightarrow> holds (b_buf b) j t \<longrightarrow> holds m j t"
    using mem_write_holds by blast
  have "holds m (b_data b) s" using m(4) b by (simp add: b_slot_def)
  then have "holds m (b_data b) (s @ x)" using m(3) b by (simp add: holds_append b_slot_def)
  with m b show ?thesis by (simp add: brep_def)
qed

lemma b_append_rep:
  assumes "brep b s"
  shows "\<exists>r b'. b_append ok x b = Inr (r, b') \<and>
     ((r = int (length x) \<and> brep b' (s @ x)) \<or> (r = -1 \<and> brep b' s))"
proof -
  obtain q c where q: "b_reserve ok (int (length x)) b = (q, c)" by fastforce
  have c: "brep c s" "q \<longrightarrow> int (length x) \<le> b_space c"
    using b_reserve_grown [OF assms q] assms by (auto intro: grown_brep)
  show ?thesis
  proof (cases q)
    case True
    then have "b_data c + b_size c + int (length x) \<le> b_total c" using c(2) by (simp add: b_space_def)
    from b_write_at [OF c(1) this] show ?thesis using True q by (auto simp: b_append_def)
  next
    case False
    with c q show ?thesis by (auto simp: b_append_def)
  qed
qed

lemma b_append_char_eq: "b_append_char ok c b = b_append ok [c] b"
  by (simp add: b_append_char_def b_append_def split: prod.split bool.split)

definition record_bytes :: "string \<Rightarrow> string" where
  "record_bytes s = dec_int (int (length s)) @ LF # s @ [LF]"

lemma length_dec_int_size: "n < 2 ^ 31 \<Longrightarrow> length (dec_int (int n)) \<le> 10"
  using length_dec_nat [of n 10] by (simp add: dec_int_def)

lemma b_append_record_rep:
  assumes "brep b s" "length x < 2 ^ 31 - 17"
  shows "\<exists>r b'. b_append_record ok (Bytes x) b = Inr (r, b') \<and>
     ((r = int (length (record_bytes x)) \<and> brep b' (s @ record_bytes x)) \<or> (r = -1 \<and> brep b' s))"
proof -
  let ?len = "dec_int (int (length x)) @ [LF]"
  have need: "to_int32 (16 + int (length x) + 1) = int (length x) + 17"
    using assms(2) by (subst to_int32_id) simp_all
  obtain q c where q: "b_reserve ok (int (length x) + 17) b = (q, c)" by fastforce
  have c: "brep c s" "q \<longrightarrow> int (length x) + 17 \<le> b_space c"
    using b_reserve_grown [OF assms(1) q] assms(1) by (auto intro: grown_brep)
  show ?thesis
  proof (cases q)
    case True
    have l: "length ?len \<le> 11" using length_dec_int_size [of "length x"] assms(2) by simp
    have sp: "b_data c + b_size c + int (length x) + 17 \<le> b_total c"
      using c(2) True by (simp add: b_space_def)
    obtain m1 where m1: "mem_write (b_buf c) (b_slot c) ?len = Inr m1"
      "brep (c\<lparr>b_buf := m1, b_size := b_size c + int (length ?len)\<rparr>) (s @ ?len)"
      using b_write_at [OF c(1), of ?len] sp l by auto
    obtain m2 where m2: "mem_write m1 (b_slot c + int (length ?len)) x = Inr m2"
      "brep (c\<lparr>b_buf := m2, b_size := b_size c + int (length ?len) + int (length x)\<rparr>) (s @ ?len @ x)"
      using b_write_at [OF m1(2), of x] sp l by (auto simp: b_slot_def add.assoc)
    obtain m3 where m3: "mem_write m2 (b_slot c + int (length ?len) + int (length x)) [LF] = Inr m3"
      "brep (c\<lparr>b_buf := m3, b_size := b_size c + (int (length ?len) + int (length x) + 1)\<rparr>) (s @ record_bytes x)"
      using b_write_at [OF m2(2), of "[LF]"] sp l by (auto simp: b_slot_def add.assoc record_bytes_def)
    show ?thesis
      using q True m1(1) m2(1) m3 need
      by (auto simp: b_append_record_def bytes_size_def Let_def record_bytes_def)
  next
    case False
    with q c need show ?thesis by (auto simp: b_append_record_def bytes_size_def add.commute)
  qed
qed

text \<open>With an allocator that never refuses, nothing below 2^30 bytes is refused.\<close>

lemma b_reserve_ok:
  assumes "brep b s" "\<forall>n. ok n" "b_data b + b_size b + need \<le> 2 ^ 30"
  shows "fst (b_reserve ok need b)"
  using assms
proof (induction ok need b rule: b_reserve.induct)
  case (1 ok need b)
  obtain q c where g: "b_grow ok b = (q, c)" by fastforce
  have c: "grown b c" "brep c s" using b_grow_grown [OF "1.prems"(1) g] "1.prems"(1) by (auto intro: grown_brep)
  show ?case
  proof (cases "need > b_space b")
    case True
    then have "b_total b < 2 ^ 30" using "1.prems"(3) by (simp add: b_space_def)
    moreover have "0 \<le> b_total b" using brep_bounds [OF "1.prems"(1)] by linarith
    ultimately have "0 \<le> grow_size (b_total b)" by (auto simp: grow_size_def to_int32_id)
    then have q using g "1.prems"(2) by (auto simp: b_grow_def Let_def split: if_splits)
    moreover have "b_data c + b_size c + need \<le> 2 ^ 30" using c(1) "1.prems"(3) by (simp add: grown_def)
    moreover have "b_reserve ok need b = b_reserve ok need c"
      using True g \<open>q\<close> by (simp add: b_reserve.simps [of ok need b])
    ultimately show ?thesis
      using "1.IH" [OF True g [symmetric] _ c(2) "1.prems"(2)] by (simp only: simp_thms)
  qed (simp add: b_reserve.simps [of ok need b])
qed

lemma b_append_ok:
  assumes "brep b s" "\<forall>n. ok n" "b_data b + b_size b + int (length x) \<le> 2 ^ 30"
  shows "\<exists>b'. b_append ok x b = Inr (int (length x), b') \<and> brep b' (s @ x) \<and> b_data b' = b_data b"
proof -
  obtain q c where c: "b_reserve ok (int (length x)) b = (q, c)" by fastforce
  with b_reserve_ok [OF assms] have q by simp
  with c have g: "grown b c" "int (length x) \<le> b_space c"
    using b_reserve_grown [OF assms(1)] by auto
  have d: "b_data c = b_data b" using g(1) by (simp add: grown_def)
  have "b_data c + b_size c + int (length x) \<le> b_total c" using g(2) by (simp add: b_space_def)
  from b_write_at [OF grown_brep [OF g(1) assms(1)] this] obtain m where
    "mem_write (b_buf c) (b_slot c) x = Inr m"
    "brep (c\<lparr>b_buf := m, b_size := b_size c + int (length x)\<rparr>) (s @ x)" by blast
  then show ?thesis using \<open>q\<close> by (simp add: b_append_def c d)
qed

section \<open>The interface of a byte buffer\<close>

text \<open>
  What the readers and writers of a connection rely on: appending extends the contents or changes
  nothing, discarding drops from the front, and nice only moves the contents.
\<close>

locale byte_buffer =
  fixes inv :: "'b \<Rightarrow> bool"
    and contents :: "'b \<Rightarrow> string"
    and append :: "(nat \<Rightarrow> bool) \<Rightarrow> string \<Rightarrow> 'b \<Rightarrow> (int \<times> 'b) res"
    and discard :: "int \<Rightarrow> 'b \<Rightarrow> 'b"
    and nice :: "'b \<Rightarrow> 'b res"
  assumes append_law: "inv b \<Longrightarrow> \<exists>r b'. append ok x b = Inr (r, b') \<and> inv b' \<and>
      ((r = int (length x) \<and> contents b' = contents b @ x) \<or> (r = -1 \<and> contents b' = contents b))"
    and discard_law: "inv b \<Longrightarrow> 0 \<le> n \<Longrightarrow> n \<le> int (length (contents b)) \<Longrightarrow>
      inv (discard n b) \<and> contents (discard n b) = drop (nat n) (contents b)"
    and nice_law: "inv b \<Longrightarrow> \<exists>b'. nice b = Inr b' \<and> inv b' \<and> contents b' = contents b"
begin

lemma append_then_discard:
  assumes "inv b" "append ok x b = Inr (int (length x), b')" "x \<noteq> []"
  shows "contents (discard (int (length (contents b))) b') = x"
proof -
  have "inv b' \<and> contents b' = contents b @ x"
    using append_law [OF assms(1), of ok x] assms(2,3) by auto
  then show ?thesis using discard_law [of b' "int (length (contents b))"] by simp
qed

lemma stream_law:
  assumes "inv b" "0 \<le> n" "n \<le> int (length (contents b))"
  shows "take (nat n) (contents b) @ contents (discard n b) = contents b"
  using discard_law [OF assms] by simp

lemma append_nice:
  assumes "inv b"
  shows "\<exists>c r b'. nice b = Inr c \<and> append ok x c = Inr (r, b') \<and> inv b' \<and>
      (contents b' = contents b @ x \<or> contents b' = contents b)"
proof -
  obtain c where c: "nice b = Inr c" "inv c" "contents c = contents b"
    using nice_law [OF assms] by auto
  then show ?thesis using append_law [of c ok x] by auto
qed

end

interpretation bb: byte_buffer b_inv b_contents b_append b_decr b_nice
proof
  fix b :: "'a buffer_scheme" and ok x
  assume "b_inv b"
  then show "\<exists>r b'. b_append ok x b = Inr (r, b') \<and> b_inv b' \<and>
      ((r = int (length x) \<and> b_contents b' = b_contents b @ x) \<or> (r = -1 \<and> b_contents b' = b_contents b))"
    using b_append_rep [of b "b_contents b" ok x] brep_inv brep_contents unfolding b_inv_def [of b] by blast
next
  fix b :: "'a buffer_scheme" and n
  assume "b_inv b" "0 \<le> n" "n \<le> int (length (b_contents b))"
  then show "b_inv (b_decr n b) \<and> b_contents (b_decr n b) = drop (nat n) (b_contents b)"
    using brep_decr [of b "b_contents b" n] brep_inv brep_contents unfolding b_inv_def [of b] by blast
next
  fix b :: "'a buffer_scheme"
  assume "b_inv b"
  then show "\<exists>b'. b_nice b = Inr b' \<and> b_inv b' \<and> b_contents b' = b_contents b"
    using b_nice_rep [of b "b_contents b"] brep_inv brep_contents unfolding b_inv_def [of b] by blast
qed

section \<open>Reading records\<close>

lemma dec_int_nat_digits: "\<forall>c\<in>set (dec_int (int n)). isdigit c"
  using dec_nat_digits [of n] by (simp add: dec_int_def)

lemma hd_dec_int_nat: "\<exists>c cs. dec_int (int n) = c # cs \<and> isdigit c"
  using dec_int_nat_digits [of n] dec_nat_not_Nil [of n]
  by (cases "dec_int (int n)") (auto simp: dec_int_def)

lemma schar_digit: "isdigit c \<Longrightarrow> 48 \<le> schar c \<and> schar c \<le> 57"
  by (simp add: isdigit_def schar_def)

lemma LF_not_in_dec_int: "LF \<notin> set (dec_int (int n))"
  using dec_int_nat_digits [of n] by (auto simp: isdigit_def LF_def)

text \<open>
  A complete record at the front is found and its body returned. The window then loses the length
  of the record at its end: the data pointer does not move.
\<close>

lemma b_read_record_rep:
  assumes "brep b (record_bytes x @ rest)" "length x < 2 ^ 31 - 32"
  shows "\<exists>off b'. b_read_record b = Inr (1, Some (off, int (length x)), b') \<and>
     mem_read (b_buf b') off (int (length x)) = Inr x \<and>
     brep b' (take (length rest) (record_bytes x @ rest))"
proof -
  let ?d = "dec_int (int (length x))" and ?m = "b_buf b" and ?p = "b_data b"
  let ?body = "?p + int (length ?d) + 1"
  have len: "length ?d \<le> 10" using length_dec_int_size assms(2) by simp
  have "holds ?m ?p ((?d @ [LF]) @ x @ [LF] @ rest)"
    using assms(1) by (simp add: brep_def record_bytes_def)
  then have m: "holds ?m ?p (?d @ [LF])" "holds ?m ?body x" "holds ?m (?body + int (length x)) [LF]"
    using holds_append [of ?m ?p "?d @ [LF]" "x @ [LF] @ rest"] holds_append [of ?m ?body x "[LF] @ rest"]
      holds_append [of ?m "?body + int (length x)" "[LF]" rest] by (simp_all add: ac_simps)
  have sz: "b_size b = int (length ?d) + int (length x) + 2 + int (length rest)"
    and tot: "int (length ?m) = b_total b" "b_total b < 2 ^ 31"
    using assms(1) by (auto simp: brep_def record_bytes_def)
  obtain c cs where c: "?d = c # cs" "isdigit c" using hd_dec_int_nat by blast
  have "holds ?m ?p (c # cs @ [LF])" using m(1) c(1) by simp
  then have g0: "mem_get ?m ?p = Inr c" using holds_ConsD mem_get_holds by blast
  have chr: "mem_chr ?m ?p (nat (b_size b)) LF = Inr (Some (?p + int (length ?d)))"
    using mem_chr_holds [OF m(1) LF_not_in_dec_int] sz by simp
  have rd: "mem_read ?m ?p (int (length ?d)) = Inr ?d"
    using m(1) by (intro mem_read_holds) (simp add: holds_append)
  have at: "atoi ?d = int (length x)" using atoi_dec_int [of "int (length x)" "[]"] assms(2) by simp
  have lt: "to_int32 (int (length ?d) + 1 + int (length x) + 1) = int (length ?d) + int (length x) + 2"
    using len assms(2) by (subst to_int32_id) auto
  let ?b' = "b\<lparr>b_size := b_size b - (int (length ?d) + 1 + int (length x) + 1)\<rparr>"
  have "b_read_record b = Inr (1, Some (?body, int (length x)), ?b')"
    using sz chr g0 schar_digit [OF c(2)] len rd at lt mem_get_holds [OF m(3)]
    by (simp add: b_read_record_def Let_def algebra_simps)
  moreover have "mem_read (b_buf ?b') ?body (int (length x)) = Inr x"
    using mem_read_holds [OF m(2)] by simp
  moreover have "brep ?b' (take (length rest) (record_bytes x @ rest))"
  proof -
    have "holds ?m ?p (take (length rest) (record_bytes x @ rest) @ drop (length rest) (record_bytes x @ rest))"
      using assms(1) by (simp only: brep_def append_take_drop_id)
    then have "holds ?m ?p (take (length rest) (record_bytes x @ rest))"
      by (simp only: holds_append)
    then show ?thesis using sz tot by (simp add: brep_def)
  qed
  ultimately show ?thesis by blast
qed

section \<open>Properties\<close>

text \<open>C22: On a buffer whose window holds initialised bytes, Buffer::append always returns normally (it never
  writes outside the block and its grow loop ends): either it reports the number of bytes and the
  contents are extended by exactly these bytes, or the allocator refused, it reports -1 and the
  contents are unchanged. The buffer stays well formed in both cases.\<close>

theorem buffer_append_refines:
  assumes "b_inv b"
  shows "\<exists>r b'. b_append ok x b = Inr (r, b') \<and> b_inv b' \<and>
      ((r = int (length x) \<and> b_contents b' = b_contents b @ x) \<or>
       (r = -1 \<and> b_contents b' = b_contents b))"
  using assms by (rule bb.append_law)

theorem buffer_append_refines_witness:
  "\<exists>r b'. b_append (\<lambda>n. n < 100000) ''hello'' (Buffer_new 2) = Inr (r, b') \<and> b_inv b' \<and>
      ((r = int (length ''hello'') \<and> b_contents b' = b_contents (Buffer_new 2) @ ''hello'') \<or>
       (r = -1 \<and> b_contents b' = b_contents (Buffer_new 2)))"
  by (rule buffer_append_refines) (simp add: brep_inv [OF brep_new])

text \<open>When realloc never fails, every append that stays below 2^30 bytes in the block succeeds and
  extends the contents.\<close>

theorem buffer_append_succeeds:
  assumes "b_inv b" "b_data b + b_size b + int (length x) \<le> 2 ^ 30"
  shows "\<exists>b'. b_append (\<lambda>_. True) x b = Inr (int (length x), b') \<and> b_contents b' = b_contents b @ x"
  using b_append_ok [of b "b_contents b" "\<lambda>_. True" x] assms brep_contents
  unfolding b_inv_def by blast

theorem buffer_append_succeeds_witness:
  "\<exists>b'. b_append (\<lambda>_. True) ''hello'' (Buffer_new 2) = Inr (int (length ''hello''), b') \<and>
      b_contents b' = b_contents (Buffer_new 2) @ ''hello''"
  by (rule buffer_append_succeeds) (simp_all add: brep_inv [OF brep_new], simp add: Buffer_new_def)

text \<open>Buffer::nice never copies between overlapping ranges: on a well-formed buffer it returns
  normally, keeps the contents, and leaves the window in the first half of the block or at its
  start.\<close>

theorem buffer_nice_safe:
  assumes "b_inv b"
  shows "\<exists>b'. b_nice b = Inr b' \<and> b_inv b' \<and> b_contents b' = b_contents b \<and> b_data b' \<le> b_total b div 2"
proof -
  obtain b' where b': "b_nice b = Inr b'" "b_inv b'" "b_contents b' = b_contents b"
    using bb.nice_law [OF assms] by blast
  have "0 \<le> b_total b" using assms by (auto simp: b_inv_def brep_def)
  then have "b_data b' \<le> b_total b div 2"
    using b'(1) by (auto simp: b_nice_def rbind_eq_Inr split: if_splits)
  with b' show ?thesis by blast
qed

theorem buffer_nice_safe_witness:
  "\<exists>b'. b_nice (b_decr 3 (Buffer_wrap ''abcd'')) = Inr b' \<and> b_inv b' \<and>
      b_contents b' = b_contents (b_decr 3 (Buffer_wrap ''abcd'')) \<and>
      b_data b' \<le> b_total (b_decr 3 (Buffer_wrap ''abcd'')) div 2"
  by (rule buffer_nice_safe, rule brep_inv, rule brep_decr, rule brep_wrap) simp_all

text \<open>Buffer::append_record and Buffer::read_record fit together on a buffer that was empty: the record
  is appended, read back with its body, and the buffer is empty again.\<close>

theorem record_roundtrip:
  assumes "b_inv b" "b_contents b = []" "length x < 2 ^ 31 - 32"
    "b_append_record ok (Bytes x) b = Inr (r, b1)" "r \<noteq> -1"
  shows "\<exists>off b2. b_read_record b1 = Inr (1, Some (off, int (length x)), b2) \<and>
      mem_read (b_buf b2) off (int (length x)) = Inr x \<and> b_inv b2 \<and> b_contents b2 = []"
proof -
  have "brep b []" using assms(1,2) by (simp add: b_inv_def)
  then have "brep b1 (record_bytes x @ [])"
    using b_append_record_rep [of b "[]" x ok] assms(3-5) by auto
  from b_read_record_rep [OF this assms(3)] show ?thesis
    by (auto dest: brep_contents intro: brep_inv)
qed

theorem record_roundtrip_witness:
  "\<exists>r b1 off b2. b_append_record (\<lambda>_. True) (Bytes ''ab'') (Buffer_new 32) = Inr (r, b1) \<and>
      b_read_record b1 = Inr (1, Some (off, int (length ''ab'')), b2) \<and>
      mem_read (b_buf b2) off (int (length ''ab'')) = Inr ''ab'' \<and> b_inv b2 \<and> b_contents b2 = []"
proof -
  have "b_inv (Buffer_new 32)" "b_contents (Buffer_new 32) = []"
    using brep_new [of 32] by (auto dest: brep_contents intro: brep_inv)
  moreover obtain r b1 where b1: "b_append_record (\<lambda>_. True) (Bytes ''ab'') (Buffer_new 32) = Inr (r, b1)" "r \<noteq> -1"
    by (simp add: b_append_record_def bytes_size_def Let_def b_reserve.simps b_space_def Buffer_new_def b_slot_def
        mem_write_def blit_def dec_int_def dec_nat.simps to_int32_id)
  ultimately show ?thesis
    using record_roundtrip [of "Buffer_new 32" "''ab''" "\<lambda>_. True" r b1] by auto
qed

text \<open>Buffer::read_record does not move the data pointer: after it has returned a record in front of
  further data, the window starts with the same record again and its last bytes are gone.\<close>

theorem read_record_keeps_front:
  assumes "b_inv b" "b_contents b = record_bytes x @ rest" "length x < 2 ^ 31 - 32"
  shows "\<exists>off b'. b_read_record b = Inr (1, Some (off, int (length x)), b') \<and>
      b_data b' = b_data b \<and> b_contents b' = take (length rest) (record_bytes x @ rest)"
proof -
  obtain off b' where b': "b_read_record b = Inr (1, Some (off, int (length x)), b')"
    "brep b' (take (length rest) (record_bytes x @ rest))"
    using b_read_record_rep [of b x rest] assms by (auto simp: b_inv_def)
  moreover have "b_data b' = b_data b"
    using b'(1) by (auto simp: b_read_record_def Let_def rbind_eq_Inr split: if_splits option.splits)
  ultimately show ?thesis by (auto dest: brep_contents)
qed

theorem read_record_keeps_front_witness:
  "\<exists>off b'. b_read_record (Buffer_wrap (record_bytes ''a'' @ record_bytes ''b'')) = Inr (1, Some (off, int (length ''a'')), b') \<and>
      b_data b' = b_data (Buffer_wrap (record_bytes ''a'' @ record_bytes ''b'')) \<and>
      b_contents b' = take (length (record_bytes ''b'')) (record_bytes ''a'' @ record_bytes ''b'')"
proof (rule read_record_keeps_front)
  have "brep (Buffer_wrap (record_bytes ''a'' @ record_bytes ''b'')) (record_bytes ''a'' @ record_bytes ''b'')"
    by (rule brep_wrap) (simp add: record_bytes_def dec_int_def dec_nat.simps)
  then show "b_inv (Buffer_wrap (record_bytes ''a'' @ record_bytes ''b''))"
    "b_contents (Buffer_wrap (record_bytes ''a'' @ record_bytes ''b'')) = record_bytes ''a'' @ record_bytes ''b''"
    by (auto dest: brep_contents intro: brep_inv)
qed simp

text \<open>Bytes::compare is the lexicographic order on unsigned bytes: negative, zero or positive exactly as
  the first string is below, equal to or above the second; operator== decides equality.\<close>

theorem bytes_compare_is_lexicographic:
  "bytes_compare (Bytes x) (Bytes y) = (if x < y then -1 else if x = y then 0 else 1)
   \<and> bytes_eq (Bytes x) (Bytes y) = (x = y)"
  by (simp add: bytes_compare_lexorder bytes_eq_iff)

end
