(* ===== verification/Link_IO.thy ===== *)
theory Link_IO
  imports Buffers "HOL-Library.Sublist"
begin

text \<open>
  The transfer loops of src/src/link.cpp between a socket and a Buffer: read, msg_read, write,
  msg_write, msg_send, kafka_msg_send and flush. What the kernel answers to the successive read and
  write calls is an explicit list. The lemmas show that reading loses and invents no byte, that
  writing sends a prefix of the contents and keeps the rest, and what msg_send does on a partial
  write.
\<close>

section \<open>Sockets\<close>

text \<open>
  The answers to successive read calls on a socket. A chunk that is longer than the space offered
  is delivered in part and its rest stays for the next call, as on a stream socket. An exhausted
  list stands for EWOULDBLOCK.
\<close>

datatype rd = Rd_data string | Rd_eof | Rd_EINTR | Rd_EWOULDBLOCK | Rd_err

fun rd_bytes :: "rd list \<Rightarrow> string" where
  "rd_bytes [] = []"
| "rd_bytes (Rd_data s # rs) = s @ rd_bytes rs"
| "rd_bytes (_ # rs) = rd_bytes rs"

text \<open>The answers to successive write calls: how many bytes the kernel takes at most.\<close>

datatype wr = Wr_take nat | Wr_EINTR | Wr_EWOULDBLOCK | Wr_err

definition INIT_BUFFER_SIZE :: int where "INIT_BUFFER_SIZE = 8"

section \<open>Reading\<close>

text \<open>How the loop of read and msg_read ends.\<close>

datatype rd_end = Rd_done int | Rd_closed | Rd_failed

text \<open>
  The loop while((want = space()) > 0): the number of bytes so far is ret. Reading a chunk of
  length 0 is the end of the stream.
\<close>

fun read_loop :: "bool \<Rightarrow> rd list \<Rightarrow> int \<Rightarrow> 'a buffer_scheme \<Rightarrow> (rd_end \<times> 'a buffer_scheme \<times> rd list) res" where
  "read_loop noblock [] ret b = Inr (Rd_done ret, b, [])"
| "read_loop noblock (r # rs) ret b =
     (let want = b_space b in
      if want \<le> 0 then Inr (Rd_done ret, b, r # rs)
      else case r of
        Rd_EINTR \<Rightarrow> read_loop noblock rs ret b
      | Rd_EWOULDBLOCK \<Rightarrow> Inr (Rd_done ret, b, rs)
      | Rd_err \<Rightarrow> Inr (Rd_failed, b, rs)
      | Rd_eof \<Rightarrow> Inr (Rd_closed, b, rs)
      | Rd_data s \<Rightarrow>
          if s = [] then Inr (Rd_closed, b, rs)
          else if int (length s) \<le> want then
            rbind (mem_write (b_buf b) (b_slot b) s) (\<lambda>m.
              let b' = b_incr (int (length s)) (b\<lparr>b_buf := m\<rparr>); ret' = ret + int (length s)
              in if noblock then read_loop noblock rs ret' b' else Inr (Rd_done ret', b', rs))
          else
            rbind (mem_write (b_buf b) (b_slot b) (take (nat want) s)) (\<lambda>m.
              Inr (Rd_done (ret + want), b_incr want (b\<lparr>b_buf := m\<rparr>), Rd_data (drop (nat want) s) # rs)))"

definition grow_if_init :: "(nat \<Rightarrow> bool) \<Rightarrow> 'a buffer_scheme \<Rightarrow> 'a buffer_scheme" where
  "grow_if_init ok b = (if b_total b = INIT_BUFFER_SIZE then snd (b_grow ok b) else b)"

text \<open>Link::read into the input buffer; the return value, the buffer and the unread answers.\<close>

definition link_read :: "(nat \<Rightarrow> bool) \<Rightarrow> bool \<Rightarrow> rd list \<Rightarrow> 'a buffer_scheme \<Rightarrow> (int \<times> 'a buffer_scheme \<times> rd list) res" where
  "link_read ok noblock rs input =
     rbind (b_nice (grow_if_init ok input)) (\<lambda>b.
     rbind (read_loop noblock rs 0 b) (\<lambda>(e, b', rs').
       Inr (case e of Rd_done n \<Rightarrow> n | Rd_closed \<Rightarrow> 0 | Rd_failed \<Rightarrow> -1, b', rs')))"

text \<open>Link::msg_read: None is the null pointer.\<close>

definition msg_read :: "(nat \<Rightarrow> bool) \<Rightarrow> bool \<Rightarrow> rd list \<Rightarrow> (buffer option \<times> rd list) res" where
  "msg_read ok noblock rs =
     rbind (b_nice (grow_if_init ok (Buffer_new (nat INIT_BUFFER_SIZE)))) (\<lambda>b.
     rbind (read_loop noblock rs 0 b) (\<lambda>(e, b', rs').
       Inr (case e of Rd_done n \<Rightarrow> Some b' | Rd_closed \<Rightarrow> None | Rd_failed \<Rightarrow> None, rs')))"

section \<open>Writing\<close>

datatype wr_end = Wr_done int | Wr_failed

text \<open>
  The loop while((want = size()) > 0) of write, msg_write and msg_send; wire collects the bytes the
  kernel took.
\<close>

fun write_loop :: "bool \<Rightarrow> wr list \<Rightarrow> int \<Rightarrow> string \<Rightarrow> 'a buffer_scheme \<Rightarrow> (wr_end \<times> 'a buffer_scheme \<times> string \<times> wr list) res" where
  "write_loop noblock [] ret wire b = Inr (Wr_done ret, b, wire, [])"
| "write_loop noblock (w # ws) ret wire b =
     (let want = b_size b in
      if want \<le> 0 then Inr (Wr_done ret, b, wire, w # ws)
      else case w of
        Wr_EINTR \<Rightarrow> write_loop noblock ws ret wire b
      | Wr_EWOULDBLOCK \<Rightarrow> Inr (Wr_done ret, b, wire, ws)
      | Wr_err \<Rightarrow> Inr (Wr_failed, b, wire, ws)
      | Wr_take n \<Rightarrow>
          if n = 0 then Inr (Wr_done ret, b, wire, ws)
          else let len = min (int n) want in
            rbind (mem_read (b_buf b) (b_data b) len) (\<lambda>xs.
              let b' = b_decr len b
              in if noblock then write_loop noblock ws (ret + len) (wire @ xs) b'
                 else Inr (Wr_done (ret + len), b', wire @ xs, ws)))"

text \<open>Link::write and Link::msg_write have the same body, on the output buffer and on a message.\<close>

definition link_write :: "(nat \<Rightarrow> bool) \<Rightarrow> bool \<Rightarrow> wr list \<Rightarrow> 'a buffer_scheme \<Rightarrow> (int \<times> 'a buffer_scheme \<times> string \<times> wr list) res" where
  "link_write ok noblock ws output =
     rbind (write_loop noblock ws 0 [] (grow_if_init ok output)) (\<lambda>(e, b, wire, ws').
       case e of
         Wr_failed \<Rightarrow> Inr (-1, b, wire, ws')
       | Wr_done ret \<Rightarrow> rbind (b_nice b) (\<lambda>b'. Inr (ret, b', wire, ws')))"

definition msg_write :: "(nat \<Rightarrow> bool) \<Rightarrow> bool \<Rightarrow> wr list \<Rightarrow> 'a buffer_scheme \<Rightarrow> (int \<times> 'a buffer_scheme \<times> string \<times> wr list) res" where
  "msg_write ok noblock ws smsg =
     rbind (write_loop noblock ws 0 [] (grow_if_init ok smsg)) (\<lambda>(e, b, wire, ws').
       case e of
         Wr_failed \<Rightarrow> Inr (-1, b, wire, ws')
       | Wr_done ret \<Rightarrow> rbind (b_nice b) (\<lambda>b'. Inr (ret, b', wire, ws')))"

text \<open>Link::msg_send: after the loop the message is rewound to its old size.\<close>

definition msg_send :: "bool \<Rightarrow> wr list \<Rightarrow> 'a buffer_scheme \<Rightarrow> (int \<times> 'a buffer_scheme \<times> string \<times> wr list) res" where
  "msg_send noblock ws smsg =
     (let msg_sz = b_size smsg in
      rbind (write_loop noblock ws 0 [] smsg) (\<lambda>(e, b, wire, ws').
        case e of
          Wr_failed \<Rightarrow> Inr (-1, b, wire, ws')
        | Wr_done ret \<Rightarrow>
            let b' = b_rewind_sz msg_sz b
            in CHECK (b_size b' > 0) (Inr (ret, b', wire, ws'))))"

text \<open>Link::kafka_msg_send: every call of write starts at msg again, only the count goes down.\<close>

fun kafka_msg_send :: "bool \<Rightarrow> wr list \<Rightarrow> string \<Rightarrow> int \<Rightarrow> int \<Rightarrow> string \<Rightarrow> int \<times> string \<times> wr list" where
  "kafka_msg_send noblock [] msg want ret wire = (ret, wire, [])"
| "kafka_msg_send noblock (w # ws) msg want ret wire =
     (if want \<le> 0 then (ret, wire, w # ws)
      else case w of
        Wr_EINTR \<Rightarrow> kafka_msg_send noblock ws msg want ret wire
      | Wr_EWOULDBLOCK \<Rightarrow> (ret, wire, ws)
      | Wr_err \<Rightarrow> (-1, wire, ws)
      | Wr_take n \<Rightarrow>
          if n = 0 then (ret, wire, ws)
          else let len = min (int n) want; wire' = wire @ take (nat len) msg
               in if noblock then kafka_msg_send noblock ws msg (want - len) (ret + len) wire'
                  else (ret + len, wire', ws))"

lemma write_loop_le:
  "write_loop noblock ws ret wire b = Inr (e, b', wire', ws') \<Longrightarrow> length ws' \<le> length ws"
proof (induction ws arbitrary: noblock ret wire b)
  case (Cons w ws)
  show ?case using Cons.prems
    by (cases w) (auto simp: Let_def rbind_eq_Inr split: if_splits dest!: Cons.IH)
qed simp

lemma write_loop_rest:
  assumes "write_loop noblock ws ret wire b = Inr (e, b', wire', ws')" "ws \<noteq> []" "b_size b > 0"
  shows "length ws' < length ws"
proof (cases ws)
  case (Cons w vs)
  show ?thesis using assms unfolding Cons
    by (cases w) (auto simp: Let_def rbind_eq_Inr less_Suc_eq_le split: if_splits dest!: write_loop_le)
qed (use assms in simp)

lemma link_write_rest:
  assumes "link_write ok noblock ws b = Inr (r, b', wire, ws')" "ws \<noteq> []" "b_size b > 0"
  shows "length ws' < length ws"
proof -
  have "b_size (grow_if_init ok b) = b_size b"
    by (auto simp: grow_if_init_def b_grow_def Let_def)
  moreover obtain e c where "write_loop noblock ws 0 [] (grow_if_init ok b) = Inr (e, c, wire, ws')"
    using assms(1) by (auto simp: link_write_def rbind_eq_Inr split: wr_end.splits) (metis wr_end.exhaust)
  ultimately show ?thesis using assms(2,3) write_loop_rest by metis
qed

text \<open>
  Link::flush writes until the output is empty. None: it still spins when the answers are used up.
  The sum of the lengths and the bytes on the wire are collected.
\<close>

function link_flush :: "(nat \<Rightarrow> bool) \<Rightarrow> bool \<Rightarrow> wr list \<Rightarrow> int \<Rightarrow> string \<Rightarrow> 'a buffer_scheme \<Rightarrow> (int \<times> 'a buffer_scheme \<times> string \<times> wr list) option res" where
  "link_flush ok noblock ws len wire b =
     (if b_size b = 0 then Inr (Some (len, b, wire, ws))
      else if ws = [] \<or> b_size b < 0 then Inr None
      else case link_write ok noblock ws b of
        Inl e \<Rightarrow> Inl e
      | Inr (r, b', w, ws') \<Rightarrow>
          if r = -1 then Inr (Some (-1, b', wire @ w, ws'))
          else link_flush ok noblock ws' (len + r) (wire @ w) b')"
  by pat_completeness auto

termination link_flush
  by (relation "measure (\<lambda>(ok, noblock, ws, len, wire, b). length ws)")
     (auto intro: link_write_rest)

declare link_flush.simps [simp del]

section \<open>Reading keeps the stream\<close>

lemma b_incr_write: "b_incr n (b\<lparr>b_buf := m\<rparr>) = b\<lparr>b_buf := m, b_size := b_size b + n\<rparr>"
  by (simp add: b_incr_def)

lemma read_loop_stream:
  assumes "brep b s"
  shows "\<exists>e b' rs' d. read_loop noblock rs ret b = Inr (e, b', rs') \<and> brep b' (s @ d) \<and>
     rd_bytes rs = d @ rd_bytes rs' \<and> (\<forall>n. e = Rd_done n \<longrightarrow> n = ret + int (length d)) \<and>
     b_data b' = b_data b \<and> b_total b' = b_total b"
  using assms
proof (induction rs arbitrary: s ret b)
  case Nil
  then show ?case by (intro exI [of _ "Rd_done ret"] exI [of _ b] exI [of _ "[]"]) simp
next
  case (Cons r rs)
  show ?case
  proof (cases "b_space b \<le> 0")
    case True
    then show ?thesis using Cons.prems
      by (intro exI [of _ "Rd_done ret"] exI [of _ b] exI [of _ "r # rs"] exI [of _ "[]"]) simp
  next
    case sp: False
    show ?thesis
    proof (cases r)
      case (Rd_data x)
      consider "x = []" | "x \<noteq> []" "int (length x) \<le> b_space b" | "b_space b < int (length x)"
        using sp by fastforce
      then show ?thesis
      proof cases
        case 1
        then show ?thesis using sp Rd_data Cons.prems
          by (intro exI [of _ Rd_closed] exI [of _ b] exI [of _ rs] exI [of _ "[]"]) simp
      next
        case 2
        then obtain m where m: "mem_write (b_buf b) (b_slot b) x = Inr m"
          "brep (b\<lparr>b_buf := m, b_size := b_size b + int (length x)\<rparr>) (s @ x)"
          using b_write_at [OF Cons.prems, of x] by (auto simp: b_space_def)
        let ?b = "b\<lparr>b_buf := m, b_size := b_size b + int (length x)\<rparr>"
        show ?thesis
        proof (cases noblock)
          case True
          obtain e b' rs' d where "read_loop noblock rs (ret + int (length x)) ?b = Inr (e, b', rs')"
            "brep b' ((s @ x) @ d)" "rd_bytes rs = d @ rd_bytes rs'"
            "\<forall>n. e = Rd_done n \<longrightarrow> n = ret + int (length x) + int (length d)" "b_data b' = b_data ?b" "b_total b' = b_total ?b"
            using Cons.IH [OF m(2), of "ret + int (length x)"] by blast
          then show ?thesis using 2 sp Rd_data m(1) True
            by (intro exI [of _ e] exI [of _ b'] exI [of _ rs'] exI [of _ "x @ d"])
               (simp add: Let_def b_incr_write add.assoc)
        next
          case False
          then show ?thesis using 2 sp Rd_data m
            by (intro exI [of _ "Rd_done (ret + int (length x))"] exI [of _ ?b] exI [of _ rs] exI [of _ x])
               (simp add: Let_def b_incr_write)
        qed
      next
        case 3
        let ?x = "take (nat (b_space b)) x"
        have len: "int (length ?x) = b_space b" using 3 sp by simp
        obtain m where m: "mem_write (b_buf b) (b_slot b) ?x = Inr m"
          "brep (b\<lparr>b_buf := m, b_size := b_size b + int (length ?x)\<rparr>) (s @ ?x)"
          using b_write_at [OF Cons.prems, of ?x] len by (auto simp: b_space_def)
        have "x \<noteq> []" using 3 sp by auto
        with 3 sp Rd_data m len show ?thesis
          by (intro exI [of _ "Rd_done (ret + b_space b)"] exI [of _ "b\<lparr>b_buf := m, b_size := b_size b + b_space b\<rparr>"]
                exI [of _ "Rd_data (drop (nat (b_space b)) x) # rs"] exI [of _ ?x])
             (simp add: Let_def b_incr_write)
      qed
    next
      case Rd_EINTR
      with Cons.IH [OF Cons.prems, of ret] sp show ?thesis by simp
    next
      case Rd_eof
      then show ?thesis using sp Cons.prems
        by (intro exI [of _ Rd_closed] exI [of _ b] exI [of _ rs] exI [of _ "[]"]) simp
    next
      case Rd_err
      then show ?thesis using sp Cons.prems
        by (intro exI [of _ Rd_failed] exI [of _ b] exI [of _ rs] exI [of _ "[]"]) simp
    next
      case Rd_EWOULDBLOCK
      then show ?thesis using sp Cons.prems
        by (intro exI [of _ "Rd_done ret"] exI [of _ b] exI [of _ rs] exI [of _ "[]"]) simp
    qed
  qed
qed

lemma grow_if_init_rep: "brep b s \<Longrightarrow> brep (grow_if_init ok b) s"
  using b_grow_grown [of b s ok] grown_brep by (cases "b_grow ok b") (auto simp: grow_if_init_def)

lemma b_nice_total: "b_nice b = Inr b' \<Longrightarrow> b_total b' = b_total b"
  by (auto simp: b_nice_def rbind_eq_Inr split: if_splits)

section \<open>Writing sends a prefix\<close>

lemma write_loop_stream:
  assumes "brep b s"
  shows "\<exists>e b' xs ws' t. write_loop noblock ws ret wire b = Inr (e, b', wire @ xs, ws') \<and> brep b' t \<and>
     s = xs @ t \<and> (\<forall>n. e = Wr_done n \<longrightarrow> n = ret + int (length xs)) \<and>
     b_buf b' = b_buf b \<and> b_total b' = b_total b"
  using assms
proof (induction ws arbitrary: s ret wire b)
  case Nil
  then show ?case by (intro exI [of _ "Wr_done ret"] exI [of _ b] exI [of _ "[]"] exI [of _ s]) simp
next
  case (Cons w ws)
  have stop: "\<exists>e' b' xs ws'' t. Inr (e, b, wire, ws') = Inr (e', b', wire @ xs, ws'') \<and> brep b' t \<and>
      s = xs @ t \<and> (\<forall>n. e' = Wr_done n \<longrightarrow> n = ret + int (length xs)) \<and> b_buf b' = b_buf b \<and> b_total b' = b_total b"
    if "\<forall>n. e = Wr_done n \<longrightarrow> n = ret" for e ws'
    using that Cons.prems by (intro exI [of _ e] exI [of _ b] exI [of _ "[]"] exI [of _ ws'] exI [of _ s]) simp
  show ?case
  proof (cases "b_size b \<le> 0")
    case True
    then show ?thesis using stop [of "Wr_done ret"] by simp
  next
    case sz: False
    show ?thesis
    proof (cases w)
      case (Wr_take n)
      show ?thesis
      proof (cases "n = 0")
        case True
        then show ?thesis using stop [of "Wr_done ret"] sz Wr_take by simp
      next
        case n: False
        let ?k = "min (int n) (b_size b)"
        let ?x = "take (nat ?k) s"
        have k: "0 \<le> ?k" "?k \<le> int (length s)" "int (length ?x) = ?k"
          using Cons.prems sz by (auto simp: brep_def)
        have "holds (b_buf b) (b_data b) (?x @ drop (nat ?k) s)" using Cons.prems by (simp only: brep_def append_take_drop_id)
        then have r: "mem_read (b_buf b) (b_data b) ?k = Inr ?x"
          using mem_read_holds [of "b_buf b" "b_data b" ?x] k(3) by (simp only: holds_append)
        note rep = brep_decr [OF Cons.prems k(1,2)]
        have bb: "b_buf (b_decr ?k b) = b_buf b" "b_total (b_decr ?k b) = b_total b" by (simp_all add: b_decr_def)
        show ?thesis
        proof (cases noblock)
          case True
          obtain e b' xs ws' t where i: "write_loop noblock ws (ret + ?k) (wire @ ?x) (b_decr ?k b) = Inr (e, b', (wire @ ?x) @ xs, ws')"
            "brep b' t" "drop (nat ?k) s = xs @ t" "\<forall>n. e = Wr_done n \<longrightarrow> n = ret + ?k + int (length xs)"
            "b_buf b' = b_buf b" "b_total b' = b_total b"
            using Cons.IH [OF rep, of "ret + ?k" "wire @ ?x"] unfolding bb by blast
          have "write_loop noblock (w # ws) ret wire b = Inr (e, b', wire @ (?x @ xs), ws')"
            using sz Wr_take n r True i(1) by (simp add: Let_def)
          moreover have "s = (?x @ xs) @ t" using i(3) by (metis append_assoc append_take_drop_id)
          moreover have "int (length (?x @ xs)) = ?k + int (length xs)" using k(3) by (simp only: length_append of_nat_add)
          then have "\<forall>n. e = Wr_done n \<longrightarrow> n = ret + int (length (?x @ xs))" using i(4) by (simp only: add.assoc)
          ultimately show ?thesis using i(2,5,6) by blast
        next
          case False
          have "write_loop noblock (w # ws) ret wire b = Inr (Wr_done (ret + int (length ?x)), b_decr ?k b, wire @ ?x, ws)"
            unfolding k(3) using sz Wr_take n r False by (simp add: Let_def)
          moreover have "s = ?x @ drop (nat ?k) s" by simp
          ultimately show ?thesis using rep bb wr_end.inject by blast
        qed
      qed
    next
      case Wr_EINTR
      then show ?thesis using Cons.IH [OF Cons.prems, of ret wire] sz by simp
    next
      case Wr_EWOULDBLOCK
      then show ?thesis using stop [of "Wr_done ret"] sz by simp
    next
      case Wr_err
      then show ?thesis using stop [of Wr_failed] sz by simp
    qed
  qed
qed

lemma link_write_rep:
  assumes "brep b s"
  shows "\<exists>r b' xs ws' t. link_write ok noblock ws b = Inr (r, b', xs, ws') \<and> brep b' t \<and> s = xs @ t \<and>
     (r \<noteq> -1 \<longrightarrow> r = int (length xs))"
proof -
  obtain e c xs ws' t where w: "write_loop noblock ws 0 [] (grow_if_init ok b) = Inr (e, c, [] @ xs, ws')"
    "brep c t" "s = xs @ t" "\<forall>n. e = Wr_done n \<longrightarrow> n = 0 + int (length xs)"
    using write_loop_stream [OF grow_if_init_rep [OF assms]] by blast
  obtain c' where "b_nice c = Inr c'" "brep c' t" using b_nice_rep [OF w(2)] by blast
  with w show ?thesis by (cases e) (auto simp: link_write_def)
qed

lemma link_flush_rep:
  assumes "brep b s" "link_flush ok noblock ws len wire b = Inr (Some (r, b', wire', ws'))" "r \<noteq> -1" "0 \<le> len"
  shows "wire' = wire @ s \<and> brep b' [] \<and> r = len + int (length s)"
  using assms
proof (induction ok noblock ws len wire b arbitrary: s rule: link_flush.induct)
  case (1 ok noblock ws len wire b)
  show ?case
  proof (cases "b_size b = 0")
    case True
    with "1.prems" show ?thesis by (auto simp: link_flush.simps [of ok noblock ws len wire b] brep_def)
  next
    case False
    with "1.prems"(1,2) have ws: "ws \<noteq> []" "\<not> b_size b < 0"
      by (auto simp: link_flush.simps [of ok noblock ws len wire b] split: if_splits)
    obtain q c xs us t where w: "link_write ok noblock ws b = Inr (q, c, xs, us)" "brep c t" "s = xs @ t"
      "q \<noteq> -1 \<longrightarrow> q = int (length xs)"
      using link_write_rep [OF "1.prems"(1)] by blast
    have q: "q \<noteq> -1" "link_flush ok noblock us (len + q) (wire @ xs) c = Inr (Some (r, b', wire', ws'))"
      using "1.prems"(2,3) False ws w(1) by (auto simp: link_flush.simps [of ok noblock ws len wire b] split: if_splits)
    have "wire' = (wire @ xs) @ t \<and> brep b' [] \<and> r = len + q + int (length t)"
      by (rule "1.IH" [OF False _ w(1) refl refl refl q(1) w(2) q(2) "1.prems"(3)])
         (use ws w(4) q(1) "1.prems"(4) in auto)
    with w(3,4) q(1) show ?thesis by simp
  qed
qed

lemma msg_send_rep:
  assumes "brep b s" "b_data b = 0" "s \<noteq> []"
  shows "\<exists>r b' xs ws'. msg_send noblock ws b = Inr (r, b', xs, ws') \<and> prefix xs s \<and>
     (r \<noteq> -1 \<longrightarrow> r = int (length xs) \<and> brep b' s)"
proof -
  obtain e c xs ws' t where w: "write_loop noblock ws 0 [] b = Inr (e, c, [] @ xs, ws')"
    "brep c t" "s = xs @ t" "\<forall>n. e = Wr_done n \<longrightarrow> n = 0 + int (length xs)" "b_buf c = b_buf b" "b_total c = b_total b"
    using write_loop_stream [OF assms(1)] by blast
  have sz: "b_size b = int (length s)" "b_size b > 0" using assms by (auto simp: brep_def)
  show ?thesis
  proof (cases e)
    case (Wr_done n)
    have "brep (b_rewind_sz (b_size b) c) s"
      using assms w(5,6) by (simp add: brep_def b_rewind_sz_def)
    then show ?thesis using w Wr_done sz by (auto simp: msg_send_def Let_def b_rewind_sz_def)
  next
    case Wr_failed
    then show ?thesis using w by (auto simp: msg_send_def Let_def)
  qed
qed

lemma msg_read_stream:
  "\<exists>m rs'. msg_read ok noblock rs = Inr (m, rs') \<and>
     (case m of None \<Rightarrow> True
      | Some b \<Rightarrow> b_inv b \<and> rd_bytes rs = b_contents b @ rd_bytes rs' \<and> length (b_contents b) \<le> 8192)"
proof -
  have "brep (grow_if_init ok (Buffer_new (nat INIT_BUFFER_SIZE))) []"
    by (rule grow_if_init_rep, rule brep_new) (simp add: INIT_BUFFER_SIZE_def)
  moreover have "b_total (grow_if_init ok (Buffer_new (nat INIT_BUFFER_SIZE))) \<le> 8192"
    by (simp add: grow_if_init_def Buffer_new_def INIT_BUFFER_SIZE_def b_grow_def grow_size_def to_int32_id Let_def)
  ultimately obtain b where b: "b_nice (grow_if_init ok (Buffer_new (nat INIT_BUFFER_SIZE))) = Inr b" "brep b []" "b_total b \<le> 8192"
    using b_nice_rep b_nice_total by metis
  obtain e b' rs' d where r: "read_loop noblock rs 0 b = Inr (e, b', rs')" "brep b' d"
    "rd_bytes rs = d @ rd_bytes rs'" "b_total b' = b_total b"
    using read_loop_stream [OF b(2), of noblock rs 0] by auto
  have "length d \<le> 8192" using r(2,4) b(3) brep_bounds [OF r(2)] by simp
  with b r show ?thesis
    by (cases e) (auto simp: msg_read_def brep_contents [OF r(2)] brep_inv [OF r(2)])
qed

lemma msg_read_inv: "msg_read ok noblock rs = Inr (Some b, rs') \<Longrightarrow> b_inv b \<and> rd_bytes rs = b_contents b @ rd_bytes rs' \<and> length (b_contents b) \<le> 8192"
  using msg_read_stream [of ok noblock rs] by auto

section \<open>Properties\<close>

text \<open>C29: Link::msg_read neither loses nor invents bytes of the stream: whatever the kernel answers it returns
  normally, and a message it returns is well formed, holds at most 8192 bytes, and is exactly the
  part of the incoming bytes that is no longer pending.\<close>

theorem msg_read_is_stream_prefix:
  "\<exists>m rs'. msg_read ok noblock rs = Inr (m, rs') \<and>
     (case m of None \<Rightarrow> True
      | Some b \<Rightarrow> b_inv b \<and> rd_bytes rs = b_contents b @ rd_bytes rs' \<and> length (b_contents b) \<le> 8192)"
  by (rule msg_read_stream)

text \<open>When Link::flush returns a length, the bytes on the wire are exactly the contents of the output
  buffer, in order and once, the length is their number and the buffer is empty.\<close>

theorem flush_sends_contents:
  assumes "b_inv b" "link_flush ok noblock ws 0 [] b = Inr (Some (r, b', wire, ws'))" "r \<noteq> -1"
  shows "wire = b_contents b \<and> r = int (length (b_contents b)) \<and> b_inv b' \<and> b_contents b' = []"
  using link_flush_rep [of b "b_contents b" ok noblock ws 0 "[]" r b' wire ws'] assms
  by (auto simp: b_inv_def [of b] intro: brep_inv dest: brep_contents)

theorem flush_sends_contents_witness:
  "\<exists>r b' wire. link_flush (\<lambda>_. True) True [Wr_EINTR, Wr_take 2, Wr_EWOULDBLOCK, Wr_take 100] 0 [] (Buffer_wrap ''abcd'')
       = Inr (Some (r, b', wire, [])) \<and> wire = ''abcd'' \<and> r = 4 \<and> b_contents b' = []"
proof -
  have i: "b_inv (Buffer_wrap ''abcd'')" "b_contents (Buffer_wrap ''abcd'') = ''abcd''"
    using brep_wrap [of "''abcd''"] by (auto intro: brep_inv dest: brep_contents)
  obtain r b' wire where f: "link_flush (\<lambda>_. True) True [Wr_EINTR, Wr_take 2, Wr_EWOULDBLOCK, Wr_take 100] 0 [] (Buffer_wrap ''abcd'')
       = Inr (Some (r, b', wire, []))" "r \<noteq> -1"
    by (simp add: link_flush.simps link_write_def grow_if_init_def INIT_BUFFER_SIZE_def Buffer_wrap_def
        Let_def mem_read_def b_decr_def b_nice_def mem_write_def)
  from flush_sends_contents [OF i(1) f] i(2) f show ?thesis by auto
qed

text \<open>C30: Link::msg_send puts a prefix of the message on the wire, and unless it fails returns the length of
  that prefix and restores the message to its full contents. On a partial write the message
  therefore does not record how much of it was sent.\<close>

theorem msg_send_sends_prefix:
  assumes "b_inv b" "b_data b = 0" "b_contents b \<noteq> []"
  shows "\<exists>r b' wire ws'. msg_send noblock ws b = Inr (r, b', wire, ws') \<and> prefix wire (b_contents b) \<and>
     (r = -1 \<or> r = int (length wire) \<and> b_contents b' = b_contents b \<and> b_inv b')"
proof -
  have "brep b (b_contents b)" using assms(1) by (simp add: b_inv_def)
  from msg_send_rep [OF this assms(2,3)] show ?thesis using brep_inv brep_contents by metis
qed

theorem msg_send_sends_prefix_witness:
  "\<exists>r b' wire ws'. msg_send True [Wr_take 2, Wr_EWOULDBLOCK] (Buffer_wrap ''abcd'') = Inr (r, b', wire, ws') \<and>
     prefix wire (b_contents (Buffer_wrap ''abcd'')) \<and>
     (r = -1 \<or> r = int (length wire) \<and> b_contents b' = b_contents (Buffer_wrap ''abcd'') \<and> b_inv b')"
  using brep_wrap [of "''abcd''"]
  by (intro msg_send_sends_prefix) (auto intro: brep_inv dest: brep_contents simp: Buffer_wrap_def b_contents_def)

text \<open>When the kernel takes only the first k bytes of a message, Link::kafka_msg_send continues with the
  start of the message again: the receiver sees the prefix twice and never the end, although the
  return value is the full length.\<close>

theorem kafka_msg_send_repeats_prefix:
  assumes "0 < k" "k < length msg"
  shows "kafka_msg_send True [Wr_take k, Wr_take (length msg)] msg (int (length msg)) 0 []
         = (int (length msg), take k msg @ take (length msg - k) msg, [])"
proof -
  have "nat (int (length msg) - int k) = length msg - k" using assms by simp
  with assms show ?thesis by (cases "msg = []") (auto simp: Let_def min_def)
qed

theorem kafka_msg_send_repeats_prefix_witness:
  "kafka_msg_send True [Wr_take 2, Wr_take (length ''abcd'')] ''abcd'' (int (length ''abcd'')) 0 []
   = (int (length ''abcd''), take 2 ''abcd'' @ take (length ''abcd'' - 2) ''abcd'', [])"
  by (rule kafka_msg_send_repeats_prefix) simp_all

end
