(* ===== verification/Link_Redis.thy ===== *)
theory Link_Redis
  imports Link_IO
begin

text \<open>
  RedisLink of src/src/link_redis.h and link_redis.cpp: the table of commands, the request parser
  parse_req, the translation convert_req of Redis commands to the internal ones, recv_req, and
  send_resp, which prints a reply. The conversion of a decimal score by atof is a parameter. The
  lemmas show that a complete request is parsed to its arguments and consumed exactly, and that
  replies are read back by a RESP parser.
\<close>

section \<open>Commands\<close>

datatype REPLY = REPLY_BULK | REPLY_MULTI_BULK | REPLY_INT | REPLY_STATUS

datatype STRATEGY =
    STRATEGY_AUTO | STRATEGY_PING | STRATEGY_MGET | STRATEGY_HMGET | STRATEGY_HGETALL
  | STRATEGY_HKEYS | STRATEGY_HVALS | STRATEGY_SETEX | STRATEGY_ZRANGE | STRATEGY_ZREVRANGE
  | STRATEGY_ZRANGEBYSCORE | STRATEGY_ZREVRANGEBYSCORE | STRATEGY_ZADD | STRATEGY_ZINCRBY
  | STRATEGY_REMRANGEBYRANK | STRATEGY_REMRANGEBYSCORE | STRATEGY_NULL

record RedisRequestDesc =
  strategy :: STRATEGY
  redis_cmd :: string
  ssdb_cmd :: string
  reply_type :: REPLY

definition raw :: "STRATEGY \<Rightarrow> string \<Rightarrow> string \<Rightarrow> REPLY \<Rightarrow> RedisRequestDesc" where
  "raw st rc sc rt = \<lparr>strategy = st, redis_cmd = rc, ssdb_cmd = sc, reply_type = rt\<rparr>"

definition cmds_raw :: "RedisRequestDesc list" where
  "cmds_raw = [
     raw STRATEGY_PING ''ping'' ''ping'' REPLY_STATUS,
     raw STRATEGY_AUTO ''get'' ''get'' REPLY_BULK,
     raw STRATEGY_AUTO ''getset'' ''getset'' REPLY_BULK,
     raw STRATEGY_AUTO ''set'' ''set'' REPLY_STATUS,
     raw STRATEGY_AUTO ''setnx'' ''setnx'' REPLY_INT,
     raw STRATEGY_AUTO ''exists'' ''exists'' REPLY_INT,
     raw STRATEGY_AUTO ''incr'' ''incr'' REPLY_INT,
     raw STRATEGY_AUTO ''decr'' ''decr'' REPLY_INT,
     raw STRATEGY_AUTO ''ttl'' ''ttl'' REPLY_INT,
     raw STRATEGY_AUTO ''expire'' ''expire'' REPLY_INT,
     raw STRATEGY_AUTO ''getbit'' ''getbit'' REPLY_INT,
     raw STRATEGY_AUTO ''setbit'' ''setbit'' REPLY_INT,
     raw STRATEGY_AUTO ''strlen'' ''strlen'' REPLY_INT,
     raw STRATEGY_AUTO ''bitcount'' ''bitcount'' REPLY_INT,
     raw STRATEGY_AUTO ''substr'' ''getrange'' REPLY_BULK,
     raw STRATEGY_AUTO ''getrange'' ''getrange'' REPLY_BULK,
     raw STRATEGY_AUTO ''keys'' ''keys'' REPLY_MULTI_BULK,
     raw STRATEGY_AUTO ''hset'' ''hset'' REPLY_INT,
     raw STRATEGY_AUTO ''hget'' ''hget'' REPLY_BULK,
     raw STRATEGY_AUTO ''hexists'' ''hexists'' REPLY_INT,
     raw STRATEGY_AUTO ''del'' ''multi_del'' REPLY_INT,
     raw STRATEGY_AUTO ''mset'' ''multi_set'' REPLY_STATUS,
     raw STRATEGY_AUTO ''incrby'' ''incr'' REPLY_INT,
     raw STRATEGY_AUTO ''decrby'' ''decr'' REPLY_INT,
     raw STRATEGY_AUTO ''hmset'' ''multi_hset'' REPLY_STATUS,
     raw STRATEGY_AUTO ''hdel'' ''multi_hdel'' REPLY_INT,
     raw STRATEGY_AUTO ''hmdel'' ''multi_hdel'' REPLY_INT,
     raw STRATEGY_AUTO ''hlen'' ''hsize'' REPLY_INT,
     raw STRATEGY_AUTO ''hincrby'' ''hincr'' REPLY_INT,
     raw STRATEGY_AUTO ''zcard'' ''zsize'' REPLY_INT,
     raw STRATEGY_AUTO ''zscore'' ''zget'' REPLY_BULK,
     raw STRATEGY_AUTO ''zrem'' ''multi_zdel'' REPLY_INT,
     raw STRATEGY_AUTO ''zrank'' ''zrank'' REPLY_INT,
     raw STRATEGY_AUTO ''zrevrank'' ''zrrank'' REPLY_INT,
     raw STRATEGY_AUTO ''zcount'' ''zcount'' REPLY_INT,
     raw STRATEGY_REMRANGEBYRANK ''zremrangebyrank'' ''zremrangebyrank'' REPLY_INT,
     raw STRATEGY_REMRANGEBYSCORE ''zremrangebyscore'' ''zremrangebyscore'' REPLY_INT,
     raw STRATEGY_MGET ''mget'' ''multi_get'' REPLY_MULTI_BULK,
     raw STRATEGY_HMGET ''hmget'' ''multi_hget'' REPLY_MULTI_BULK,
     raw STRATEGY_HGETALL ''hgetall'' ''hgetall'' REPLY_MULTI_BULK,
     raw STRATEGY_HKEYS ''hkeys'' ''hkeys'' REPLY_MULTI_BULK,
     raw STRATEGY_HVALS ''hvals'' ''hvals'' REPLY_MULTI_BULK,
     raw STRATEGY_SETEX ''setex'' ''setx'' REPLY_STATUS,
     raw STRATEGY_ZRANGE ''zrange'' ''zrange'' REPLY_MULTI_BULK,
     raw STRATEGY_ZREVRANGE ''zrevrange'' ''zrrange'' REPLY_MULTI_BULK,
     raw STRATEGY_ZADD ''zadd'' ''multi_zset'' REPLY_INT,
     raw STRATEGY_ZINCRBY ''zincrby'' ''zincr'' REPLY_BULK,
     raw STRATEGY_ZRANGEBYSCORE ''zrangebyscore'' ''zscan'' REPLY_MULTI_BULK,
     raw STRATEGY_ZREVRANGEBYSCORE ''zrevrangebyscore'' ''zrscan'' REPLY_MULTI_BULK,
     raw STRATEGY_AUTO ''lpush'' ''qpush_front'' REPLY_INT,
     raw STRATEGY_AUTO ''rpush'' ''qpush_back'' REPLY_INT,
     raw STRATEGY_AUTO ''lpop'' ''qpop_front'' REPLY_BULK,
     raw STRATEGY_AUTO ''rpop'' ''qpop_back'' REPLY_BULK,
     raw STRATEGY_AUTO ''llen'' ''qsize'' REPLY_INT,
     raw STRATEGY_AUTO ''lsize'' ''qsize'' REPLY_INT,
     raw STRATEGY_AUTO ''lindex'' ''qget'' REPLY_BULK,
     raw STRATEGY_AUTO ''lset'' ''qset'' REPLY_STATUS,
     raw STRATEGY_AUTO ''lrange'' ''qslice'' REPLY_MULTI_BULK]"

text \<open>The map cmd_table filled from the array, keyed by the Redis name; a later entry replaces an earlier one.\<close>

fun fill_cmd_table :: "RedisRequestDesc list \<Rightarrow> (string \<rightharpoonup> RedisRequestDesc) \<Rightarrow> (string \<rightharpoonup> RedisRequestDesc)" where
  "fill_cmd_table [] tab = tab"
| "fill_cmd_table (d # ds) tab = fill_cmd_table ds (tab(redis_cmd d \<mapsto> d))"

definition cmd_table :: "string \<rightharpoonup> RedisRequestDesc" where
  "cmd_table = fill_cmd_table cmds_raw Map.empty"

record RedisLink =
  r_cmd :: string
  req_desc :: "RedisRequestDesc option"
  recv_bytes :: "string list"
  recv_string :: "string list"

definition RedisLink_new :: RedisLink where
  "RedisLink_new = \<lparr>r_cmd = [], req_desc = None, recv_bytes = [], recv_string = []\<rparr>"

section \<open>Translating requests\<close>

text \<open>The score and member arguments of ZADD, in pairs; score_of is the conversion through double.\<close>

fun zadd_args :: "(string \<Rightarrow> int) \<Rightarrow> string list \<Rightarrow> string list" where
  "zadd_args score_of (s # m # r) = m # str_int (score_of s) # zadd_args score_of r"
| "zadd_args score_of _ = []"

text \<open>One bound of a score range: an exclusive bound is moved by delta, an infinite one is dropped.\<close>

definition score_bound :: "int \<Rightarrow> errno \<Rightarrow> string \<Rightarrow> string \<times> errno" where
  "score_bound delta e s =
     (if s = ''-inf'' \<or> s = ''+inf'' then ([], e)
      else if s \<noteq> [] \<and> hd s = CHR ''('' then
        (case str_to_int e (tl s) of (v, e') \<Rightarrow> (dec_int (to_int32 (v + delta)), e'))
      else (s, e))"

record zopts =
  zo_after_limit :: bool
  zo_offset :: string
  zo_count :: string
  zo_withscores :: string

definition zopt_step :: "string \<Rightarrow> zopts \<Rightarrow> zopts" where
  "zopt_step s z =
     (let z1 = (if zo_after_limit z then
                  (if zo_offset z = [] then z\<lparr>zo_offset := s\<rparr> else z\<lparr>zo_count := s, zo_after_limit := False\<rparr>)
                else z);
          l = strtolower s
      in if l = ''withscores'' then z1\<lparr>zo_withscores := l\<rparr>
         else if l = ''limit'' then z1\<lparr>zo_after_limit := True\<rparr> else z1)"

definition convert_score_range :: "RedisRequestDesc \<Rightarrow> errno \<Rightarrow> string list \<Rightarrow> string list \<times> errno" where
  "convert_score_range d e args =
     (if length args < 4 then ([ssdb_cmd d], e)
      else
        let nam = args ! 1; smin = args ! 2; smax = args ! 3;
            z = fold zopt_step (drop 4 args) \<lparr>zo_after_limit = False, zo_offset = [], zo_count = [], zo_withscores = []\<rparr>;
            up = (strategy d = STRATEGY_ZRANGEBYSCORE)
        in if smin = [] \<or> smax = [] then ([ssdb_cmd d], e)
           else
             let (b1, e1) = score_bound (if up then 1 else -1) e smin;
                 (b2, e2) = score_bound (if up then -1 else 1) e1 smax
             in ([ssdb_cmd d, nam, [], b1, b2,
                  if zo_offset z = [] then ''0'' else zo_offset z,
                  if zo_count z = [] then ''2000000000'' else zo_count z,
                  zo_withscores z], e2))"

definition convert_rank_range :: "RedisRequestDesc \<Rightarrow> errno \<Rightarrow> string list \<Rightarrow> string list \<times> errno" where
  "convert_rank_range d e args =
     (if length args \<ge> 4 then
        let (start, e1) = str_to_int64 e (args ! 2);
            (stop, e2) = str_to_int64 e1 (args ! 3);
            range = (if (start \<ge> 0 \<and> stop \<ge> 0) \<or> stop = -1 then
                       [args ! 1, args ! 2,
                        str_int (if stop = -1 then -1
                                 else if strategy d = STRATEGY_REMRANGEBYSCORE then stop else to_int64 (stop - start + 1))]
                     else []);
            opt = (if length args > 4 then [strtolower (args ! 4)] else [])
        in ([ssdb_cmd d] @ range @ opt, e2)
      else ([ssdb_cmd d], e))"

text \<open>RedisLink::convert_req: args is recv_bytes, the result is req_desc and recv_string.\<close>

definition convert_req :: "(string \<Rightarrow> int) \<Rightarrow> errno \<Rightarrow> string \<Rightarrow> string list \<Rightarrow> RedisRequestDesc option \<times> string list \<times> errno" where
  "convert_req score_of e c args =
     (case cmd_table c of
        None \<Rightarrow> (None, c # drop 1 args, e)
      | Some d \<Rightarrow>
          let st = strategy d in
          if st = STRATEGY_HKEYS \<or> st = STRATEGY_HVALS then
            (Some d, ssdb_cmd d # (if length args = 2 then [args ! 1, [], [], ''2000000000''] else []), e)
          else if st = STRATEGY_SETEX then
            (Some d, ssdb_cmd d # (if length args = 4 then [args ! 1, args ! 3, args ! 2] else []), e)
          else if st = STRATEGY_ZADD then
            (Some d, ssdb_cmd d # (if length args \<ge> 2 then args ! 1 # zadd_args score_of (drop 2 args) else []), e)
          else if st = STRATEGY_ZINCRBY then
            (Some d, ssdb_cmd d # (if length args = 4 then [args ! 1, args ! 3, args ! 2] else []), e)
          else if st = STRATEGY_REMRANGEBYRANK \<or> st = STRATEGY_REMRANGEBYSCORE then
            (Some d, ssdb_cmd d # (if length args \<ge> 4 then [args ! 1, args ! 2, args ! 3] else []), e)
          else if st = STRATEGY_ZRANGE \<or> st = STRATEGY_ZREVRANGE then
            (case convert_rank_range d e args of (r, e') \<Rightarrow> (Some d, r, e'))
          else if st = STRATEGY_ZRANGEBYSCORE \<or> st = STRATEGY_ZREVRANGEBYSCORE then
            (case convert_score_range d e args of (r, e') \<Rightarrow> (Some d, r, e'))
          else (Some d, ssdb_cmd d # drop 1 args, e))"

section \<open>Parsing requests\<close>

text \<open>The loop that skips leading line ends; the position, the size left and the bytes skipped.\<close>

fun skip_newlines :: "cells \<Rightarrow> int \<Rightarrow> nat \<Rightarrow> int \<Rightarrow> (int \<times> int \<times> int) res" where
  "skip_newlines m ptr 0 parsed = Inr (ptr, 0, parsed)"
| "skip_newlines m ptr (Suc n) parsed =
     rbind (mem_get m ptr) (\<lambda>c.
       if c = LF \<or> c = CR then skip_newlines m (ptr + 1) n (parsed + 1)
       else Inr (ptr, int (Suc n), parsed))"

text \<open>How parse_req ends: -1, 0 (not ready), or 1 with the arguments and the bytes parsed.\<close>

datatype parse_end = Parse_bad | Parse_more | Parse_done "string list" int

function parse_args :: "cells \<Rightarrow> errno \<Rightarrow> int \<Rightarrow> int \<Rightarrow> int \<Rightarrow> int \<Rightarrow> string list \<Rightarrow> (parse_end \<times> errno) res" where
  "parse_args m e ptr sz parsed num_args acc =
     (if sz \<le> 0 then Inr (Parse_more, e)
      else case mem_chr m ptr (nat sz) LF of
        Inl f \<Rightarrow> Inl f
      | Inr None \<Rightarrow> Inr (Parse_more, e)
      | Inr (Some l) \<Rightarrow>
          let lf = l + 1; sz1 = sz - (lf - ptr); parsed1 = parsed + (lf - ptr) in
          (case mem_strtol m (ptr + 1) e of
             Inl f \<Rightarrow> Inl f
           | Inr (v, e1) \<Rightarrow>
               let len = to_int32 v in
               if e1 = EINVAL then Inr (Parse_bad, e1)
               else if len < 0 then Inr (Parse_bad, e1)
               else if num_args = 0 then
                 (if len \<le> 0 then Inr (Parse_bad, e1)
                  else parse_args m e1 lf sz1 parsed1 len acc)
               else if len > sz1 - 1 then Inr (Parse_more, e1)
               else case mem_read m lf len of
                 Inl f \<Rightarrow> Inl f
               | Inr arg \<Rightarrow>
                   let p2 = lf + len + 1; sz2 = sz1 - (len + 1); parsed2 = parsed1 + (len + 1) in
                   (case mem_get m p2 of
                      Inl f \<Rightarrow> Inl f
                    | Inr c \<Rightarrow>
                        let k = (if c = LF then 1 else 0) in
                        if num_args - 1 = 0 then Inr (Parse_done (acc @ [arg]) (parsed2 + k), e1)
                        else parse_args m e1 (p2 + k) (sz2 - k) (parsed2 + k) (num_args - 1) (acc @ [arg]))))"
  by pat_completeness auto

lemma mem_chr_step: "mem_chr m ptr (nat sz) c = Inr (Some l) \<Longrightarrow> ptr \<le> l \<and> sz > 0 \<and> l < ptr + sz"
  using mem_chr_bounds [of m ptr "nat sz" c l] by (auto split: if_splits)

termination parse_args
  by (relation "measure (\<lambda>(m, e, ptr, sz, parsed, num_args, acc). nat sz)")
     (auto dest: mem_chr_step)

declare parse_args.simps [simp del]

definition parse_req :: "errno \<Rightarrow> 'a buffer_scheme \<Rightarrow> (int \<times> string list \<times> errno \<times> 'a buffer_scheme) res" where
  "parse_req e input =
     rbind (skip_newlines (b_buf input) (b_data input) (nat (b_size input)) 0) (\<lambda>(ptr, sz, parsed).
     rbind (mem_get (b_buf input) ptr) (\<lambda>c.
       if c \<noteq> CHR ''*'' then Inr (-1, [], e, input)
       else rbind (parse_args (b_buf input) e ptr sz parsed 0 []) (\<lambda>(r, e').
         Inr (case r of
                Parse_bad \<Rightarrow> (-1, [], e', input)
              | Parse_more \<Rightarrow> (0, [], e', input)
              | Parse_done args n \<Rightarrow> (1, args, e', b_decr n input)))))"

text \<open>
  Making room when a request is incomplete: nice, and grow when there is still no space. The
  boolean is False when growing failed.
\<close>

definition make_room :: "(nat \<Rightarrow> bool) \<Rightarrow> 'a buffer_scheme \<Rightarrow> (bool \<times> 'a buffer_scheme) res" where
  "make_room ok b =
     (if b_space b = 0 then
        rbind (b_nice b) (\<lambda>b1. if b_space b1 = 0 then Inr (b_grow ok b1) else Inr (True, b1))
      else Inr (True, b))"

text \<open>RedisLink::recv_req: None is the null pointer.\<close>

definition recv_req :: "(string \<Rightarrow> int) \<Rightarrow> (nat \<Rightarrow> bool) \<Rightarrow> errno \<Rightarrow> RedisLink \<Rightarrow> 'a buffer_scheme
    \<Rightarrow> (string list option \<times> RedisLink \<times> errno \<times> 'a buffer_scheme) res" where
  "recv_req score_of ok e rl input =
     (let old_sz = b_size input in
      rbind (parse_req e input) (\<lambda>(ret, args, e1, inp1).
        let rl1 = rl\<lparr>recv_bytes := args\<rparr> in
        if ret = -1 then Inr (None, rl1, e1, inp1)
        else
          let inp2 = b_remember_sz old_sz inp1 in
          if args = [] then
            rbind (make_room ok inp2) (\<lambda>(good, inp3).
              Inr (if good then Some [] else None, rl1, e1, inp3))
          else
            let c = strtolower (hd args) in
            case convert_req score_of e1 c args of
              (d, strs, e2) \<Rightarrow>
                Inr (Some strs, rl1\<lparr>r_cmd := c, req_desc := d, recv_string := strs, recv_bytes := strs\<rparr>, e2, inp2)))"

section \<open>Printing replies\<close>

definition CRLF :: string where "CRLF = [CR, LF]"

definition bulk :: "string \<Rightarrow> string list" where
  "bulk v = [CHR ''$'' # dec_int (int (length v)) @ CRLF, v, CRLF]"

text \<open>The loop over the requested keys of (H)MGET and the key-value pairs of the response.\<close>

fun mget_chunks :: "string list \<Rightarrow> string list \<Rightarrow> string list" where
  "mget_chunks [] resp = []"
| "mget_chunks (k # ks) resp =
     (case resp of
        k' # v # rs \<Rightarrow> if k \<noteq> k' then (''$-1'' @ CRLF) # mget_chunks ks resp
                       else bulk v @ mget_chunks ks rs
      | _ \<Rightarrow> (''$-1'' @ CRLF) # mget_chunks ks resp)"

text \<open>The loop for(i = 1; ...) that prints every value, or every other one without scores.\<close>

fun multi_chunks :: "bool \<Rightarrow> string list \<Rightarrow> string list" where
  "multi_chunks ws [] = []"
| "multi_chunks ws [v] = bulk v"
| "multi_chunks ws (v # w # vs) = bulk v @ multi_chunks ws (if ws then w # vs else vs)"

definition with_scores :: "RedisLink \<Rightarrow> RedisRequestDesc \<Rightarrow> bool" where
  "with_scores rl d =
     (let rs = recv_string rl; st = strategy d in
      \<not> ((st = STRATEGY_ZRANGE \<or> st = STRATEGY_ZREVRANGE) \<and> (length rs < 5 \<or> rs ! 4 \<noteq> ''withscores''))
      \<and> \<not> ((st = STRATEGY_ZRANGEBYSCORE \<or> st = STRATEGY_ZREVRANGEBYSCORE) \<and> last rs \<noteq> ''withscores''))"

text \<open>The strings that send_resp appends to the output, in order.\<close>

definition resp_chunks :: "RedisLink \<Rightarrow> string list \<Rightarrow> string list res" where
  "resp_chunks rl resp =
     (case resp of
        [] \<Rightarrow> Inr []
      | r0 # rest \<Rightarrow>
          if r0 = ''error'' \<or> r0 = ''fail'' \<or> r0 = ''client_error'' then
            Inr ([''-ERR ''] @ take 1 rest @ [CRLF])
          else if r0 = ''noauth'' then Inr ([''-NOAUTH ''] @ take 1 rest @ [CRLF])
          else if r0 = ''not_found'' then Inr [''$-1'' @ CRLF]
          else if r0 \<noteq> ''ok'' then Inr [''-ERR server error'' @ CRLF]
          else case req_desc rl of
            None \<Rightarrow> Inr [''+OK'' @ CRLF]
          | Some d \<Rightarrow>
              let st = strategy d; rt = reply_type d; rs = recv_string rl in
              if st = STRATEGY_PING then Inr [''+PONG'' @ CRLF]
              else if rt = REPLY_STATUS then Inr [''+OK'' @ CRLF]
              else if st = STRATEGY_MGET \<or> st = STRATEGY_HMGET then
                (if length resp mod 2 \<noteq> 1 then Inr [''*0'']
                 else let k = (if st = STRATEGY_MGET then 1 else 2) in
                   if length rs < k then Inl Out_of_bounds
                   else Inr ((CHR ''*'' # dec_int (int (length rs) - int k) @ CRLF) # mget_chunks (drop k rs) rest))
              else if rt = REPLY_BULK then
                Inr (case rest of v # _ \<Rightarrow> bulk v | [] \<Rightarrow> [''$0'' @ CRLF])
              else if rt = REPLY_INT then
                Inr (case rest of v # _ \<Rightarrow> ['':'', v, CRLF] | [] \<Rightarrow> [''$0'' @ CRLF])
              else if (st = STRATEGY_ZRANGEBYSCORE \<or> st = STRATEGY_ZREVRANGEBYSCORE) \<and> rs = [] then Inl Out_of_bounds
              else let ws = with_scores rl d in
                Inr ((CHR ''*'' # dec_int (if ws then int (length rest) else int (length rest) div 2) @ CRLF)
                     # multi_chunks ws rest))"

text \<open>Appending several strings; the return values of append are ignored.\<close>

fun append_chunks :: "(nat \<Rightarrow> bool) \<Rightarrow> string list \<Rightarrow> 'a buffer_scheme \<Rightarrow> 'a buffer_scheme res" where
  "append_chunks ok [] b = Inr b"
| "append_chunks ok (x # xs) b = rbind (b_append ok x b) (\<lambda>(r, b'). append_chunks ok xs b')"

definition send_resp :: "(nat \<Rightarrow> bool) \<Rightarrow> RedisLink \<Rightarrow> string list \<Rightarrow> 'a buffer_scheme \<Rightarrow> (int \<times> 'a buffer_scheme) res" where
  "send_resp ok rl resp output =
     rbind (resp_chunks rl resp) (\<lambda>cs. rbind (append_chunks ok cs output) (\<lambda>b. Inr (0, b)))"

section \<open>Parsing what a client sends\<close>

definition redis_head :: "char \<Rightarrow> nat \<Rightarrow> string" where
  "redis_head t n = t # dec_int (int n) @ [CR]"

definition redis_arg :: "string \<Rightarrow> string" where
  "redis_arg a = redis_head CHR ''$'' (length a) @ [LF] @ a @ [CR] @ [LF]"

definition redis_request :: "string list \<Rightarrow> string" where
  "redis_request args = redis_head CHR ''*'' (length args) @ [LF] @ concat (map redis_arg args)"

lemma LF_not_in_head: "t \<noteq> LF \<Longrightarrow> LF \<notin> set (redis_head t n)"
  using LF_not_in_dec_int [of n] by (simp add: redis_head_def char_defs)

lemma head_line:
  assumes "holds m ptr (redis_head t n @ [LF])" "t \<noteq> LF" "int (length (redis_head t n)) < sz" "n < 2 ^ 31"
  shows "mem_chr m ptr (nat sz) LF = Inr (Some (ptr + int (length (redis_head t n))))"
    and "mem_strtol m (ptr + 1) e = Inr (int n, e)" and "to_int32 (int n) = int n"
proof -
  show "mem_chr m ptr (nat sz) LF = Inr (Some (ptr + int (length (redis_head t n))))"
    using mem_chr_holds [OF assms(1) LF_not_in_head [OF assms(2)], of "nat sz"] assms(3) by simp
  have "holds m ptr ([t] @ (dec_int (int n) @ [CR]) @ [LF])" using assms(1) by (simp add: redis_head_def)
  then have "holds m (ptr + 1) (dec_int (int n) @ [CR])"
    using holds_append [of m ptr "[t]" "(dec_int (int n) @ [CR]) @ [LF]"] holds_append [of m "ptr + 1" "dec_int (int n) @ [CR]" "[LF]"] by simp
  then show "mem_strtol m (ptr + 1) e = Inr (int n, e)"
    by (rule mem_strtol_dec) (use assms(4) in \<open>simp_all add: isdigit_def CR_def LONG_MAX_def\<close>)
  show "to_int32 (int n) = int n" using assms(4) by (simp add: to_int32_id)
qed

lemma parse_args_all:
  assumes "args \<noteq> []" "holds m ptr (concat (map redis_arg args))" "int (length (concat (map redis_arg args))) \<le> sz"
    "\<forall>a\<in>set args. length a < 2 ^ 31" "e \<noteq> EINVAL"
  shows "parse_args m e ptr sz parsed (int (length args)) acc
     = Inr (Parse_done (acc @ args) (parsed + int (length (concat (map redis_arg args)))), e)"
  using assms
proof (induction args arbitrary: ptr sz parsed acc)
  case (Cons a args)
  let ?h = "redis_head CHR ''$'' (length a)" and ?r = "concat (map redis_arg args)"
  let ?lf = "ptr + int (length ?h) + 1"
  have eq: "concat (map redis_arg (a # args)) = (?h @ [LF]) @ a @ [CR] @ [LF] @ ?r"
    by (simp add: redis_arg_def)
  have h: "holds m ptr (?h @ [LF])" "holds m ?lf a" "holds m (?lf + int (length a) + 1) [LF]"
    "holds m (?lf + int (length a) + 2) ?r"
    using Cons.prems(2) unfolding eq
    using holds_append [of m ptr "?h @ [LF]" "a @ [CR] @ [LF] @ ?r"] holds_append [of m ?lf a "[CR] @ [LF] @ ?r"]
      holds_append [of m "?lf + int (length a)" "[CR]" "[LF] @ ?r"]
      holds_append [of m "?lf + int (length a) + 1" "[LF]" ?r] by (simp_all add: ac_simps)
  have sz: "int (length ?h) + 1 + int (length a) + 2 + int (length ?r) \<le> sz"
    using Cons.prems(3) unfolding eq by simp
  have la: "length a < 2 ^ 31" using Cons.prems(4) by simp
  have ne: "CHR ''$'' \<noteq> LF" by (simp add: LF_def)
  have lt: "int (length ?h) < sz" using sz by linarith
  note l = head_line(1,3) [OF h(1) ne lt la] head_line(2) [OF h(1) ne lt la, of e]
  have rd: "mem_read m ?lf (int (length a)) = Inr a" by (rule mem_read_holds [OF h(2)])
  have gt: "mem_get m (?lf + int (length a) + 1) = Inr LF" by (rule mem_get_holds [OF h(3)])
  show ?case
  proof (cases "args = []")
    case True
    then show ?thesis
      using l rd gt sz Cons.prems(5) unfolding eq
      by (subst parse_args.simps) (simp add: Let_def algebra_simps)
  next
    case False
    have "parse_args m e (?lf + int (length a) + 2) (sz - (int (length ?h) + 1 + int (length a) + 2))
        (parsed + (int (length ?h) + 1 + int (length a) + 2)) (int (length args)) (acc @ [a])
      = Inr (Parse_done ((acc @ [a]) @ args) (parsed + (int (length ?h) + 1 + int (length a) + 2) + int (length ?r)), e)"
      using Cons.IH [OF False h(4)] sz Cons.prems(4,5) by simp
    then show ?thesis
      using l rd gt sz Cons.prems(5) False unfolding eq
      by (subst parse_args.simps) (simp add: Let_def algebra_simps)
  qed
qed simp

lemma parse_req_complete:
  assumes "brep b (redis_request args @ rest)" "args \<noteq> []" "length args < 2 ^ 31" "\<forall>a\<in>set args. length a < 2 ^ 31" "e \<noteq> EINVAL"
  shows "parse_req e b = Inr (1, args, e, b_decr (int (length (redis_request args))) b)"
proof -
  let ?m = "b_buf b" and ?p = "b_data b" and ?h = "redis_head CHR ''*'' (length args)"
  let ?r = "concat (map redis_arg args)"
  have eq: "redis_request args @ rest = (?h @ [LF]) @ ?r @ rest" by (simp add: redis_request_def)
  have h: "holds ?m ?p (?h @ [LF])" "holds ?m (?p + int (length ?h) + 1) ?r"
    using assms(1) unfolding eq brep_def
    using holds_append [of ?m ?p "?h @ [LF]" "?r @ rest"] holds_append [of ?m "?p + int (length ?h) + 1" ?r rest]
    by (simp_all add: ac_simps)
  have sz: "b_size b = int (length ?h) + 1 + int (length ?r) + int (length rest)"
    using assms(1) unfolding eq brep_def by simp
  have "holds ?m ?p (CHR ''*'' # dec_int (int (length args)) @ [CR] @ [LF])" using h(1) by (simp add: redis_head_def)
  then have c: "mem_get ?m ?p = Inr CHR ''*''" using holds_ConsD mem_get_holds by blast
  obtain n where n: "nat (b_size b) = Suc n" "int (Suc n) = b_size b" using sz by (cases "nat (b_size b)") auto
  have sk: "skip_newlines ?m ?p (nat (b_size b)) 0 = Inr (?p, b_size b, 0)"
    using c n by (simp add: char_defs)
  have ne: "CHR ''*'' \<noteq> LF" by (simp add: LF_def)
  have lt: "int (length ?h) < b_size b" using sz by linarith
  note l = head_line(1,3) [OF h(1) ne lt assms(3)] head_line(2) [OF h(1) ne lt assms(3), of e]
  have "parse_args ?m e (?p + int (length ?h) + 1) (b_size b - (int (length ?h) + 1)) (int (length ?h) + 1) (int (length args)) []
      = Inr (Parse_done ([] @ args) (int (length ?h) + 1 + int (length ?r)), e)"
    by (rule parse_args_all [OF assms(2) h(2) _ assms(4,5)]) (use sz in simp)
  then have "parse_args ?m e ?p (b_size b) 0 0 [] = Inr (Parse_done args (int (length (redis_request args))), e)"
    using l sz assms(2,5)
    by (subst parse_args.simps) (simp add: Let_def algebra_simps redis_request_def)
  then show ?thesis using sk c by (simp add: parse_req_def)
qed

section \<open>A reader of replies\<close>

text \<open>The reply side of the Redis protocol, as a client reads it.\<close>

datatype resp_reply =
    R_status string | R_error string | R_int string | R_bulk "string option" | R_multi "string option list"

definition resp_line :: "string \<Rightarrow> (string \<times> string) option" where
  "resp_line s = (case dropWhile (\<lambda>c. c \<noteq> CR) s of
      c # d # r \<Rightarrow> if d = LF then Some (takeWhile (\<lambda>c. c \<noteq> CR) s, r) else None
    | _ \<Rightarrow> None)"

definition resp_number :: "string \<Rightarrow> (int \<times> string) option" where
  "resp_number s = (case resp_line s of
      None \<Rightarrow> None
    | Some (l, r) \<Rightarrow> if l \<noteq> [] \<and> snd (strtol l) = [] then Some (fst (strtol l), r) else None)"

definition resp_bulk :: "string \<Rightarrow> (string option \<times> string) option" where
  "resp_bulk s = (case s of
      [] \<Rightarrow> None
    | c # t \<Rightarrow>
        if c \<noteq> CHR ''$'' then None
        else case resp_number t of
          None \<Rightarrow> None
        | Some (n, r) \<Rightarrow>
            if n = -1 then Some (None, r)
            else if n < 0 \<or> int (length r) < n + 2 then None
            else if take 2 (drop (nat n) r) = CRLF then Some (Some (take (nat n) r), drop (nat n + 2) r)
            else None)"

fun resp_bulks :: "nat \<Rightarrow> string \<Rightarrow> (string option list \<times> string) option" where
  "resp_bulks 0 s = Some ([], s)"
| "resp_bulks (Suc n) s =
     (case resp_bulk s of
        None \<Rightarrow> None
      | Some (x, r) \<Rightarrow> (case resp_bulks n r of None \<Rightarrow> None | Some (xs, t) \<Rightarrow> Some (x # xs, t)))"

definition parse_reply :: "string \<Rightarrow> (resp_reply \<times> string) option" where
  "parse_reply s = (case s of
      [] \<Rightarrow> None
    | c # t \<Rightarrow>
        if c = CHR ''+'' then map_option (\<lambda>(l, r). (R_status l, r)) (resp_line t)
        else if c = CHR ''-'' then map_option (\<lambda>(l, r). (R_error l, r)) (resp_line t)
        else if c = CHR '':'' then map_option (\<lambda>(l, r). (R_int l, r)) (resp_line t)
        else if c = CHR ''$'' then map_option (\<lambda>(x, r). (R_bulk x, r)) (resp_bulk s)
        else if c = CHR ''*'' then
          (case resp_number t of
             None \<Rightarrow> None
           | Some (n, r) \<Rightarrow> if n < 0 then None else map_option (\<lambda>(xs, u). (R_multi xs, u)) (resp_bulks (nat n) r))
        else None)"

lemma resp_line_crlf: "CR \<notin> set l \<Longrightarrow> resp_line (l @ CRLF @ r) = Some (l, r)"
proof -
  assume "CR \<notin> set l"
  then have "\<forall>c\<in>set l. c \<noteq> CR" by auto
  then show ?thesis
    using takeWhile_append_stop [of l "\<lambda>c. c \<noteq> CR" "CRLF @ r"] dropWhile_append_stop [of l "\<lambda>c. c \<noteq> CR" "CRLF @ r"]
    by (simp add: resp_line_def CRLF_def)
qed

lemma CR_not_in_dec_int: "CR \<notin> set (dec_int i)"
  using dec_nat_digits [of "nat i"] dec_nat_digits [of "nat (- i)"]
  by (auto simp: dec_int_def CR_def isdigit_def)

lemma resp_number_dec:
  assumes "LONG_MIN \<le> i" "i \<le> LONG_MAX"
  shows "resp_number (dec_int i @ CRLF @ r) = Some (i, r)"
  using assms strtol_dec_int [of i "[]"]
  by (simp add: resp_number_def resp_line_crlf [OF CR_not_in_dec_int]) (simp add: dec_int_def)

lemma resp_bulk_value:
  assumes "int (length v) \<le> LONG_MAX"
  shows "resp_bulk (concat (bulk v) @ r) = Some (Some v, r)"
proof -
  have "resp_number (dec_int (int (length v)) @ CRLF @ v @ CRLF @ r) = Some (int (length v), v @ CRLF @ r)"
    using assms by (intro resp_number_dec) (simp add: LONG_MIN_def)
  then show ?thesis by (simp add: resp_bulk_def bulk_def) (simp add: CRLF_def)
qed

lemma resp_bulk_nil: "resp_bulk (''$-1'' @ CRLF @ r) = Some (None, r)"
proof -
  have "resp_number (dec_int (-1) @ CRLF @ r) = Some (-1, r)"
    by (rule resp_number_dec) (simp_all add: LONG_MIN_def LONG_MAX_def)
  moreover have "dec_int (-1) = ''-1''" by code_simp
  ultimately show ?thesis by (simp add: resp_bulk_def)
qed

text \<open>The values of the pairs (key, value) that a multi-get returns for the keys that exist.\<close>

definition found_pairs :: "(string \<rightharpoonup> string) \<Rightarrow> string list \<Rightarrow> string list" where
  "found_pairs f ks = concat (map (\<lambda>k. case f k of None \<Rightarrow> [] | Some v \<Rightarrow> [k, v]) ks)"

lemma found_pairs_head: "found_pairs f ks = k' # r \<Longrightarrow> f k' \<noteq> None"
  by (induction ks) (auto simp: found_pairs_def split: option.splits)

lemma found_pairs_even: "even (length (found_pairs f ks))"
  by (induction ks) (auto simp: found_pairs_def split: option.splits)

lemma mget_chunks_bulks:
  assumes "\<forall>k v. f k = Some v \<longrightarrow> int (length v) \<le> LONG_MAX"
  shows "resp_bulks (length ks) (concat (mget_chunks ks (found_pairs f ks)) @ r) = Some (map f ks, r)"
proof (induction ks)
  case (Cons k ks)
  show ?case
  proof (cases "f k")
    case None
    have fp: "found_pairs f (k # ks) = found_pairs f ks" using None by (simp add: found_pairs_def)
    have "mget_chunks (k # ks) (found_pairs f ks) = (''$-1'' @ CRLF) # mget_chunks ks (found_pairs f ks)"
      using found_pairs_head [of f ks k] None by (auto split: list.splits)
    with Cons None show ?thesis unfolding fp
      using resp_bulk_nil [of "concat (mget_chunks ks (found_pairs f ks)) @ r"] by simp
  next
    case (Some v)
    have fp: "found_pairs f (k # ks) = k # v # found_pairs f ks" using Some by (simp add: found_pairs_def)
    show ?thesis unfolding fp
      using Cons Some assms resp_bulk_value [of v "concat (mget_chunks ks (found_pairs f ks)) @ r"] by simp
  qed
qed simp

lemma multi_chunks_bulks:
  assumes "\<forall>v\<in>set vs. int (length v) \<le> LONG_MAX"
  shows "resp_bulks (length vs) (concat (multi_chunks True vs) @ r) = Some (map Some vs, r)"
  using assms
proof (induction True vs rule: multi_chunks.induct)
  case (2 v)
  then show ?case using resp_bulk_value [of v r] by simp
next
  case (3 v w vs)
  then show ?case using resp_bulk_value [of v "concat (multi_chunks True (w # vs)) @ r"] by simp
qed simp

lemma append_chunks_ok:
  assumes "brep b s" "\<forall>n. ok n" "b_data b + b_size b + int (length (concat cs)) \<le> 2 ^ 30"
  shows "\<exists>b'. append_chunks ok cs b = Inr b' \<and> brep b' (s @ concat cs)"
  using assms(1,3)
proof (induction cs arbitrary: b s)
  case (Cons c cs)
  obtain b1 where b1: "b_append ok c b = Inr (int (length c), b1)" "brep b1 (s @ c)" "b_data b1 = b_data b"
    using b_append_ok [OF Cons.prems(1) assms(2), of c] Cons.prems(2) by auto
  have "b_data b1 + b_size b1 + int (length (concat cs)) \<le> 2 ^ 30"
    using Cons.prems b1 by (simp add: brep_def)
  from Cons.IH [OF b1(2) this] b1(1) show ?case by auto
qed auto

section \<open>Properties\<close>

text \<open>C31: RedisLink::parse_req recognises a complete multi-bulk request in front of any further input: it
  returns exactly the arguments and consumes exactly the bytes of the request, so the rest is
  what the next call sees. (errno must not be EINVAL on entry.)\<close>

theorem redis_parse_request:
  assumes "b_inv b" "b_contents b = redis_request args @ rest" "args \<noteq> []" "length args < 2 ^ 31"
    "\<forall>a\<in>set args. length a < 2 ^ 31" "e \<noteq> EINVAL"
  shows "\<exists>b'. parse_req e b = Inr (1, args, e, b') \<and> b_inv b' \<and> b_contents b' = rest"
proof -
  have r: "brep b (redis_request args @ rest)" using assms(1,2) by (simp add: b_inv_def)
  have "brep (b_decr (int (length (redis_request args))) b) rest"
    using brep_decr [OF r, of "int (length (redis_request args))"] by simp
  then show ?thesis
    using parse_req_complete [OF r assms(3-6)] by (auto intro: brep_inv dest: brep_contents)
qed

theorem redis_parse_request_witness:
  "\<exists>b'. parse_req E_NONE (Buffer_wrap (redis_request [''GET'', ''k''] @ ''*1'')) = Inr (1, [''GET'', ''k''], E_NONE, b') \<and>
      b_inv b' \<and> b_contents b' = ''*1''"
proof (rule redis_parse_request)
  have l: "length (redis_request [''GET'', ''k''] @ ''*1'') < 2 ^ 31"
    by (simp add: redis_request_def redis_arg_def redis_head_def dec_int_def dec_nat.simps)
  show "b_inv (Buffer_wrap (redis_request [''GET'', ''k''] @ ''*1''))"
    by (rule brep_inv [OF brep_wrap [OF l]])
  show "b_contents (Buffer_wrap (redis_request [''GET'', ''k''] @ ''*1'')) = redis_request [''GET'', ''k''] @ ''*1''"
    by (rule brep_contents [OF brep_wrap [OF l]])
qed simp_all

text \<open>The reply RedisLink::send_resp prints for (H)MGET gives every requested key its value or nil, in the
  order of the request, when the response holds the pairs of the keys that exist: a client reads
  back exactly that list and nothing is left over.\<close>

theorem redis_mget_reply:
  assumes "req_desc rl = Some d" "strategy d = STRATEGY_MGET" "reply_type d = REPLY_MULTI_BULK"
    "recv_string rl = cmd # ks" "\<forall>k v. f k = Some v \<longrightarrow> int (length v) \<le> LONG_MAX" "int (length ks) \<le> LONG_MAX"
  shows "\<exists>cs. resp_chunks rl (''ok'' # found_pairs f ks) = Inr cs \<and>
     parse_reply (concat cs) = Some (R_multi (map f ks), [])"
proof -
  let ?cs = "(CHR ''*'' # dec_int (int (length ks)) @ CRLF) # mget_chunks ks (found_pairs f ks)"
  have "length (''ok'' # found_pairs f ks) mod 2 = 1"
    using found_pairs_even [of f ks] by (simp add: even_iff_mod_2_eq_zero mod_Suc)
  then have "resp_chunks rl (''ok'' # found_pairs f ks) = Inr ?cs"
    using assms(1-4) by (simp add: resp_chunks_def Let_def)
  moreover have "resp_number (dec_int (int (length ks)) @ CRLF @ concat (mget_chunks ks (found_pairs f ks)))
      = Some (int (length ks), concat (mget_chunks ks (found_pairs f ks)))"
    using assms(6) by (intro resp_number_dec) (simp add: LONG_MIN_def)
  then have "parse_reply (concat ?cs) = Some (R_multi (map f ks), [])"
    using mget_chunks_bulks [OF assms(5), of ks "[]"] by (simp add: parse_reply_def)
  ultimately show ?thesis by blast
qed

theorem redis_mget_reply_witness:
  "\<exists>cs. resp_chunks \<lparr>r_cmd = ''mget'', req_desc = cmd_table ''mget'', recv_bytes = [], recv_string = [''multi_get'', ''a'', ''b'']\<rparr>
        (''ok'' # found_pairs [''b'' \<mapsto> ''x''] [''a'', ''b'']) = Inr cs \<and>
     parse_reply (concat cs) = Some (R_multi (map [''b'' \<mapsto> ''x''] [''a'', ''b'']), [])"
  by (rule redis_mget_reply [where d = "raw STRATEGY_MGET ''mget'' ''multi_get'' REPLY_MULTI_BULK"])
     (simp_all add: cmd_table_def cmds_raw_def raw_def LONG_MAX_def)

text \<open>For a found value, RedisLink::send_resp prints a reply that a client reads back unchanged: the bulk
  string for REPLY_BULK commands, the integer text for REPLY_INT commands, and all values for a
  REPLY_MULTI_BULK command with scores. With an allocator that does not fail these bytes are what
  is appended to the output.\<close>

theorem redis_reply_roundtrip:
  assumes "req_desc rl = Some d" "strategy d \<notin> {STRATEGY_PING, STRATEGY_MGET, STRATEGY_HMGET}"
    "\<forall>x\<in>set (v # vs). int (length x) \<le> LONG_MAX" "CR \<notin> set v" "int (length (v # vs)) \<le> LONG_MAX"
    "recv_string rl \<noteq> []" "reply_type d \<noteq> REPLY_STATUS" "with_scores rl d"
    "resp_chunks rl (''ok'' # v # vs) = Inr cs"
    "b_inv b" "b_data b + b_size b + int (length (concat cs)) \<le> 2 ^ 30"
  shows "parse_reply (concat cs) = Some (case reply_type d of
            REPLY_BULK \<Rightarrow> R_bulk (Some v) | REPLY_INT \<Rightarrow> R_int v | _ \<Rightarrow> R_multi (map Some (v # vs)), [])
     \<and> (\<exists>b'. send_resp (\<lambda>_. True) rl (''ok'' # v # vs) b = Inr (0, b') \<and> b_contents b' = b_contents b @ concat cs)"
proof
  have "int (length v) \<le> LONG_MAX" using assms(3) by simp
  note bulk = resp_bulk_value [OF this, of "[]"]
  have num: "resp_number (dec_int (int (length (v # vs))) @ CRLF @ concat (multi_chunks True (v # vs)))
      = Some (int (length (v # vs)), concat (multi_chunks True (v # vs)))"
    using assms(5) by (intro resp_number_dec) (simp add: LONG_MIN_def)
  have line: "resp_line (v @ CRLF) = Some (v, [])" using resp_line_crlf [OF assms(4), of "[]"] by simp
  have mu: "resp_bulks (nat (int (length (v # vs)))) (concat (multi_chunks True (v # vs))) = Some (map Some (v # vs), [])"
    using multi_chunks_bulks [OF assms(3), of "[]"] by (simp only: nat_int append_Nil2)
  show "parse_reply (concat cs) = Some (case reply_type d of
            REPLY_BULK \<Rightarrow> R_bulk (Some v) | REPLY_INT \<Rightarrow> R_int v | _ \<Rightarrow> R_multi (map Some (v # vs)), [])"
  proof (cases "reply_type d")
    case REPLY_BULK
    then have "cs = bulk v" using assms(1,2,9) by (simp add: resp_chunks_def Let_def)
    then show ?thesis using bulk REPLY_BULK by (simp add: parse_reply_def) (simp add: bulk_def)
  next
    case REPLY_INT
    then have "cs = ['':'', v, CRLF]" using assms(1,2,9) by (simp add: resp_chunks_def Let_def)
    then show ?thesis using line REPLY_INT by (simp add: parse_reply_def)
  next
    case REPLY_MULTI_BULK
    then have "cs = (CHR ''*'' # dec_int (int (length (v # vs))) @ CRLF) # multi_chunks True (v # vs)"
      using assms(1,2,6,8,9) by (simp add: resp_chunks_def Let_def)
    then have "concat cs = CHR ''*'' # dec_int (int (length (v # vs))) @ CRLF @ concat (multi_chunks True (v # vs))" by simp
    then show ?thesis using num mu REPLY_MULTI_BULK
      by (simp add: parse_reply_def del: multi_chunks.simps resp_bulks.simps length_Cons of_nat_Suc list.map)
  qed (use assms(7) in simp)
  show "\<exists>b'. send_resp (\<lambda>_. True) rl (''ok'' # v # vs) b = Inr (0, b') \<and> b_contents b' = b_contents b @ concat cs"
    using append_chunks_ok [of b "b_contents b" "\<lambda>_. True" cs] assms(9-11)
    by (auto simp: send_resp_def b_inv_def dest: brep_contents)
qed

theorem redis_reply_roundtrip_witness:
  "\<exists>cs. resp_chunks \<lparr>r_cmd = ''get'', req_desc = cmd_table ''get'', recv_bytes = [], recv_string = [''get'', ''k'']\<rparr> [''ok'', ''val''] = Inr cs
     \<and> parse_reply (concat cs) = Some (R_bulk (Some ''val''), [])"
proof -
  let ?rl = "\<lparr>r_cmd = ''get'', req_desc = cmd_table ''get'', recv_bytes = [], recv_string = [''get'', ''k'']\<rparr>"
  let ?d = "raw STRATEGY_AUTO ''get'' ''get'' REPLY_BULK"
  have d: "req_desc ?rl = Some ?d" by (simp add: cmd_table_def cmds_raw_def raw_def)
  have c: "resp_chunks ?rl (''ok'' # ''val'' # []) = Inr (bulk ''val'')"
    using d by (simp add: resp_chunks_def Let_def raw_def)
  have "parse_reply (concat (bulk ''val'')) = Some (case reply_type ?d of
            REPLY_BULK \<Rightarrow> R_bulk (Some ''val'') | REPLY_INT \<Rightarrow> R_int ''val'' | _ \<Rightarrow> R_multi (map Some (''val'' # [])), [])"
    by (rule conjunct1 [OF redis_reply_roundtrip [OF d _ _ _ _ _ _ _ c brep_inv [OF brep_new [of 8]]]])
       (simp_all add: raw_def LONG_MAX_def CR_def with_scores_def Let_def Buffer_new_def bulk_def CRLF_def dec_int_def dec_nat.simps)
  with c show ?thesis by (simp add: raw_def)
qed

text \<open>The parser rejects every complete request when errno is EINVAL on entry, because strtol does not
  reset it; and translating ZRANGE with a bound that is not a number leaves EINVAL behind. One bad
  ZRANGE makes the next valid request fail.\<close>

theorem redis_stale_errno_rejects:
  assumes "b_inv b" "b_contents b = redis_request args @ rest" "args \<noteq> []" "length args < 2 ^ 31"
  shows "\<exists>b'. parse_req EINVAL b = Inr (-1, [], EINVAL, b') \<and>
     snd (snd (convert_req score_of E_NONE ''zrange'' [''zrange'', ''k'', ''x'', ''1x''])) = EINVAL"
proof -
  let ?m = "b_buf b" and ?p = "b_data b" and ?h = "redis_head CHR ''*'' (length args)"
  let ?r = "concat (map redis_arg args)"
  have eq: "redis_request args @ rest = (?h @ [LF]) @ ?r @ rest" by (simp add: redis_request_def)
  have br: "brep b ((?h @ [LF]) @ ?r @ rest)" using assms(1,2) eq by (simp add: b_inv_def)
  have h: "holds ?m ?p (?h @ [LF])"
    using br holds_append [of ?m ?p "?h @ [LF]" "?r @ rest"] by (simp add: brep_def)
  have sz: "b_size b = int (length ?h) + 1 + int (length ?r) + int (length rest)"
    using br by (simp add: brep_def)
  have "holds ?m ?p (CHR ''*'' # dec_int (int (length args)) @ [CR] @ [LF])" using h by (simp add: redis_head_def)
  then have c: "mem_get ?m ?p = Inr CHR ''*''" using holds_ConsD mem_get_holds by blast
  obtain n where n: "nat (b_size b) = Suc n" "int (Suc n) = b_size b" using sz by (cases "nat (b_size b)") auto
  have sk: "skip_newlines ?m ?p (nat (b_size b)) 0 = Inr (?p, b_size b, 0)"
    using c n by (simp add: char_defs)
  have ne: "CHR ''*'' \<noteq> LF" by (simp add: LF_def)
  have lt: "int (length ?h) < b_size b" using sz by linarith
  have "parse_args ?m EINVAL ?p (b_size b) 0 0 [] = Inr (Parse_bad, EINVAL)"
    using head_line(1) [OF h ne lt assms(4)] head_line(2) [OF h ne lt assms(4), of EINVAL] lt
    by (subst parse_args.simps) (simp add: Let_def)
  then have "parse_req EINVAL b = Inr (-1, [], EINVAL, b)" using sk c by (simp add: parse_req_def)
  moreover have "snd (snd (convert_req score_of E_NONE ''zrange'' [''zrange'', ''k'', ''x'', ''1x''])) = EINVAL"
  proof -
    have "cmd_table ''zrange'' = Some (raw STRATEGY_ZRANGE ''zrange'' ''zrange'' REPLY_MULTI_BULK)"
      by (simp add: cmd_table_def cmds_raw_def raw_def)
    moreover have "str_to_int64 E_NONE ''x'' = (0, EINVAL)" "str_to_int64 EINVAL ''1x'' = (1, EINVAL)"
      by code_simp+
    ultimately show ?thesis
      by (simp add: convert_req_def convert_rank_range_def raw_def Let_def split: prod.split)
  qed
  ultimately show ?thesis by blast
qed

theorem redis_stale_errno_rejects_witness:
  "\<exists>b'. parse_req EINVAL (Buffer_wrap (redis_request [''PING''] @ [])) = Inr (-1, [], EINVAL, b') \<and>
     snd (snd (convert_req (\<lambda>_. 0) E_NONE ''zrange'' [''zrange'', ''k'', ''x'', ''1x''])) = EINVAL"
proof (rule redis_stale_errno_rejects)
  have l: "length (redis_request [''PING''] @ []) < 2 ^ 31"
    by (simp add: redis_request_def redis_arg_def redis_head_def dec_int_def dec_nat.simps)
  show "b_inv (Buffer_wrap (redis_request [''PING''] @ []))" by (rule brep_inv [OF brep_wrap [OF l]])
  show "b_contents (Buffer_wrap (redis_request [''PING''] @ [])) = redis_request [''PING''] @ []"
    by (rule brep_contents [OF brep_wrap [OF l]])
qed simp_all

text \<open>For a successful response that carries no value, RedisLink::send_resp prints a length line without a
  body for REPLY_BULK and REPLY_INT commands, and for (H)MGET with a malformed response a count
  without a line end; a client cannot read any of these replies.\<close>

theorem redis_empty_reply_malformed:
  assumes "req_desc rl = Some d" "strategy d \<noteq> STRATEGY_PING"
    "strategy d \<in> {STRATEGY_MGET, STRATEGY_HMGET} \<and> reply_type d = REPLY_MULTI_BULK \<and> resp = [''ok'', x] \<or>
     strategy d \<notin> {STRATEGY_MGET, STRATEGY_HMGET} \<and> reply_type d \<in> {REPLY_BULK, REPLY_INT} \<and> resp = [''ok'']"
  shows "\<exists>cs. resp_chunks rl resp = Inr cs \<and> parse_reply (concat cs) = None"
proof -
  have "resp_number (''0'' @ CRLF @ []) = Some (0, [])"
    by code_simp
  then have b: "parse_reply (''$0'' @ CRLF) = None" by (simp add: parse_reply_def resp_bulk_def)
  have m: "parse_reply ''*0'' = None" by code_simp
  show ?thesis using assms b m by (auto simp: resp_chunks_def Let_def)
qed

theorem redis_empty_reply_malformed_witness:
  "\<exists>cs. resp_chunks \<lparr>r_cmd = ''get'', req_desc = cmd_table ''get'', recv_bytes = [], recv_string = [''get'', ''k'']\<rparr> [''ok''] = Inr cs
     \<and> parse_reply (concat cs) = None"
  by (rule redis_empty_reply_malformed [where d = "raw STRATEGY_AUTO ''get'' ''get'' REPLY_BULK"])
     (simp_all add: cmd_table_def cmds_raw_def raw_def)

end
