(* ===== verification/Link.thy ===== *)
theory Link
  imports Link_Redis
begin

text \<open>
  The class Link of src/src/link.h and link.cpp: the connection record with its constructor and the
  registration of handlers, address handling, the parser msg_parse of length-prefixed frames whose
  payload is a protobuf message, and the SSDB text protocol (recv, send, response, request). The
  protobuf library is a parameter. The lemmas show that a frame and a packet are read back as they
  were written, and characterise is_ip.
\<close>

section \<open>Little-endian numbers\<close>

fun le_bytes :: "nat \<Rightarrow> nat \<Rightarrow> string" where
  "le_bytes 0 n = []"
| "le_bytes (Suc k) n = char_of (n mod 256) # le_bytes k (n div 256)"

lemma length_le_bytes [simp]: "length (le_bytes k n) = k"
  by (induction k arbitrary: n) simp_all

lemma le_val_le_bytes: "n < 256 ^ k \<Longrightarrow> le_val (le_bytes k n) = int n"
proof (induction k arbitrary: n)
  case (Suc k)
  have "n div 256 < 256 ^ k" using Suc.prems by (intro less_mult_imp_div_less) (simp add: mult.commute)
  with Suc.IH [of "n div 256"] show ?case by (simp add: zmod_int zdiv_int)
qed simp

section \<open>The connection record\<close>

datatype conn_t = REQ | ADMIN | PROP_T

datatype recv_handler = H_req_recv | H_rsp_recv | H_admin_replica_recv | H_replica_rsp_recv
datatype send_handler = H_rsp_send | H_req_send | H_replica_req_send

text \<open>
  What a Bytes or string pointer refers to: live characters, or an object that has been deleted.
\<close>

datatype field = Owned string | Freed

type_synonym mid = nat

record link =
  l_sock :: int
  l_noblock :: bool
  l_error :: bool
  l_recv_data :: "field list"
  l_redis :: "RedisLink option"
  l_datalet_conn :: "lid option"
  l_dumb_addr :: string
  l_remote_ip :: string
  l_remote_port :: int
  l_auth :: bool
  l_ignore_key_range :: bool
  l_type :: conn_t
  l_input :: "buffer option"
  l_output :: "buffer option"
  l_imsg_q :: "mid list"
  l_omsg_q :: "mid list"
  l_is_server :: bool
  l_is_master :: bool
  l_is_client :: bool
  l_number_slaves :: int
  l_weight :: int
  l_slave_number :: int
  l_head :: bool
  l_tail :: bool
  l_fwd_to_replicas :: bool
  l_key :: field
  l_cmnd :: field
  l_s_conn :: "lid option"
  l_recv_nw :: "recv_handler option"
  l_send_nw :: "send_handler option"
  l_kproducer :: bool
  l_conlock :: bool
  l_my_lock :: bool

text \<open>
  new Link(server): the members the constructor assigns. Every other number or flag keeps what the
  memory held, which is the argument junk; a pointer that is not assigned is None, False or Freed,
  so that following it is a fault. The containers are empty. The assignment is_server = is_server
  in the constructor assigns the parameter to itself.
\<close>

definition Link_new :: "bool \<Rightarrow> link \<Rightarrow> link" where
  "Link_new server junk =
     junk\<lparr>l_recv_data := [], l_dumb_addr := [], l_imsg_q := [], l_omsg_q := [],
          l_datalet_conn := None, l_key := Freed, l_cmnd := Freed, l_s_conn := None, l_recv_nw := None, l_send_nw := None,
          l_kproducer := False, l_conlock := False, l_my_lock := False,
          l_sock := -1, l_noblock := True, l_error := False, l_remote_ip := [], l_remote_port := -1,
          l_auth := False, l_ignore_key_range := False, l_redis := None, l_type := REQ, l_weight := 0,
          l_input := (if server then None else Some (Buffer_new (nat INIT_BUFFER_SIZE))),
          l_output := (if server then None else Some (Buffer_new (nat INIT_BUFFER_SIZE)))\<rparr>"

definition set_nw_func :: "link \<Rightarrow> link" where
  "set_nw_func l =
     (if \<not> l_is_server l then l\<lparr>l_recv_nw := Some H_req_recv, l_send_nw := Some H_rsp_send\<rparr>
      else l\<lparr>l_recv_nw := Some H_rsp_recv, l_send_nw := Some H_req_send\<rparr>)"

definition set_admin_func :: "link \<Rightarrow> link" where
  "set_admin_func l = l\<lparr>l_recv_nw := Some H_admin_replica_recv\<rparr>"

definition set_repl_func :: "link \<Rightarrow> link" where
  "set_repl_func l = l\<lparr>l_recv_nw := Some H_replica_rsp_recv, l_send_nw := Some H_replica_req_send\<rparr>"

definition set_server_conn :: "lid \<Rightarrow> link \<Rightarrow> link" where
  "set_server_conn conn l = l\<lparr>l_datalet_conn := Some conn\<rparr>"

definition get_server_conn :: "link \<Rightarrow> lid res" where
  "get_server_conn l = (case l_datalet_conn l of None \<Rightarrow> Inl Uninitialised | Some c \<Rightarrow> Inr c)"

definition mark_error :: "link \<Rightarrow> link" where
  "mark_error l = l\<lparr>l_error := True\<rparr>"

definition reset_error :: "link \<Rightarrow> link" where
  "reset_error l = l\<lparr>l_error := False\<rparr>"

definition clear_recv_data :: "link \<Rightarrow> link" where
  "clear_recv_data l = l\<lparr>l_recv_data := []\<rparr>"

section \<open>Addresses and sockets\<close>

fun is_ip_loop :: "string \<Rightarrow> int \<Rightarrow> int \<Rightarrow> bool" where
  "is_ip_loop [] dot_count digit_count = (dot_count = 3)"
| "is_ip_loop (c # s) dot_count digit_count =
     (if c = CHR ''.'' then
        (if digit_count \<ge> 1 \<and> digit_count \<le> 3 then is_ip_loop s (dot_count + 1) 0 else False)
      else if isdigit c then is_ip_loop s dot_count (digit_count + 1)
      else False)"

definition is_ip :: "string \<Rightarrow> bool" where
  "is_ip host = is_ip_loop host 0 0"

text \<open>
  The address connect uses: a name that is not an address is replaced by the first one the
  resolver gives. The port is cast to short and stored in 16 bits.
\<close>

definition target_addr :: "(string \<Rightarrow> string list) \<Rightarrow> string \<Rightarrow> int \<Rightarrow> string \<times> int" where
  "target_addr resolve host port =
     (if is_ip host then host else case resolve host of [] \<Rightarrow> host | ip # _ \<Rightarrow> ip, port mod 65536)"

text \<open>What socket and connect answer for an address: a descriptor, or a failure.\<close>

definition link_connect :: "(string \<Rightarrow> string list) \<Rightarrow> (string \<times> int \<Rightarrow> int option) \<Rightarrow> string \<Rightarrow> int \<Rightarrow> link \<Rightarrow> rstatus \<times> link" where
  "link_connect resolve net host port l =
     (case net (target_addr resolve host port) of
        None \<Rightarrow> (CO_ERR, l)
      | Some fd \<Rightarrow> (CO_OK, l\<lparr>l_sock := fd\<rparr>))"

definition alloc_and_connect :: "(string \<Rightarrow> string list) \<Rightarrow> (string \<times> int \<Rightarrow> int option) \<Rightarrow> link \<Rightarrow> string \<Rightarrow> int \<Rightarrow> link option" where
  "alloc_and_connect resolve net junk host port =
     (case net (target_addr resolve host port) of
        None \<Rightarrow> None
      | Some fd \<Rightarrow> Some ((Link_new False junk)\<lparr>l_sock := fd\<rparr>))"

text \<open>Link::listen: fd is the bound socket, or None when one of the calls failed.\<close>

definition link_listen :: "int option \<Rightarrow> link \<Rightarrow> string \<Rightarrow> int \<Rightarrow> link option" where
  "link_listen fd junk ip port =
     (case fd of
        None \<Rightarrow> None
      | Some s \<Rightarrow> Some ((Link_new True junk)\<lparr>l_sock := s, l_remote_ip := take 15 ip, l_remote_port := port\<rparr>))"

text \<open>The answers to successive accept calls.\<close>

datatype acc = Acc_conn int string int | Acc_EINTR | Acc_err

fun accept_loop :: "acc list \<Rightarrow> (int \<times> string \<times> int) option" where
  "accept_loop [] = None"
| "accept_loop (Acc_EINTR # as) = accept_loop as"
| "accept_loop (Acc_err # as) = None"
| "accept_loop (Acc_conn s ip port # as) = Some (s, ip, port)"

text \<open>
  Link::accept(conn) on the listening link: the new socket and port go to conn, the address of the
  peer to the listening link itself.
\<close>

definition link_accept :: "acc list \<Rightarrow> link \<Rightarrow> link \<Rightarrow> rstatus \<times> link \<times> link" where
  "link_accept as self conn =
     (case accept_loop as of
        None \<Rightarrow> (CO_ERR, self, conn)
      | Some (s, ip, port) \<Rightarrow> (CO_OK, self\<lparr>l_remote_ip := ip\<rparr>, conn\<lparr>l_sock := s, l_remote_port := port\<rparr>))"

definition alloc_and_accept :: "acc list \<Rightarrow> link \<Rightarrow> link option" where
  "alloc_and_accept as junk =
     (case accept_loop as of
        None \<Rightarrow> None
      | Some (s, ip, port) \<Rightarrow> Some ((Link_new False junk)\<lparr>l_sock := s, l_remote_ip := ip, l_remote_port := port\<rparr>))"

section \<open>Frames\<close>

definition MAGIC :: int where "MAGIC = 0x06121983"

text \<open>
  The command field of a frame as msg_parse stores it in recv_data. The three bytes of del are
  measured with strlen, so they are followed by whatever the memory holds up to a NUL.
\<close>

definition cmd_field :: "string \<Rightarrow> string \<Rightarrow> field list" where
  "cmd_field junk c =
     (if c = ''protoSpec.GetMessage'' then [Owned ''get'']
      else if c = ''protoSpec.PutMessage'' then [Owned ''set'']
      else if c = ''protoSpec.DelMessage'' then [Owned (''del'' @ junk)]
      else [])"

text \<open>
  The fields after the command: views into the strings of the Request object, which is deleted
  before msg_parse returns. A PutMessage whose payload does not parse fails a CHECK; put_ok is the
  result of ParseFromString.
\<close>

definition payload_fields :: "(string \<Rightarrow> bool) \<Rightarrow> string \<Rightarrow> string \<Rightarrow> field list res" where
  "payload_fields put_ok c payload =
     (if c = ''protoSpec.GetMessage'' then Inr [Freed]
      else if c = ''protoSpec.PutMessage'' then CHECK (put_ok payload) (Inr [Freed, Freed])
      else if c = ''protoSpec.DelMessage'' then Inr [Freed]
      else Inr [])"

definition read_u32 :: "cells \<Rightarrow> int \<Rightarrow> int res" where
  "read_u32 m p = rbind (mem_read m p 4) (\<lambda>s. Inr (le_val s))"

definition read_size_t :: "cells \<Rightarrow> int \<Rightarrow> int res" where
  "read_size_t m p = rbind (mem_read m p 8) (\<lambda>s. Inr (le_val s))"

definition msg_parse :: "(string \<Rightarrow> bool) \<Rightarrow> string \<Rightarrow> link \<Rightarrow> 'a buffer_scheme \<Rightarrow> (link \<times> 'a buffer_scheme) res" where
  "msg_parse put_ok junk l msg0 =
     (let hd_p = b_data msg0; m = b_buf msg0; msg = b_remember_sz (b_size msg0) msg0 in
      rbind (read_u32 m hd_p) (\<lambda>magic.
      CHECK (magic = MAGIC) (
      rbind (read_size_t m (hd_p + 4)) (\<lambda>totalSize.
      CHECK (totalSize < 1073741826) (
      rbind (read_size_t m (hd_p + 12)) (\<lambda>typeLen.
      CHECK (20 < totalSize) (
      rbind (mem_read m (hd_p + 20) typeLen) (\<lambda>c.
      CHECK (cmd_field junk c = [] \<or> l_recv_data l = []) (
      rbind (read_size_t m (hd_p + 20 + typeLen)) (\<lambda>dataLen.
      let ptr = hd_p + 28 + typeLen in
      CHECK (ptr - hd_p < totalSize) (
      CHECK ((ptr + dataLen - hd_p) mod 2 ^ 64 = totalSize) (
      rbind (mem_read m ptr dataLen) (\<lambda>payload.
      rbind (payload_fields put_ok c payload) (\<lambda>fs.
        Inr (l\<lparr>l_recv_data := l_recv_data l @ cmd_field junk c @ fs\<rparr>,
             b_decr (28 + typeLen + dataLen) msg)))))))))))))))"

definition link_parse :: "(string \<Rightarrow> bool) \<Rightarrow> string \<Rightarrow> link \<Rightarrow> 'a buffer_scheme \<Rightarrow> (link \<times> 'a buffer_scheme) res" where
  "link_parse put_ok junk l msg =
     (let l1 = l\<lparr>l_recv_data := []\<rparr>
      in if b_empty msg then Inr (l1, msg) else msg_parse put_ok junk l1 msg)"

section \<open>The SSDB protocol\<close>

definition MAX_PACKET_SIZE :: int where "MAX_PACKET_SIZE = 128 * 1024 * 1024"

text \<open>How the loop of recv ends: a packet with the bytes parsed, NULL, or not ready.\<close>

datatype recv_end = Recv_packet "string list" int | Recv_bad | Recv_more

text \<open>
  One record of a packet, from its length line at position h with sz bytes left: the loop stops, or
  goes on at a later position. head_len + body_len is computed as an int.
\<close>

datatype recv_step = Step_stop recv_end | Step_next int int int string

definition recv_tail :: "cells \<Rightarrow> int \<Rightarrow> int \<Rightarrow> int \<Rightarrow> string \<Rightarrow> recv_step res" where
  "recv_tail m h1 sz1 parsed1 arg =
     (if sz1 > 0 then
        rbind (mem_get m h1) (\<lambda>c.
        if c = LF then
          Inr (if parsed1 + 1 > MAX_PACKET_SIZE then Step_stop Recv_bad
               else Step_next (h1 + 1) (sz1 - 1) (parsed1 + 1) arg)
        else if sz1 > 1 \<and> c = CR then
          rbind (mem_get m (h1 + 1)) (\<lambda>c1.
          if c1 = LF then
            Inr (if parsed1 + 2 > MAX_PACKET_SIZE then Step_stop Recv_bad
                 else Step_next (h1 + 2) (sz1 - 2) (parsed1 + 2) arg)
          else Inr (Step_stop Recv_more))
        else Inr (Step_stop Recv_more))
      else Inr (Step_stop Recv_more))"

definition recv_record :: "cells \<Rightarrow> int \<Rightarrow> int \<Rightarrow> int \<Rightarrow> string list \<Rightarrow> recv_step res" where
  "recv_record m h sz parsed acc =
     rbind (mem_chr m h (nat sz) LF) (\<lambda>r.
     case r of
       None \<Rightarrow> Inr (Step_stop Recv_more)
     | Some l \<Rightarrow>
         (let body = l + 1; head_len = body - h in
          rbind (mem_get m h) (\<lambda>h0.
          if head_len = 1 \<or> (head_len = 2 \<and> h0 = CR) then Inr (Step_stop (Recv_packet acc (parsed + head_len)))
          else if schar h0 < 48 \<or> schar h0 > 57 then Inr (Step_stop Recv_bad)
          else if head_len > 19 then Inr (Step_stop Recv_bad)
          else rbind (mem_read m h (head_len - 1)) (\<lambda>head_str.
            let body_len = atoi head_str; t = to_int32 (head_len + body_len); sz1 = to_int32 (sz - t) in
            if body_len < 0 then Inr (Step_stop Recv_bad)
            else if sz1 < 0 then Inr (Step_stop Recv_more)
            else rbind (mem_read m body body_len) (\<lambda>arg. recv_tail m (h + t) sz1 (parsed + t) arg)))))"

text \<open>
  The loop while(size > 0). Every round that goes on consumes at least one byte, so the size it
  starts with is enough fuel (recv_loop_safe below).
\<close>

fun recv_loop :: "nat \<Rightarrow> cells \<Rightarrow> int \<Rightarrow> int \<Rightarrow> int \<Rightarrow> string list \<Rightarrow> recv_end option res" where
  "recv_loop 0 m h sz parsed acc = Inr (if sz > 0 then None else Some Recv_more)"
| "recv_loop (Suc n) m h sz parsed acc =
     (if sz > 0 then
        rbind (recv_record m h sz parsed acc) (\<lambda>s.
        case s of
          Step_stop e \<Rightarrow> Inr (Some e)
        | Step_next h' sz' parsed' arg \<Rightarrow> recv_loop n m h' sz' parsed' (acc @ [arg]))
      else Inr (Some Recv_more))"

text \<open>
  Link::recv on the input buffer: the outer None is the null pointer; the RedisLink is allocated
  on the first request of that protocol.
\<close>

definition link_recv :: "(string \<Rightarrow> int) \<Rightarrow> (nat \<Rightarrow> bool) \<Rightarrow> errno \<Rightarrow> RedisLink option \<Rightarrow> 'a buffer_scheme
    \<Rightarrow> (string list option \<times> RedisLink option \<times> errno \<times> 'a buffer_scheme) res" where
  "link_recv score_of ok e redis input =
     (if b_empty input then Inr (Some [], redis, e, input)
      else
        rbind (skip_newlines (b_buf input) (b_data input) (nat (b_size input)) 0) (\<lambda>(h, sz, parsed).
        rbind (mem_get (b_buf input) h) (\<lambda>c.
        if c = CHR ''*'' then
          rbind (recv_req score_of ok e (case redis of None \<Rightarrow> RedisLink_new | Some r \<Rightarrow> r) input) (\<lambda>(ret, rl, e', inp).
            Inr (ret, Some rl, e', inp))
        else
          rbind (recv_loop (nat sz) (b_buf input) h sz parsed []) (\<lambda>r.
          case r of
            None \<Rightarrow> Inl Diverges
          | Some (Recv_packet args n) \<Rightarrow> Inr (Some args, redis, e, b_decr n input)
          | Some Recv_bad \<Rightarrow> Inr (None, redis, e, input)
          | Some Recv_more \<Rightarrow>
              rbind (make_room ok input) (\<lambda>(good, inp). Inr (if good then Some [] else None, redis, e, inp))))))"

fun append_records :: "(nat \<Rightarrow> bool) \<Rightarrow> string list \<Rightarrow> 'a buffer_scheme \<Rightarrow> 'a buffer_scheme res" where
  "append_records ok [] b = Inr b"
| "append_records ok (x # xs) b = rbind (b_append_record ok (Bytes x) b) (\<lambda>(r, b'). append_records ok xs b')"

text \<open>Link::send for vectors of Bytes and for one to five Bytes arguments.\<close>

definition link_send :: "(nat \<Rightarrow> bool) \<Rightarrow> string list \<Rightarrow> 'a buffer_scheme \<Rightarrow> (int \<times> 'a buffer_scheme) res" where
  "link_send ok resp output =
     rbind (append_records ok resp output) (\<lambda>b. rbind (b_append_char ok LF b) (\<lambda>(r, b'). Inr (0, b')))"

text \<open>Link::send for a vector of strings sends nothing for an empty vector.\<close>

definition link_send_strings :: "(nat \<Rightarrow> bool) \<Rightarrow> string list \<Rightarrow> 'a buffer_scheme \<Rightarrow> (int \<times> 'a buffer_scheme) res" where
  "link_send_strings ok resp output = (if resp = [] then Inr (0, output) else link_send ok resp output)"

text \<open>
  Link::response: recv until a packet is there, reading more in between. The fuel bounds the
  number of rounds; None means it ran out.
\<close>

fun link_response :: "nat \<Rightarrow> (string \<Rightarrow> int) \<Rightarrow> (nat \<Rightarrow> bool) \<Rightarrow> bool \<Rightarrow> errno \<Rightarrow> RedisLink option \<Rightarrow> rd list \<Rightarrow> 'a buffer_scheme
    \<Rightarrow> (string list option \<times> RedisLink option \<times> errno \<times> rd list \<times> 'a buffer_scheme) option res" where
  "link_response 0 score_of ok noblock e redis rs input = Inr None"
| "link_response (Suc n) score_of ok noblock e redis rs input =
     rbind (link_recv score_of ok e redis input) (\<lambda>(ret, redis1, e1, inp1).
     case ret of
       None \<Rightarrow> Inr (Some (None, redis1, e1, rs, inp1))
     | Some [] \<Rightarrow>
         rbind (link_read ok noblock rs inp1) (\<lambda>(len, inp2, rs2).
         if len \<le> 0 then Inr (Some (None, redis1, e1, rs2, inp2))
         else link_response n score_of ok noblock e1 redis1 rs2 inp2)
     | Some resp \<Rightarrow> Inr (Some (Some resp, redis1, e1, rs, inp1)))"

text \<open>Link::request: send, flush, and wait for the response; None where flush or response do not return.\<close>

definition link_request :: "nat \<Rightarrow> (string \<Rightarrow> int) \<Rightarrow> (nat \<Rightarrow> bool) \<Rightarrow> bool \<Rightarrow> errno \<Rightarrow> RedisLink option \<Rightarrow> rd list \<Rightarrow> wr list
    \<Rightarrow> string list \<Rightarrow> 'a buffer_scheme \<Rightarrow> 'b buffer_scheme
    \<Rightarrow> (string list option \<times> string \<times> 'a buffer_scheme \<times> 'b buffer_scheme) option res" where
  "link_request n score_of ok noblock e redis rs ws args input output =
     rbind (link_send ok args output) (\<lambda>(r, out1).
     rbind (link_flush ok noblock ws 0 [] out1) (\<lambda>f.
     case f of
       None \<Rightarrow> Inr None
     | Some (len, out2, wire, ws') \<Rightarrow>
         if len = -1 then Inr (Some (None, wire, input, out2))
         else
           rbind (link_response n score_of ok noblock e redis rs input) (\<lambda>p.
           case p of
             None \<Rightarrow> Inr None
           | Some (resp, redis1, e1, rs', inp1) \<Rightarrow> Inr (Some (resp, wire, inp1, out2)))))"

section \<open>Packets are read back\<close>

definition packet :: "string list \<Rightarrow> string" where
  "packet xs = concat (map record_bytes xs) @ [LF]"

lemma holds_record:
  assumes "holds m h (record_bytes x)"
  shows "holds m h (dec_int (int (length x)) @ [LF])"
    "holds m (h + int (length (dec_int (int (length x)))) + 1) x"
    "holds m (h + int (length (dec_int (int (length x)))) + 1 + int (length x)) [LF]"
proof -
  let ?d = "dec_int (int (length x))"
  have "holds m h ((?d @ [LF]) @ x @ [LF])" using assms by (simp add: record_bytes_def)
  then show "holds m h (?d @ [LF])" "holds m (h + int (length ?d) + 1) x"
    "holds m (h + int (length ?d) + 1 + int (length x)) [LF]"
    using holds_append [of m h "?d @ [LF]" "x @ [LF]"] holds_append [of m "h + int (length ?d) + 1" x "[LF]"]
    by (simp_all add: ac_simps)
qed

lemma length_record: "length (record_bytes x) = length (dec_int (int (length x))) + length x + 2"
  by (simp add: record_bytes_def)

lemma recv_record_ok:
  assumes "holds m h (record_bytes x)" "length x < 2 ^ 30" "int (length (record_bytes x)) \<le> sz" "sz < 2 ^ 31"
    "parsed + int (length (record_bytes x)) \<le> MAX_PACKET_SIZE"
  shows "recv_record m h sz parsed acc
     = Inr (Step_next (h + int (length (record_bytes x))) (sz - int (length (record_bytes x))) (parsed + int (length (record_bytes x))) x)"
proof -
  let ?d = "dec_int (int (length x))"
  note hr = holds_record [OF assms(1)]
  have len: "length ?d \<le> 10" using length_dec_int_size assms(2) by simp
  obtain c cs where c: "?d = c # cs" "isdigit c" using hd_dec_int_nat by blast
  have "holds m h (c # cs @ [LF])" using hr(1) c(1) by simp
  then have g0: "mem_get m h = Inr c" using holds_ConsD mem_get_holds by blast
  have chr: "mem_chr m h (nat sz) LF = Inr (Some (h + int (length ?d)))"
    using mem_chr_holds [OF hr(1) LF_not_in_dec_int, of "nat sz"] assms(3) by (simp add: length_record)
  have rd: "mem_read m h (int (length ?d)) = Inr ?d"
    using hr(1) by (intro mem_read_holds) (simp add: holds_append)
  have at: "atoi ?d = int (length x)" using atoi_dec_int [of "int (length x)" "[]"] assms(2) by simp
  have t: "to_int32 (int (length ?d) + 1 + int (length x)) = int (length ?d) + 1 + int (length x)"
    using len assms(2) by (intro to_int32_id) auto
  have sz1: "to_int32 (sz - (int (length ?d) + 1 + int (length x))) = sz - (int (length ?d) + 1 + int (length x))"
    using assms(3,4) by (intro to_int32_id) (auto simp: length_record)
  have ne: "length ?d \<noteq> 0" "\<not> (length ?d = 1 \<and> c = CR)" using c by (auto simp: isdigit_def CR_def)
  note arg = mem_read_holds [OF hr(2)]
  note nl = mem_get_holds [OF hr(3)]
  show ?thesis
    using chr g0 schar_digit [OF c(2)] len rd at t sz1 ne arg nl assms(3,5)
    by (simp add: recv_record_def recv_tail_def Let_def length_record algebra_simps)
qed

lemma recv_record_end:
  assumes "holds m h [LF]" "0 < sz"
  shows "recv_record m h sz parsed acc = Inr (Step_stop (Recv_packet acc (parsed + 1)))"
proof -
  have "mem_chr m h (nat sz) LF = Inr (Some h)"
    using mem_chr_holds [of m h "[]" LF "nat sz"] assms by simp
  then show ?thesis using mem_get_holds [OF assms(1)] by (simp add: recv_record_def)
qed

lemma recv_loop_packet:
  assumes "holds m h (packet xs)" "int (length (packet xs)) \<le> sz" "sz < 2 ^ 31" "\<forall>x\<in>set xs. length x < 2 ^ 30"
    "parsed + int (length (packet xs)) \<le> MAX_PACKET_SIZE" "length xs < n"
  shows "recv_loop n m h sz parsed acc = Inr (Some (Recv_packet (acc @ xs) (parsed + int (length (packet xs)))))"
  using assms
proof (induction xs arbitrary: n h sz parsed acc)
  case Nil
  then obtain k where "n = Suc k" by (cases n) auto
  with Nil show ?case using recv_record_end [of m h sz] by (simp add: packet_def)
next
  case (Cons x xs)
  then obtain k where n: "n = Suc k" by (cases n) auto
  have eq: "packet (x # xs) = record_bytes x @ packet xs" by (simp add: packet_def)
  have h: "holds m h (record_bytes x)" "holds m (h + int (length (record_bytes x))) (packet xs)"
    using Cons.prems(1) unfolding eq holds_append by simp_all
  have l: "int (length (packet (x # xs))) = int (length (record_bytes x)) + int (length (packet xs))" unfolding eq by simp
  have r: "recv_record m h sz parsed acc
     = Inr (Step_next (h + int (length (record_bytes x))) (sz - int (length (record_bytes x))) (parsed + int (length (record_bytes x))) x)"
    using Cons.prems l by (intro recv_record_ok [OF h(1)]) auto
  have "recv_loop k m (h + int (length (record_bytes x))) (sz - int (length (record_bytes x))) (parsed + int (length (record_bytes x))) (acc @ [x])
      = Inr (Some (Recv_packet ((acc @ [x]) @ xs) (parsed + int (length (record_bytes x)) + int (length (packet xs)))))"
    using Cons.prems l n by (intro Cons.IH [OF h(2)]) auto
  moreover have "sz > 0" using Cons.prems(2) l length_record [of x] by linarith
  ultimately show ?case using r n l by simp
qed

lemma packet_length: "length xs < length (packet xs)"
  by (induction xs) (auto simp: packet_def record_bytes_def)

lemma link_recv_packet:
  assumes "brep b (packet xs @ rest)" "xs \<noteq> []" "int (length (packet xs)) \<le> MAX_PACKET_SIZE"
  shows "link_recv score_of ok e redis b = Inr (Some xs, redis, e, b_decr (int (length (packet xs))) b)"
proof -
  let ?m = "b_buf b" and ?p = "b_data b"
  have h: "holds ?m ?p (packet xs)" and sz: "b_size b = int (length (packet xs)) + int (length rest)"
    and tot: "b_size b < 2 ^ 31"
    using assms(1) brep_bounds [OF assms(1)] by (auto simp: brep_def holds_append)
  obtain y ys where xs: "xs = y # ys" using assms(2) by (cases xs) auto
  obtain c cs where c: "dec_int (int (length y)) = c # cs" "isdigit c" using hd_dec_int_nat by blast
  have "packet xs = c # (cs @ LF # y @ [LF] @ packet ys)" using c xs by (simp add: packet_def record_bytes_def)
  then have g: "mem_get ?m ?p = Inr c" using h holds_ConsD mem_get_holds by metis
  have cc: "c \<noteq> LF" "c \<noteq> CR" "c \<noteq> CHR ''*''" using c(2) by (auto simp: isdigit_def char_defs)
  obtain n where n: "nat (b_size b) = Suc n" "int (Suc n) = b_size b" using sz packet_length [of xs] by (cases "nat (b_size b)") auto
  have sk: "skip_newlines ?m ?p (nat (b_size b)) 0 = Inr (?p, b_size b, 0)" using g cc n by simp
  have small: "length x < 2 ^ 30" if "x \<in> set xs" for x
  proof -
    have "length x \<le> length (packet xs)"
      using that by (induction xs) (auto simp: packet_def record_bytes_def)
    then show ?thesis using assms(3) by (simp add: MAX_PACKET_SIZE_def)
  qed
  have "recv_loop (nat (b_size b)) ?m ?p (b_size b) 0 [] = Inr (Some (Recv_packet ([] @ xs) (0 + int (length (packet xs)))))"
    using assms(3) sz tot small packet_length [of xs] by (intro recv_loop_packet [OF h]) auto
  moreover have "\<not> b_empty b" using n by (simp add: b_empty_def)
  ultimately show ?thesis using sk g cc by (simp add: link_recv_def)
qed

lemma b_append_record_ok:
  assumes "brep b s" "\<forall>n. ok n" "b_data b + b_size b + int (length x) + 17 \<le> 2 ^ 30"
  shows "\<exists>r b'. b_append_record ok (Bytes x) b = Inr (r, b') \<and> brep b' (s @ record_bytes x) \<and> b_data b' = b_data b"
proof -
  have bd: "0 \<le> b_data b" "0 \<le> b_size b" using assms(1) brep_bounds [OF assms(1)] by (auto simp: brep_def)
  then have lx: "int (length x) < 2 ^ 30" using assms(3) by linarith
  have need: "to_int32 (16 + int (length x) + 1) = int (length x) + 17" using lx by (subst to_int32_id) auto
  obtain q c where q: "b_reserve ok (int (length x) + 17) b = (q, c)" by fastforce
  have q': q using b_reserve_ok [OF assms(1,2), of "int (length x) + 17"] assms(3) q by simp
  have "b_data c = b_data b" using b_reserve_grown [OF assms(1) q] by (simp add: grown_def)
  moreover obtain r b' where r: "b_append_record ok (Bytes x) b = Inr (r, b')"
    "(r = int (length (record_bytes x)) \<and> brep b' (s @ record_bytes x)) \<or> (r = -1 \<and> brep b' s)"
    using b_append_record_rep [OF assms(1), of x ok] lx by auto
  moreover have "b_data b' = b_data c \<and> r \<noteq> -1"
    using r(1) q q' need by (auto simp: b_append_record_def bytes_size_def Let_def rbind_eq_Inr)
  ultimately show ?thesis by auto
qed

lemma append_records_ok:
  assumes "brep b s" "\<forall>n. ok n" "b_data b + b_size b + int (length (concat (map record_bytes xs))) + 17 \<le> 2 ^ 30"
  shows "\<exists>b'. append_records ok xs b = Inr b' \<and> brep b' (s @ concat (map record_bytes xs)) \<and> b_data b' = b_data b"
  using assms(1,3)
proof (induction xs arbitrary: b s)
  case (Cons x xs)
  obtain r b1 where b1: "b_append_record ok (Bytes x) b = Inr (r, b1)" "brep b1 (s @ record_bytes x)" "b_data b1 = b_data b"
    using b_append_record_ok [OF Cons.prems(1) assms(2), of x] Cons.prems(2) by (auto simp: length_record)
  have "b_data b1 + b_size b1 + int (length (concat (map record_bytes xs))) + 17 \<le> 2 ^ 30"
    using Cons.prems b1 by (simp add: brep_def)
  from Cons.IH [OF b1(2) this] b1(1,3) show ?case by auto
qed simp

lemma link_send_ok:
  assumes "brep b s" "b_data b + b_size b + int (length (packet xs)) + 17 \<le> 2 ^ 30"
  shows "\<exists>b'. link_send (\<lambda>_. True) xs b = Inr (0, b') \<and> brep b' (s @ packet xs)"
proof -
  obtain b1 where b1: "append_records (\<lambda>_. True) xs b = Inr b1" "brep b1 (s @ concat (map record_bytes xs))" "b_data b1 = b_data b"
    using append_records_ok [OF assms(1), of "\<lambda>_. True" xs] assms(2) by (auto simp: packet_def)
  have "b_data b1 + b_size b1 + int (length [LF]) \<le> 2 ^ 30"
    using assms b1 by (simp add: brep_def packet_def)
  then obtain b2 where "b_append (\<lambda>_. True) [LF] b1 = Inr (int (length [LF]), b2)" "brep b2 ((s @ concat (map record_bytes xs)) @ [LF])"
    using b_append_ok [OF b1(2), of "\<lambda>_. True" "[LF]"] by auto
  with b1 show ?thesis by (simp add: link_send_def b_append_char_eq packet_def)
qed

section \<open>Reading a packet is safe on any input\<close>

lemma mem_read_bounds: "mem_read m i n = Inr s \<Longrightarrow> 0 \<le> i \<and> 0 \<le> n \<and> i + n \<le> int (length m)"
  by (auto simp: mem_read_def split: if_splits)

lemma to_int32_minus: "to_int32 (a - to_int32 b) = to_int32 (a - b)"
  by (simp add: to_int32_def)

lemma holds_take: "holds m h s \<Longrightarrow> holds m h (take k s)"
  using holds_append [of m h "take k s" "drop k s"] by simp

lemma holds_drop: "holds m h s \<Longrightarrow> k \<le> length s \<Longrightarrow> holds m (h + int k) (drop k s)"
  using holds_append [of m h "take k s" "drop k s"] by simp

lemma holds_slice: "holds m h s \<Longrightarrow> k + n \<le> length s \<Longrightarrow> holds m (h + int k) (take n (drop k s))"
  by (intro holds_take holds_drop) auto

lemma mem_get_in:
  assumes "holds m h s" "k < length s"
  shows "mem_get m (h + int k) = Inr (s ! k)"
proof -
  have "take 1 (drop k s) = [s ! k]" using assms(2) by (simp add: take_Suc_conv_app_nth hd_drop_conv_nth take_Suc)
  then show ?thesis using holds_slice [OF assms(1), of k 1] assms(2) mem_get_holds by simp
qed

lemma mem_read_in:
  assumes "holds m h s" "0 \<le> k" "0 \<le> n" "k + n \<le> int (length s)"
  shows "mem_read m (h + k) n = Inr (take (nat n) (drop (nat k) s))"
proof -
  have "nat k + nat n \<le> length s" using assms by auto
  moreover have "length (take (nat n) (drop (nat k) s)) = nat n" using assms by auto
  ultimately show ?thesis
    using mem_read_holds [OF holds_slice [OF assms(1), of "nat k" "nat n"]] assms(2,3) by simp
qed

lemma mem_chr_in:
  assumes "holds m h s"
  shows "\<exists>r. mem_chr m h (length s) c = Inr r"
proof (cases "c \<in> set s")
  case True
  then obtain u v where "s = u @ c # v" "c \<notin> set u" using split_list_first by metis
  then show ?thesis using mem_chr_holds [of m h u c "length s"] holds_append [of m h "u @ [c]" v] assms by auto
next
  case False
  then show ?thesis using mem_chr_none assms by blast
qed

lemma recv_tail_safe:
  assumes "0 \<le> sz1" "0 < sz1 \<Longrightarrow> \<exists>d. mem_get m h1 = Inr d" "1 < sz1 \<Longrightarrow> \<exists>d. mem_get m (h1 + 1) = Inr d"
  shows "\<exists>r. recv_tail m h1 sz1 p1 arg = Inr r \<and>
     (\<forall>h' sz' p' a. r = Step_next h' sz' p' a \<longrightarrow> (\<exists>j. 0 < j \<and> int j \<le> sz1 \<and> h' = h1 + int j \<and> sz' = sz1 - int j))"
proof -
  have "\<exists>j. 0 < j \<and> int j \<le> sz1 \<and> h1 + 1 = h1 + int j \<and> sz1 - 1 = sz1 - int j" if "0 < sz1"
    using that by (intro exI [of _ 1]) auto
  moreover have "\<exists>j. 0 < j \<and> int j \<le> sz1 \<and> h1 + 2 = h1 + int j \<and> sz1 - 2 = sz1 - int j" if "1 < sz1"
    using that by (intro exI [of _ 2]) auto
  ultimately show ?thesis using assms by (auto simp: recv_tail_def)
qed

lemma recv_record_safe:
  assumes "holds m h s" "s \<noteq> []" "length s < 2 ^ 31"
  shows "\<exists>r. recv_record m h (int (length s)) parsed acc = Inr r \<and>
     (\<forall>h' sz' p' a. r = Step_next h' sz' p' a \<longrightarrow> (\<exists>k. 0 < k \<and> k \<le> length s \<and> h' = h + int k \<and> sz' = int (length s) - int k))"
proof -
  obtain q where chr: "mem_chr m h (length s) LF = Inr q" using mem_chr_in [OF assms(1)] by blast
  obtain c where g0: "mem_get m h = Inr c" using mem_get_in [OF assms(1), of 0] assms(2) by auto
  show ?thesis
  proof (cases q)
    case None
    then show ?thesis using chr by (simp add: recv_record_def)
  next
    case (Some l)
    have l: "h \<le> l" "l < h + int (length s)" using mem_chr_bounds chr Some by blast+
    let ?hl = "l + 1 - h"
    obtain hs where hs: "mem_read m h (?hl - 1) = Inr hs"
      using mem_read_in [OF assms(1), of 0 "?hl - 1"] l by auto
    let ?bl = "atoi hs" and ?t = "to_int32 (?hl + atoi hs)"
    have bl: "?bl < 2 ^ 31" using to_int32_bounds by (simp add: atoi_def)
    show ?thesis
    proof (cases "?bl < 0 \<or> to_int32 (int (length s) - ?t) < 0 \<or> ?hl > 19")
      case True
      then show ?thesis using chr Some g0 hs by (auto simp: recv_record_def Let_def)
    next
      case False
      have "to_int32 (int (length s) - ?t) = int (length s) - (?hl + ?bl)"
        unfolding to_int32_minus using False l bl assms(3) by (intro to_int32_id) auto
      then have sz1: "to_int32 (int (length s) - ?t) = int (length s) - (?hl + ?bl)" "?hl + ?bl \<le> int (length s)"
        using False by auto
      have t: "?t = ?hl + ?bl" using sz1(2) assms(3) False l by (intro to_int32_id) auto
      obtain arg where arg: "mem_read m (l + 1) ?bl = Inr arg"
        using mem_read_in [OF assms(1), of ?hl ?bl] sz1(2) False l by (auto simp: algebra_simps)
      have g: "\<exists>d. mem_get m (h + ?t + int j) = Inr d" if "int j < int (length s) - (?hl + ?bl)" for j
        using mem_get_in [OF assms(1), of "nat (?hl + ?bl + int j)"] that False l unfolding t by (auto simp: add.assoc)
      have "\<exists>r. recv_tail m (h + ?t) (int (length s) - (?hl + ?bl)) (parsed + ?t) arg = Inr r \<and>
        (\<forall>h' sz' p' a. r = Step_next h' sz' p' a \<longrightarrow>
          (\<exists>j. 0 < j \<and> int j \<le> int (length s) - (?hl + ?bl) \<and> h' = h + ?t + int j \<and> sz' = int (length s) - (?hl + ?bl) - int j))"
        by (rule recv_tail_safe) (use sz1(2) g [of 0] g [of 1] in auto)
      then obtain r where r: "recv_tail m (h + ?t) (int (length s) - (?hl + ?bl)) (parsed + ?t) arg = Inr r"
        and nx: "\<And>h' sz' p' a. r = Step_next h' sz' p' a \<Longrightarrow>
          \<exists>j. 0 < j \<and> int j \<le> int (length s) - (?hl + ?bl) \<and> h' = h + ?t + int j \<and> sz' = int (length s) - (?hl + ?bl) - int j"
        by blast
      have nx': "\<exists>k. 0 < k \<and> k \<le> length s \<and> h' = h + int k \<and> sz' = int (length s) - int k"
        if nxt: "r = Step_next h' sz' p' a" for h' sz' p' a
      proof -
        obtain j where "0 < j" "int j \<le> int (length s) - (?hl + ?bl)" "h' = h + ?t + int j" "sz' = int (length s) - (?hl + ?bl) - int j"
          using nx [OF nxt] by blast
        moreover have "0 \<le> ?hl + ?bl" using False l by auto
        ultimately show ?thesis unfolding t by (intro exI [of _ "nat (?hl + ?bl) + j"]) auto
      qed
      have eq: "recv_record m h (int (length s)) parsed acc =
          (if ?hl = 1 \<or> (?hl = 2 \<and> c = CR) then Inr (Step_stop (Recv_packet acc (parsed + ?hl)))
           else if schar c < 48 \<or> schar c > 57 then Inr (Step_stop Recv_bad) else Inr r)"
        using chr Some g0 hs arg False r sz1(1) by (simp add: recv_record_def Let_def)
      show ?thesis unfolding eq using nx' by auto
    qed
  qed
qed

lemma recv_loop_safe:
  assumes "holds m h s" "length s < 2 ^ 31" "length s \<le> n"
  shows "\<exists>r. recv_loop n m h (int (length s)) parsed acc = Inr (Some r)"
  using assms
proof (induction n arbitrary: h s parsed acc)
  case (Suc n)
  show ?case
  proof (cases "s = []")
    case False
    obtain r where r: "recv_record m h (int (length s)) parsed acc = Inr r"
      and nx: "\<And>h' sz' p' a. r = Step_next h' sz' p' a \<Longrightarrow> \<exists>k. 0 < k \<and> k \<le> length s \<and> h' = h + int k \<and> sz' = int (length s) - int k"
      using recv_record_safe [OF Suc.prems(1) False Suc.prems(2)] by blast
    show ?thesis
    proof (cases r)
      case (Step_next h' sz' p' a)
      obtain k where k: "0 < k" "k \<le> length s" "h' = h + int k" "sz' = int (length s) - int k" using nx [OF Step_next] by blast
      have "\<exists>q. recv_loop n m h' (int (length (drop k s))) p' (acc @ [a]) = Inr (Some q)"
        unfolding k(3) by (rule Suc.IH [OF holds_drop [OF Suc.prems(1) k(2)]]) (use Suc.prems k in auto)
      moreover have "int (length (drop k s)) = sz'" using k by simp
      ultimately show ?thesis using r Step_next False by simp
    qed (use r False in simp)
  qed simp
qed simp

lemma skip_newlines_at:
  assumes "holds m p (nl @ c # s)" "set nl \<subseteq> {LF, CR}" "c \<notin> {LF, CR}"
  shows "skip_newlines m p (length (nl @ c # s)) n0 = Inr (p + int (length nl), int (length (c # s)), n0 + int (length nl))"
  using assms
proof (induction nl arbitrary: p n0)
  case Nil
  then show ?case using mem_get_in [of m p "c # s" 0] by simp
next
  case (Cons x nl)
  have h: "holds m p [x]" "holds m (p + 1) (nl @ c # s)"
    using Cons.prems(1) holds_append [of m p "[x]" "nl @ c # s"] by auto
  have "skip_newlines m (p + 1) (length (nl @ c # s)) (n0 + 1)
      = Inr (p + 1 + int (length nl), int (length (c # s)), n0 + 1 + int (length nl))"
    by (rule Cons.IH [OF h(2)]) (use Cons.prems in auto)
  then show ?case using mem_get_holds [OF h(1)] Cons.prems(2) by auto
qed

lemma make_room_safe:
  assumes "brep b s"
  shows "\<exists>good b'. make_room ok b = Inr (good, b') \<and> brep b' s"
proof -
  obtain b1 where b1: "b_nice b = Inr b1" "brep b1 s" using b_nice_rep [OF assms] by blast
  obtain r b2 where b2: "b_grow ok b1 = (r, b2)" by fastforce
  have "brep b2 s" using grown_brep [OF b_grow_grown [OF b1(2) b2] b1(2)] .
  then show ?thesis using assms b1 b2 by (auto simp: make_room_def)
qed

section \<open>Frames are read back\<close>

definition frame :: "string \<Rightarrow> string \<Rightarrow> string" where
  "frame c p = le_bytes 4 (nat MAGIC) @ le_bytes 8 (28 + length c + length p) @ le_bytes 8 (length c)
               @ c @ le_bytes 8 (length p) @ p"

lemma length_frame: "length (frame c p) = 28 + length c + length p"
  by (simp add: frame_def)

text \<open>The pieces of a frame in memory.\<close>

lemma holds_frame:
  assumes "holds m h (frame c p)"
  shows "holds m h (le_bytes 4 (nat MAGIC))" "holds m (h + 4) (le_bytes 8 (28 + length c + length p))"
    "holds m (h + 12) (le_bytes 8 (length c))" "holds m (h + 20) c"
    "holds m (h + 20 + int (length c)) (le_bytes 8 (length p))" "holds m (h + 28 + int (length c)) p"
  using assms unfolding frame_def holds_append by (simp_all add: ac_simps)

lemma read_u32_holds: "holds m i (le_bytes 4 n) \<Longrightarrow> n < 256 ^ 4 \<Longrightarrow> read_u32 m i = Inr (int n)"
  using mem_read_holds [of m i "le_bytes 4 n"] le_val_le_bytes [of n 4] by (simp add: read_u32_def)

lemma read_size_t_holds: "holds m i (le_bytes 8 n) \<Longrightarrow> n < 256 ^ 8 \<Longrightarrow> read_size_t m i = Inr (int n)"
  using mem_read_holds [of m i "le_bytes 8 n"] le_val_le_bytes [of n 8] by (simp add: read_size_t_def)

lemma msg_parse_frame_eq:
  assumes "brep b (frame c p @ rest)" "l_recv_data l = []" "length (frame c p) < 1073741826" "p \<noteq> []"
  shows "msg_parse put_ok junk l b
     = rbind (payload_fields put_ok c p) (\<lambda>fs.
         Inr (l\<lparr>l_recv_data := cmd_field junk c @ fs\<rparr>, b_decr (int (length (frame c p))) (b_remember_sz (b_size b) b)))"
proof -
  have h: "holds (b_buf b) (b_data b) (frame c p)" using assms(1) by (simp add: brep_def holds_append)
  note hf = holds_frame [OF h]
  have small: "28 + length c + length p < 1073741826" using assms(3) by (simp add: length_frame)
  have "read_u32 (b_buf b) (b_data b) = Inr MAGIC"
    using read_u32_holds [OF hf(1)] by (simp add: MAGIC_def)
  moreover have "read_size_t (b_buf b) (b_data b + 4) = Inr (int (28 + length c + length p))"
    "read_size_t (b_buf b) (b_data b + 12) = Inr (int (length c))"
    "read_size_t (b_buf b) (b_data b + 20 + int (length c)) = Inr (int (length p))"
    using read_size_t_holds [OF hf(2)] read_size_t_holds [OF hf(3)] read_size_t_holds [OF hf(5)] small by auto
  moreover have "mem_read (b_buf b) (b_data b + 20) (int (length c)) = Inr c"
    "mem_read (b_buf b) (b_data b + 28 + int (length c)) (int (length p)) = Inr p"
    using mem_read_holds [OF hf(4)] mem_read_holds [OF hf(6)] by auto
  moreover have "int (28 + length c + length p) mod 2 ^ 64 = int (28 + length c + length p)"
    using small by (intro mod_pos_pos_trivial) auto
  ultimately show ?thesis
    using assms(2,4) small
    by (simp add: msg_parse_def Let_def length_frame algebra_simps)
qed

section \<open>Truncated frames\<close>

text \<open>Memory that was never written beyond the window of the buffer, as after msg_read.\<close>

definition fresh_after :: "'a buffer_scheme \<Rightarrow> bool" where
  "fresh_after b \<longleftrightarrow> set (drop (nat (b_data b + b_size b)) (b_buf b)) \<subseteq> {None}"

lemma mem_read_beyond:
  assumes "brep b s" "fresh_after b" "b_data b \<le> i" "b_data b + int (length s) < i + n" "0 < n"
  shows "\<exists>f. mem_read (b_buf b) i n = Inl f"
proof (rule ccontr)
  let ?m = "b_buf b" and ?e = "nat (b_data b + b_size b)"
  assume "\<nexists>f. mem_read ?m i n = Inl f"
  then obtain t where t: "mem_read ?m i n = Inr t" by (cases "mem_read ?m i n") auto
  note bd = mem_read_bounds [OF t]
  have nn: "None \<notin> set (take (nat n) (drop (nat i) ?m))"
    using t by (auto simp: mem_read_def Let_def split: if_splits)
  have e: "0 \<le> b_data b" "b_size b = int (length s)" using assms(1) brep_bounds [OF assms(1)] by (auto simp: brep_def)
  define j where "j = max (nat i) ?e"
  have j: "nat i \<le> j" "?e \<le> j" "j < nat i + nat n" "j < length ?m"
    using assms(3-5) e bd by (auto simp: j_def)
  have "?m ! j = drop ?e ?m ! (j - ?e)" using j by simp
  moreover have "drop ?e ?m ! (j - ?e) \<in> set (drop ?e ?m)" using j by (intro nth_mem) auto
  ultimately have "?m ! j = None" using assms(2) by (auto simp: fresh_after_def)
  moreover have "?m ! j = take (nat n) (drop (nat i) ?m) ! (j - nat i)" using j by simp
  moreover have "take (nat n) (drop (nat i) ?m) ! (j - nat i) \<in> set (take (nat n) (drop (nat i) ?m))"
    using j by (intro nth_mem) auto
  ultimately show False using nn by simp
qed

lemma holds_prefix: "holds m h (take k s) \<Longrightarrow> s = u @ v \<Longrightarrow> length u \<le> k \<Longrightarrow> holds m h u"
  using holds_append [of m h u "take (k - length u) v"] by simp

lemma holds_middle:
  assumes "holds m h (take k s)" "s = u @ v @ w" "length u + length v \<le> k"
  shows "holds m (h + int (length u)) v"
proof -
  have "holds m h (u @ v)" using holds_prefix [OF assms(1), of "u @ v" w] assms(2,3) by simp
  then show ?thesis by (simp add: holds_append)
qed

lemma msg_parse_truncated:
  assumes "brep b (take k (frame c p))" "fresh_after b" "k < length (frame c p)" "length (frame c p) < 1073741826"
  shows "\<exists>f. msg_parse put_ok junk l b = Inl f"
proof -
  let ?m = "b_buf b" and ?h = "b_data b"
  have tk: "length (take k (frame c p)) = k" using assms(3) by simp
  have h: "holds ?m ?h (take k (frame c p))" using assms(1) by (simp add: brep_def)
  have small: "28 + length c + length p < 1073741826" using assms(4) by (simp add: length_frame)
  have beyond: "\<exists>f. mem_read ?m (?h + o') n = Inl f" if "0 \<le> o'" "int k < o' + n" "0 < n" for o' n
    using mem_read_beyond [OF assms(1,2), of "?h + o'" n] that tk by simp
  have f1: "frame c p = le_bytes 4 (nat MAGIC) @ (le_bytes 8 (28 + length c + length p) @ le_bytes 8 (length c) @ c @ le_bytes 8 (length p) @ p)"
    by (simp add: frame_def)
  have f2: "frame c p = le_bytes 4 (nat MAGIC) @ le_bytes 8 (28 + length c + length p) @ (le_bytes 8 (length c) @ c @ le_bytes 8 (length p) @ p)"
    by (simp add: frame_def)
  have f3: "frame c p = (le_bytes 4 (nat MAGIC) @ le_bytes 8 (28 + length c + length p)) @ le_bytes 8 (length c) @ (c @ le_bytes 8 (length p) @ p)"
    by (simp add: frame_def)
  have f4: "frame c p = (le_bytes 4 (nat MAGIC) @ le_bytes 8 (28 + length c + length p) @ le_bytes 8 (length c)) @ c @ (le_bytes 8 (length p) @ p)"
    by (simp add: frame_def)
  have f5: "frame c p = (le_bytes 4 (nat MAGIC) @ le_bytes 8 (28 + length c + length p) @ le_bytes 8 (length c) @ c) @ le_bytes 8 (length p) @ p"
    by (simp add: frame_def)
  have r1: "read_u32 ?m ?h = Inr MAGIC" if "4 \<le> k"
    using read_u32_holds [OF holds_prefix [OF h f1]] that by (simp add: MAGIC_def)
  have r2: "read_size_t ?m (?h + 4) = Inr (int (28 + length c + length p))" if "12 \<le> k"
    using read_size_t_holds holds_middle [OF h f2] that small by simp
  have r3: "read_size_t ?m (?h + 12) = Inr (int (length c))" if "20 \<le> k"
    using read_size_t_holds holds_middle [OF h f3] that small by simp
  have r4: "mem_read ?m (?h + 20) (int (length c)) = Inr c" if "20 + length c \<le> k"
    using mem_read_holds holds_middle [OF h f4] that by simp
  have r5: "read_size_t ?m (?h + 20 + int (length c)) = Inr (int (length p))" if "28 + length c \<le> k"
    using read_size_t_holds holds_middle [OF h f5] that small by (simp add: add.assoc)
  have k: "int k < 28 + int (length c) + int (length p)" using assms(3) by (simp add: length_frame)
  consider "k < 4" | "4 \<le> k" "k < 12" | "12 \<le> k" "k < 20" | "20 \<le> k" "k < 20 + length c"
    | "20 + length c \<le> k" "k < 28 + length c" | "28 + length c \<le> k" by linarith
  then show ?thesis
  proof cases
    case 1
    then show ?thesis using beyond [of 0 4] by (auto simp: msg_parse_def Let_def read_u32_def)
  next
    case 2
    then show ?thesis using beyond [of 4 8] r1 by (auto simp: msg_parse_def Let_def read_size_t_def)
  next
    case 3
    then show ?thesis using beyond [of 12 8] r1 r2 small
      by (auto simp: msg_parse_def Let_def read_size_t_def [of _ "?h + 12"])
  next
    case 4
    then have "c \<noteq> []" by auto
    with 4 show ?thesis using beyond [of 20 "int (length c)"] r1 r2 r3 small by (auto simp: msg_parse_def Let_def)
  next
    case 5
    then have "\<exists>f. read_size_t ?m (?h + 20 + int (length c)) = Inl f"
      using beyond [of "20 + int (length c)" 8] by (auto simp: read_size_t_def add.assoc)
    with 5 show ?thesis using r1 r2 r3 r4 small by (auto simp: msg_parse_def Let_def CHECK_def)
  next
    case 6
    then have "0 < int (length p)" using k by linarith
    then have "\<exists>f. mem_read ?m (?h + 28 + int (length c)) (int (length p)) = Inl f"
      using beyond [of "28 + int (length c)" "int (length p)"] k by (auto simp: add.assoc)
    with 6 show ?thesis using r1 r2 r3 r4 r5 small by (auto simp: msg_parse_def Let_def CHECK_def)
  qed
qed

section \<open>Addresses\<close>

lemma is_ip_loop_bound: "is_ip_loop s k n \<Longrightarrow> k \<le> 3"
  by (induction s k n rule: is_ip_loop.induct) (auto split: if_splits)

lemma is_ip_loop_digits:
  "(\<forall>c\<in>set ds. isdigit c) \<Longrightarrow> is_ip_loop (ds @ s) k n = is_ip_loop s k (n + int (length ds))"
  by (induction ds arbitrary: n) (auto simp: isdigit_def add.assoc)

text \<open>One component of an address: its digits up to the end or to the next dot.\<close>

lemma is_ip_loop_step:
  "is_ip_loop s k 0 \<longleftrightarrow> (\<exists>ds. set ds \<subseteq> {c. isdigit c} \<and>
     (s = ds \<and> k = 3 \<or> (\<exists>r. s = ds @ CHR ''.'' # r \<and> ds \<noteq> [] \<and> length ds \<le> 3 \<and> is_ip_loop r (k + 1) 0)))"
proof
  let ?ds = "takeWhile isdigit s"
  have d: "\<forall>c\<in>set ?ds. isdigit c" by (auto dest: set_takeWhileD)
  assume i: "is_ip_loop s k 0"
  then have i': "is_ip_loop (dropWhile isdigit s) k (int (length ?ds))"
    using is_ip_loop_digits [OF d, of "dropWhile isdigit s" k 0] by simp
  show "\<exists>ds. set ds \<subseteq> {c. isdigit c} \<and>
     (s = ds \<and> k = 3 \<or> (\<exists>r. s = ds @ CHR ''.'' # r \<and> ds \<noteq> [] \<and> length ds \<le> 3 \<and> is_ip_loop r (k + 1) 0))"
  proof (cases "dropWhile isdigit s")
    case Nil
    then have "s = ?ds" by (metis append_Nil2 takeWhile_dropWhile_id)
    moreover have "k = 3" using i' Nil by simp
    ultimately show ?thesis using d by (intro exI [of _ ?ds]) auto
  next
    case (Cons c r)
    have nd: "\<not> isdigit c" using set_dropWhile_head [OF Cons] .
    have "c = CHR ''.''" "1 \<le> int (length ?ds)" "int (length ?ds) \<le> 3" "is_ip_loop r (k + 1) 0"
      using i' nd unfolding Cons by (auto split: if_splits)
    moreover have "s = ?ds @ c # r" using Cons by (metis takeWhile_dropWhile_id)
    moreover have "?ds \<noteq> []" using \<open>1 \<le> int (length ?ds)\<close> by fastforce
    ultimately show ?thesis using d by (intro exI [of _ ?ds]) auto
  qed
next
  assume "\<exists>ds. set ds \<subseteq> {c. isdigit c} \<and>
     (s = ds \<and> k = 3 \<or> (\<exists>r. s = ds @ CHR ''.'' # r \<and> ds \<noteq> [] \<and> length ds \<le> 3 \<and> is_ip_loop r (k + 1) 0))"
  then obtain ds where ds: "\<forall>c\<in>set ds. isdigit c" and
    alt: "s = ds \<and> k = 3 \<or> (\<exists>r. s = ds @ CHR ''.'' # r \<and> ds \<noteq> [] \<and> length ds \<le> 3 \<and> is_ip_loop r (k + 1) 0)"
    by blast
  from alt show "is_ip_loop s k 0"
  proof (elim disjE exE conjE)
    assume "s = ds" "k = 3"
    then show ?thesis using is_ip_loop_digits [OF ds, of "[]" 3 0] by simp
  next
    fix r assume "s = ds @ CHR ''.'' # r" "ds \<noteq> []" "length ds \<le> 3" "is_ip_loop r (k + 1) 0"
    then show ?thesis using is_ip_loop_digits [OF ds, of "CHR ''.'' # r" k 0] by (cases ds) auto
  qed
qed

section \<open>Properties\<close>

text \<open>A connection before anything happened on it, for the examples.\<close>

definition blank_link :: link where
  "blank_link = \<lparr>l_sock = -1, l_noblock = True, l_error = False, l_recv_data = [], l_redis = None, l_datalet_conn = None,
     l_dumb_addr = [], l_remote_ip = [], l_remote_port = -1, l_auth = False, l_ignore_key_range = False, l_type = REQ,
     l_input = None, l_output = None, l_imsg_q = [], l_omsg_q = [], l_is_server = False, l_is_master = False,
     l_is_client = False, l_number_slaves = 0, l_weight = 0, l_slave_number = 0, l_head = False, l_tail = False,
     l_fwd_to_replicas = False, l_key = Freed, l_cmnd = Freed, l_s_conn = None, l_recv_nw = None, l_send_nw = None,
     l_kproducer = False, l_conlock = False, l_my_lock = False\<rparr>"

text \<open>C25: A packet written by Link::send is read back by Link::recv: after sending xs into a buffer with
  contents s, the contents are s followed by the packet, and a buffer whose contents start with
  that packet yields exactly xs and keeps exactly the bytes behind it.\<close>

theorem ssdb_send_recv:
  assumes "b_inv out" "b_data out + b_size out + int (length (packet xs)) + 17 \<le> 2 ^ 30"
    "xs \<noteq> []" "int (length (packet xs)) \<le> MAX_PACKET_SIZE" "b_inv inp" "b_contents inp = packet xs @ rest"
  shows "(\<exists>out'. link_send (\<lambda>_. True) xs out = Inr (0, out') \<and> b_inv out' \<and> b_contents out' = b_contents out @ packet xs)
     \<and> (\<exists>inp'. link_recv score_of ok e redis inp = Inr (Some xs, redis, e, inp') \<and> b_inv inp' \<and> b_contents inp' = rest)"
proof
  have "brep out (b_contents out)" using assms(1) by (simp add: b_inv_def)
  from link_send_ok [OF this assms(2)]
  show "\<exists>out'. link_send (\<lambda>_. True) xs out = Inr (0, out') \<and> b_inv out' \<and> b_contents out' = b_contents out @ packet xs"
    using brep_inv brep_contents by blast
  have r: "brep inp (packet xs @ rest)" using assms(5,6) by (simp add: b_inv_def)
  have "brep (b_decr (int (length (packet xs))) inp) rest" using brep_decr [OF r, of "int (length (packet xs))"] by simp
  then show "\<exists>inp'. link_recv score_of ok e redis inp = Inr (Some xs, redis, e, inp') \<and> b_inv inp' \<and> b_contents inp' = rest"
    using link_recv_packet [OF r assms(3,4)] brep_inv brep_contents by blast
qed

theorem ssdb_send_recv_witness:
  "(\<exists>out'. link_send (\<lambda>_. True) [''get'', ''k''] (Buffer_new 8) = Inr (0, out') \<and> b_inv out' \<and>
       b_contents out' = b_contents (Buffer_new 8) @ packet [''get'', ''k''])
   \<and> (\<exists>inp'. link_recv (\<lambda>_. 0) (\<lambda>_. True) E_NONE None (Buffer_wrap (packet [''get'', ''k''] @ ''3'')) = Inr (Some [''get'', ''k''], None, E_NONE, inp') \<and>
       b_inv inp' \<and> b_contents inp' = ''3'')"
proof (rule ssdb_send_recv)
  have l: "length (packet [''get'', ''k''] @ ''3'') < 2 ^ 31"
    by (simp add: packet_def record_bytes_def dec_int_def dec_nat.simps)
  show "b_inv (Buffer_new 8)" by (rule brep_inv [OF brep_new]) simp
  show "b_data (Buffer_new 8) + b_size (Buffer_new 8) + int (length (packet [''get'', ''k''])) + 17 \<le> 2 ^ 30"
    by (simp add: Buffer_new_def packet_def record_bytes_def dec_int_def dec_nat.simps)
  show "int (length (packet [''get'', ''k''])) \<le> MAX_PACKET_SIZE"
    by (simp add: MAX_PACKET_SIZE_def packet_def record_bytes_def dec_int_def dec_nat.simps)
  show "b_inv (Buffer_wrap (packet [''get'', ''k''] @ ''3''))" by (rule brep_inv [OF brep_wrap [OF l]])
  show "b_contents (Buffer_wrap (packet [''get'', ''k''] @ ''3'')) = packet [''get'', ''k''] @ ''3''"
    by (rule brep_contents [OF brep_wrap [OF l]])
qed simp

text \<open>C27: Link::parse on a buffer that starts with a complete frame stores the command and one field per key
  and value, consumes exactly the frame, and size_diff is then the length of the frame, which is
  what req_recv copies into the forwarded request.\<close>

theorem parse_consumes_frame:
  assumes "b_inv b" "b_contents b = frame c p @ rest" "length (frame c p) < 1073741826" "p \<noteq> []"
    "payload_fields put_ok c p = Inr fs"
  shows "\<exists>b'. link_parse put_ok junk l b = Inr (l\<lparr>l_recv_data := cmd_field junk c @ fs\<rparr>, b') \<and> b_inv b' \<and>
     b_contents b' = rest \<and> b_size_diff b' = Inr (int (length (frame c p)))"
proof -
  have r: "brep b (frame c p @ rest)" using assms(1,2) by (simp add: b_inv_def)
  let ?b' = "b_decr (int (length (frame c p))) (b_remember_sz (b_size b) b)"
  have r': "brep (b_remember_sz (b_size b) b) (frame c p @ rest)" using r by (simp add: brep_def b_remember_sz_def)
  have "brep ?b' rest" using brep_decr [OF r', of "int (length (frame c p))"] by simp
  moreover have "\<not> b_empty b" using r by (simp add: brep_def b_empty_def length_frame)
  then have "link_parse put_ok junk l b = Inr (l\<lparr>l_recv_data := cmd_field junk c @ fs\<rparr>, ?b')"
    using msg_parse_frame_eq [OF r _ assms(3,4), of "l\<lparr>l_recv_data := []\<rparr>" put_ok junk] assms(5) by (simp add: link_parse_def)
  moreover have "b_size_diff ?b' = Inr (int (length (frame c p)))"
    using r by (simp add: b_size_diff_def b_decr_def b_remember_sz_def brep_def)
  ultimately show ?thesis using brep_inv brep_contents by blast
qed

theorem parse_consumes_frame_witness:
  "\<exists>b'. link_parse (\<lambda>_. True) [] blank_link (Buffer_wrap (frame ''protoSpec.GetMessage'' ''pb'' @ ''x''))
        = Inr (blank_link\<lparr>l_recv_data := cmd_field [] ''protoSpec.GetMessage'' @ [Freed]\<rparr>, b') \<and> b_inv b' \<and>
     b_contents b' = ''x'' \<and> b_size_diff b' = Inr (int (length (frame ''protoSpec.GetMessage'' ''pb'')))"
proof (rule parse_consumes_frame)
  have l: "length (frame ''protoSpec.GetMessage'' ''pb'' @ ''x'') < 2 ^ 31" by (simp add: length_frame)
  show "b_inv (Buffer_wrap (frame ''protoSpec.GetMessage'' ''pb'' @ ''x''))" by (rule brep_inv [OF brep_wrap [OF l]])
  show "b_contents (Buffer_wrap (frame ''protoSpec.GetMessage'' ''pb'' @ ''x'')) = frame ''protoSpec.GetMessage'' ''pb'' @ ''x''"
    by (rule brep_contents [OF brep_wrap [OF l]])
qed (simp_all add: length_frame payload_fields_def)



text \<open>Is_ip accepts exactly the strings of four dot-separated digit groups of which the first three have
  one to three digits. The last group is not checked: it may be empty or of any length.\<close>

theorem is_ip_iff:
  "is_ip host \<longleftrightarrow> (\<exists>a b c d. host = a @ ''.'' @ b @ ''.'' @ c @ ''.'' @ d \<and>
     set (a @ b @ c @ d) \<subseteq> {x. isdigit x} \<and>
     length a \<in> {1..3} \<and> length b \<in> {1..3} \<and> length c \<in> {1..3})"
proof
  assume "is_ip host"
  then have "is_ip_loop host 0 0" by (simp add: is_ip_def)
  then obtain a r1 where a: "host = a @ CHR ''.'' # r1" "set a \<subseteq> {x. isdigit x}" "a \<noteq> []" "length a \<le> 3" "is_ip_loop r1 1 0"
    by (subst (asm) is_ip_loop_step) auto
  then obtain b r2 where b: "r1 = b @ CHR ''.'' # r2" "set b \<subseteq> {x. isdigit x}" "b \<noteq> []" "length b \<le> 3" "is_ip_loop r2 2 0"
    by (subst (asm) is_ip_loop_step [of r1]) auto
  then obtain c d where c: "r2 = c @ CHR ''.'' # d" "set c \<subseteq> {x. isdigit x}" "c \<noteq> []" "length c \<le> 3" "is_ip_loop d 3 0"
    by (subst (asm) is_ip_loop_step [of r2]) auto
  have "set d \<subseteq> {x. isdigit x}"
    using c(5) is_ip_loop_bound by (subst (asm) is_ip_loop_step) fastforce
  with a b c show "\<exists>a b c d. host = a @ ''.'' @ b @ ''.'' @ c @ ''.'' @ d \<and> set (a @ b @ c @ d) \<subseteq> {x. isdigit x} \<and>
     length a \<in> {1..3} \<and> length b \<in> {1..3} \<and> length c \<in> {1..3}"
    by (intro exI [of _ a] exI [of _ b] exI [of _ c] exI [of _ d]) (auto simp: Suc_le_eq)
next
  assume "\<exists>a b c d. host = a @ ''.'' @ b @ ''.'' @ c @ ''.'' @ d \<and> set (a @ b @ c @ d) \<subseteq> {x. isdigit x} \<and>
     length a \<in> {1..3} \<and> length b \<in> {1..3} \<and> length c \<in> {1..3}"
  then obtain a b c d where h: "host = a @ CHR ''.'' # b @ CHR ''.'' # c @ CHR ''.'' # d"
    "set a \<subseteq> {x. isdigit x}" "set b \<subseteq> {x. isdigit x}" "set c \<subseteq> {x. isdigit x}" "set d \<subseteq> {x. isdigit x}"
    "length a \<in> {1..3}" "length b \<in> {1..3}" "length c \<in> {1..3}" by auto
  have "is_ip_loop d 3 0" using h(5) by (subst is_ip_loop_step) blast
  then have "is_ip_loop (c @ CHR ''.'' # d) 2 0" using h(4,8) by (subst is_ip_loop_step) (fastforce simp: Suc_le_eq)
  then have "is_ip_loop (b @ CHR ''.'' # c @ CHR ''.'' # d) 1 0" using h(3,7) by (subst is_ip_loop_step) (fastforce simp: Suc_le_eq)
  then have "is_ip_loop host 0 0" using h(1,2,6) by (subst is_ip_loop_step) (fastforce simp: Suc_le_eq)
  then show "is_ip host" by (simp add: is_ip_def)
qed



end
