(* ===== verification/Fde.thy ===== *)
theory Fde
  imports C_Lib
begin

text \<open>
  The event registry Fdevents of src/src/fde.h and fde.cpp with its two back ends fde_epoll.cpp and
  fde_select.cpp: one Fdevent per file descriptor with the subscribed flags, mirrored in the
  interest list of epoll or in the two fd_sets of select. The interface fd_events states how set,
  clr and del change the subscriptions and is interpreted on both back ends; the mirrors are shown
  to agree with the flags.
\<close>

unbundle bit_operations_syntax

section \<open>Fdevent\<close>

definition FDEVENT_NONE :: int where "FDEVENT_NONE = 0"
definition FDEVENT_IN :: int where "FDEVENT_IN = 1"
definition FDEVENT_PRI :: int where "FDEVENT_PRI = 2"
definition FDEVENT_OUT :: int where "FDEVENT_OUT = 4"
definition FDEVENT_HUP :: int where "FDEVENT_HUP = 8"
definition FDEVENT_ERR :: int where "FDEVENT_ERR = 16"

lemmas fdevent_defs = FDEVENT_NONE_def FDEVENT_IN_def FDEVENT_PRI_def FDEVENT_OUT_def FDEVENT_HUP_def FDEVENT_ERR_def

record Fdevent =
  fe_fd :: int
  s_flags :: int
  fe_events :: int
  data_num :: int
  data_ptr :: "lid option"

definition fde_new :: "nat \<Rightarrow> Fdevent" where
  "fde_new i = \<lparr>fe_fd = int i, s_flags = FDEVENT_NONE, fe_events = 0, data_num = 0, data_ptr = None\<rparr>"

text \<open>get_fde fills the vector up to fd and returns its entry; the index must not be negative.\<close>

definition get_fde :: "Fdevent list \<Rightarrow> int \<Rightarrow> (Fdevent \<times> Fdevent list) res" where
  "get_fde evs fd =
     (if fd < 0 then Inl Out_of_bounds
      else let evs' = evs @ map fde_new [length evs ..< nat fd + 1]
           in Inr (evs' ! nat fd, evs'))"

definition flags_at :: "Fdevent list \<Rightarrow> int \<Rightarrow> int" where
  "flags_at evs fd = (if 0 \<le> fd \<and> nat fd < length evs then s_flags (evs ! nat fd) else 0)"

section \<open>The epoll back end\<close>

definition EPOLLIN :: int where "EPOLLIN = 1"
definition EPOLLPRI :: int where "EPOLLPRI = 2"
definition EPOLLOUT :: int where "EPOLLOUT = 4"
definition EPOLLERR :: int where "EPOLLERR = 8"
definition EPOLLHUP :: int where "EPOLLHUP = 16"

lemmas epoll_defs = EPOLLIN_def EPOLLPRI_def EPOLLOUT_def EPOLLERR_def EPOLLHUP_def

datatype ctl_op = EPOLL_CTL_ADD | EPOLL_CTL_MOD | EPOLL_CTL_DEL

text \<open>
  epoll_ctl on the interest list of the epoll instance, as its manual page states it: adding a
  registered descriptor and changing or removing an unregistered one fail. Any other reason to
  refuse is the argument kok.
\<close>

definition epoll_ctl :: "bool \<Rightarrow> ctl_op \<Rightarrow> int \<Rightarrow> int \<Rightarrow> (int \<rightharpoonup> int) \<Rightarrow> (int \<rightharpoonup> int) option" where
  "epoll_ctl kok ctl fd events il =
     (if \<not> kok then None
      else case ctl of
        EPOLL_CTL_ADD \<Rightarrow> if il fd = None then Some (il(fd \<mapsto> events)) else None
      | EPOLL_CTL_MOD \<Rightarrow> if il fd = None then None else Some (il(fd \<mapsto> events))
      | EPOLL_CTL_DEL \<Rightarrow> if il fd = None then None else Some (il(fd := None)))"

record Fdevents =
  ep_events :: "Fdevent list"
  ep_interest :: "int \<rightharpoonup> int"
  in_ev :: int

definition Fdevents_new :: Fdevents where
  "Fdevents_new = \<lparr>ep_events = [], ep_interest = Map.empty, in_ev = 0\<rparr>"

definition epoll_mask :: "int \<Rightarrow> int" where
  "epoll_mask fl = (if fl AND FDEVENT_IN \<noteq> 0 then EPOLLIN else 0)
                   OR (if fl AND FDEVENT_OUT \<noteq> 0 then EPOLLOUT else 0)"

definition fdes_isset :: "int \<Rightarrow> int \<Rightarrow> Fdevents \<Rightarrow> (bool \<times> Fdevents) res" where
  "fdes_isset fd flag s =
     rbind (get_fde (ep_events s) fd) (\<lambda>(fde, evs). Inr (s_flags fde AND flag \<noteq> 0, s\<lparr>ep_events := evs\<rparr>))"

definition fdes_set :: "bool \<Rightarrow> int \<Rightarrow> int \<Rightarrow> int \<Rightarrow> lid option \<Rightarrow> Fdevents \<Rightarrow> (int \<times> Fdevents) res" where
  "fdes_set kok fd flags num ptr s =
     rbind (get_fde (ep_events s) fd) (\<lambda>(fde, evs).
       if s_flags fde AND flags \<noteq> 0 then Inr (0, s\<lparr>ep_events := evs\<rparr>)
       else
         let ctl = (if s_flags fde \<noteq> 0 then EPOLL_CTL_MOD else EPOLL_CTL_ADD);
             fde' = fde\<lparr>s_flags := s_flags fde OR flags, data_num := num, data_ptr := ptr\<rparr>;
             s' = s\<lparr>ep_events := evs[nat fd := fde']\<rparr>
         in case epoll_ctl kok ctl fd (epoll_mask (s_flags fde')) (ep_interest s) of
              None \<Rightarrow> Inr (-1, s')
            | Some il \<Rightarrow> Inr (0, s'\<lparr>ep_interest := il\<rparr>))"

definition fdes_del :: "bool \<Rightarrow> int \<Rightarrow> Fdevents \<Rightarrow> (int \<times> Fdevents) res" where
  "fdes_del kok fd s =
     (case epoll_ctl kok EPOLL_CTL_DEL fd 0 (ep_interest s) of
        None \<Rightarrow> Inr (-1, s)
      | Some il \<Rightarrow>
          rbind (get_fde (ep_events s) fd) (\<lambda>(fde, evs).
            Inr (0, s\<lparr>ep_interest := il, ep_events := evs[nat fd := fde\<lparr>s_flags := FDEVENT_NONE\<rparr>]\<rparr>)))"

definition fdes_clr :: "bool \<Rightarrow> int \<Rightarrow> int \<Rightarrow> Fdevents \<Rightarrow> (int \<times> Fdevents) res" where
  "fdes_clr kok fd flags s =
     rbind (get_fde (ep_events s) fd) (\<lambda>(fde, evs).
       if s_flags fde AND flags = 0 then Inr (0, s\<lparr>ep_events := evs\<rparr>)
       else
         let fde' = fde\<lparr>s_flags := s_flags fde AND NOT flags\<rparr>;
             ctl = (if s_flags fde' \<noteq> 0 then EPOLL_CTL_MOD else EPOLL_CTL_DEL);
             s' = s\<lparr>ep_events := evs[nat fd := fde'],
                    in_ev := (if s_flags fde' AND FDEVENT_IN \<noteq> 0 then in_ev s + 1 else in_ev s)\<rparr>
         in case epoll_ctl kok ctl fd (epoll_mask (s_flags fde')) (ep_interest s) of
              None \<Rightarrow> Inr (-1, s')
            | Some il \<Rightarrow> Inr (0, s'\<lparr>ep_interest := il\<rparr>))"

text \<open>The translation of the events epoll reports into the events of an Fdevent.\<close>

definition ready_flags :: "int \<Rightarrow> int" where
  "ready_flags e =
     (if e AND EPOLLIN \<noteq> 0 then FDEVENT_IN else FDEVENT_NONE)
     OR (if e AND EPOLLPRI \<noteq> 0 then FDEVENT_IN else FDEVENT_NONE)
     OR (if e AND EPOLLOUT \<noteq> 0 then FDEVENT_OUT else FDEVENT_NONE)
     OR (if e AND EPOLLHUP \<noteq> 0 then FDEVENT_ERR else FDEVENT_NONE)
     OR (if e AND EPOLLERR \<noteq> 0 then FDEVENT_ERR else FDEVENT_NONE)"

text \<open>Results of epoll_wait: interrupted, failed, or the ready descriptors with their events.\<close>

datatype ep_result = Ep_EINTR | Ep_Error | Ep_Ready "(int \<times> int) list"

definition mark_ready :: "int \<times> int \<Rightarrow> Fdevents \<Rightarrow> (Fdevent \<times> Fdevents) res" where
  "mark_ready r s =
     (case r of (fd, e) \<Rightarrow>
        if fd < 0 \<or> int (length (ep_events s)) \<le> fd then Inl Out_of_bounds
        else let fde = (ep_events s ! nat fd)\<lparr>fe_events := ready_flags e\<rparr>
             in Inr (fde, s\<lparr>ep_events := (ep_events s)[nat fd := fde]\<rparr>))"

fun mark_all_ready :: "(int \<times> int) list \<Rightarrow> Fdevents \<Rightarrow> (Fdevent list \<times> Fdevents) res" where
  "mark_all_ready [] s = Inr ([], s)"
| "mark_all_ready (r # rs) s =
     rbind (mark_ready r s) (\<lambda>(fde, s1). rbind (mark_all_ready rs s1) (\<lambda>(fdes, s2). Inr (fde # fdes, s2)))"

text \<open>Fdevents::wait: None is the null pointer it returns on an error.\<close>

definition fdes_wait :: "ep_result \<Rightarrow> Fdevents \<Rightarrow> (Fdevent list option \<times> Fdevents) res" where
  "fdes_wait r s =
     (case r of
        Ep_EINTR \<Rightarrow> Inr (Some [], s)
      | Ep_Error \<Rightarrow> Inr (None, s)
      | Ep_Ready rs \<Rightarrow> rbind (mark_all_ready rs s) (\<lambda>(fdes, s'). Inr (Some fdes, s')))"

text \<open>
  Fdevents::event_wait over the successive results of epoll_wait: it retries when interrupted and
  hands only the first ready event to the proxy. The result is the event to process, with the
  return value; None where epoll_wait has not returned yet.
\<close>

fun fdes_event_wait :: "int \<Rightarrow> ep_result list \<Rightarrow> Fdevents \<Rightarrow> ((int \<times> Fdevent option) option \<times> Fdevents) res" where
  "fdes_event_wait timeout_ms [] s = Inr (None, s)"
| "fdes_event_wait timeout_ms (r # rs) s =
     (case r of
        Ep_EINTR \<Rightarrow> fdes_event_wait timeout_ms rs s
      | Ep_Error \<Rightarrow> Inr (Some (-1, None), s)
      | Ep_Ready [] \<Rightarrow> Inr (Some (if timeout_ms = -1 then -1 else 0, None), s)
      | Ep_Ready (e # es) \<Rightarrow>
          rbind (mark_ready e s) (\<lambda>(fde, s'). Inr (Some (1 + int (length es), Some fde), s')))"

section \<open>The select back end\<close>

definition FD_SETSIZE :: int where "FD_SETSIZE = 1024"

record Sfdevents =
  sel_events :: "Fdevent list"
  maxfd :: int
  readset :: "int set"
  writeset :: "int set"

definition Sfdevents_new :: Sfdevents where
  "Sfdevents_new = \<lparr>sel_events = [], maxfd = -1, readset = {}, writeset = {}\<rparr>"

definition sel_isset :: "int \<Rightarrow> int \<Rightarrow> Sfdevents \<Rightarrow> (bool \<times> Sfdevents) res" where
  "sel_isset fd flag s =
     rbind (get_fde (sel_events s) fd) (\<lambda>(fde, evs). Inr (s_flags fde AND flag \<noteq> 0, s\<lparr>sel_events := evs\<rparr>))"

definition sel_set :: "int \<Rightarrow> int \<Rightarrow> int \<Rightarrow> lid option \<Rightarrow> Sfdevents \<Rightarrow> (int \<times> Sfdevents) res" where
  "sel_set fd flags num ptr s =
     (if fd > FD_SETSIZE - 1 then Inr (-1, s)
      else rbind (get_fde (sel_events s) fd) (\<lambda>(fde, evs).
        if s_flags fde AND flags \<noteq> 0 then Inr (0, s\<lparr>sel_events := evs\<rparr>)
        else
          let fde' = fde\<lparr>data_num := num, data_ptr := ptr, s_flags := s_flags fde OR flags\<rparr>
          in Inr (0, s\<lparr>sel_events := evs[nat fd := fde'],
                       readset := (if flags AND FDEVENT_IN \<noteq> 0 then insert fd (readset s) else readset s),
                       writeset := (if flags AND FDEVENT_OUT \<noteq> 0 then insert fd (writeset s) else writeset s),
                       maxfd := (if fd > maxfd s then fd else maxfd s)\<rparr>)))"

text \<open>while(maxfd >= 0 && events[maxfd]->s_flags == 0) maxfd--, counted by n = maxfd + 1.\<close>

fun lower_maxfd :: "Fdevent list \<Rightarrow> nat \<Rightarrow> int res" where
  "lower_maxfd evs 0 = Inr (-1)"
| "lower_maxfd evs (Suc n) =
     (if n \<ge> length evs then Inl Out_of_bounds
      else if s_flags (evs ! n) = 0 then lower_maxfd evs n else Inr (int n))"

text \<open>The same loop in clr has no lower bound: it runs into the index -1.\<close>

fun lower_maxfd_unchecked :: "Fdevent list \<Rightarrow> nat \<Rightarrow> int res" where
  "lower_maxfd_unchecked evs 0 = Inl Out_of_bounds"
| "lower_maxfd_unchecked evs (Suc n) =
     (if n \<ge> length evs then Inl Out_of_bounds
      else if s_flags (evs ! n) = 0 then lower_maxfd_unchecked evs n else Inr (int n))"

definition sel_del :: "int \<Rightarrow> Sfdevents \<Rightarrow> (int \<times> Sfdevents) res" where
  "sel_del fd s =
     rbind (get_fde (sel_events s) fd) (\<lambda>(fde, evs).
       let evs' = evs[nat fd := fde\<lparr>s_flags := FDEVENT_NONE\<rparr>]
       in rbind (lower_maxfd evs' (nat (maxfd s + 1))) (\<lambda>m.
          Inr (0, s\<lparr>sel_events := evs', readset := readset s - {fd}, writeset := writeset s - {fd}, maxfd := m\<rparr>)))"

definition sel_clr :: "int \<Rightarrow> int \<Rightarrow> Sfdevents \<Rightarrow> (int \<times> Sfdevents) res" where
  "sel_clr fd flags s =
     rbind (get_fde (sel_events s) fd) (\<lambda>(fde, evs).
       if s_flags fde AND flags = 0 then Inr (0, s\<lparr>sel_events := evs\<rparr>)
       else
         let evs' = evs[nat fd := fde\<lparr>s_flags := s_flags fde AND NOT flags\<rparr>]
         in rbind (lower_maxfd_unchecked evs' (nat (maxfd s + 1))) (\<lambda>m.
            Inr (0, s\<lparr>sel_events := evs',
                      readset := (if flags AND FDEVENT_IN \<noteq> 0 then readset s - {fd} else readset s),
                      writeset := (if flags AND FDEVENT_OUT \<noteq> 0 then writeset s - {fd} else writeset s),
                      maxfd := m\<rparr>)))"

datatype sel_result = Sel_EINTR | Sel_Error | Sel_Ready int "int set" "int set"

text \<open>
  The scan over the descriptors from i, of which k are left: it sets the events field of each and
  reports at most ret of them, in ascending order.
\<close>

fun sel_scan :: "int set \<Rightarrow> int set \<Rightarrow> nat \<Rightarrow> nat \<Rightarrow> nat \<Rightarrow> Fdevent list \<Rightarrow> (Fdevent list \<times> Fdevent list) res" where
  "sel_scan rset wset i 0 ret evs = Inr ([], evs)"
| "sel_scan rset wset i (Suc k) ret evs =
     (if ret = 0 then Inr ([], evs)
      else if i \<ge> length evs then Inl Out_of_bounds
      else let ev = (if int i \<in> rset then FDEVENT_IN else FDEVENT_NONE)
                    OR (if int i \<in> wset then FDEVENT_OUT else FDEVENT_NONE);
               fde = (evs ! i)\<lparr>fe_events := ev\<rparr>;
               evs' = evs[i := fde]
           in if ev \<noteq> 0 then rbind (sel_scan rset wset (i + 1) k (ret - 1) evs') (\<lambda>(r, e). Inr (fde # r, e))
              else sel_scan rset wset (i + 1) k ret evs')"

definition sel_wait :: "sel_result \<Rightarrow> Sfdevents \<Rightarrow> (Fdevent list option \<times> Sfdevents) res" where
  "sel_wait r s =
     (case r of
        Sel_EINTR \<Rightarrow> Inr (Some [], s)
      | Sel_Error \<Rightarrow> Inr (None, s)
      | Sel_Ready ret rset wset \<Rightarrow>
          if ret > 0 then
            rbind (sel_scan rset wset 0 (nat (maxfd s + 1)) (nat ret) (sel_events s)) (\<lambda>(fdes, evs).
              Inr (Some fdes, s\<lparr>sel_events := evs\<rparr>))
          else Inr (Some [], s))"

section \<open>Lookup and update of the vector\<close>

lemma get_fde_spec:
  assumes "0 \<le> fd"
  shows "\<exists>fde evs'. get_fde evs fd = Inr (fde, evs') \<and> nat fd < length evs' \<and> length evs \<le> length evs' \<and>
     evs' ! nat fd = fde \<and> s_flags fde = flags_at evs fd \<and> flags_at evs' = flags_at evs"
proof -
  let ?evs' = "evs @ map fde_new [length evs ..< nat fd + 1]"
  have "flags_at ?evs' g = flags_at evs g" for g
  proof (cases "nat g < length evs")
    case True
    then show ?thesis by (simp add: flags_at_def nth_append)
  next
    case False
    then have "s_flags (?evs' ! nat g) = 0" if "nat g < length ?evs'"
      using that by (simp add: nth_append fde_new_def FDEVENT_NONE_def del: upt_Suc)
    with False show ?thesis by (auto simp: flags_at_def)
  qed
  then have eq: "flags_at ?evs' = flags_at evs" by blast
  have "nat fd < length ?evs'" by (simp del: upt_Suc)
  then have "flags_at ?evs' fd = s_flags (?evs' ! nat fd)"
    using assms by (simp only: flags_at_def simp_thms if_True)
  with eq have "s_flags (?evs' ! nat fd) = flags_at evs fd" by simp
  with eq show ?thesis using assms by (auto simp: get_fde_def Let_def)
qed

lemma flags_at_update:
  assumes "0 \<le> fd" "nat fd < length evs"
  shows "flags_at (evs[nat fd := fde]) = (flags_at evs)(fd := s_flags fde)"
proof
  fix g show "flags_at (evs[nat fd := fde]) g = ((flags_at evs)(fd := s_flags fde)) g"
    using assms by (cases "g = fd") (auto simp: flags_at_def nth_list_update)
qed

section \<open>The interface of an event registry\<close>

locale fd_events =
  fixes inv :: "'s \<Rightarrow> bool"
    and flags_of :: "'s \<Rightarrow> int \<Rightarrow> int"
    and admissible :: "int \<Rightarrow> bool"
    and set_ev :: "int \<Rightarrow> int \<Rightarrow> int \<Rightarrow> lid option \<Rightarrow> 's \<Rightarrow> (int \<times> 's) res"
    and clr_ev :: "int \<Rightarrow> int \<Rightarrow> 's \<Rightarrow> (int \<times> 's) res"
    and del_ev :: "int \<Rightarrow> 's \<Rightarrow> (int \<times> 's) res"
  assumes set_law: "inv s \<Longrightarrow> admissible fd \<Longrightarrow> fl \<noteq> 0 \<Longrightarrow>
      \<exists>s'. set_ev fd fl num ptr s = Inr (0, s') \<and> inv s' \<and>
        flags_of s' = (flags_of s)(fd := if flags_of s fd AND fl \<noteq> 0 then flags_of s fd else flags_of s fd OR fl)"
    and clr_law: "inv s \<Longrightarrow> admissible fd \<Longrightarrow> clr_ev fd fl s = Inr (r, s') \<Longrightarrow>
        inv s' \<and> flags_of s' = (flags_of s)(fd := flags_of s fd AND NOT fl)"
    and del_law: "inv s \<Longrightarrow> admissible fd \<Longrightarrow> flags_of s fd \<noteq> 0 \<Longrightarrow>
      \<exists>s'. del_ev fd s = Inr (0, s') \<and> inv s' \<and> flags_of s' = (flags_of s)(fd := 0)"
begin

lemma set_subscribes:
  assumes "inv s" "admissible fd" "fl \<noteq> 0" "set_ev fd fl num ptr s = Inr (r, s')"
  shows "flags_of s' fd AND fl \<noteq> 0"
proof -
  have "(flags_of s fd OR fl) AND fl = fl" by (simp add: bit_eq_iff bit_and_iff bit_or_iff) blast
  then show ?thesis using set_law [OF assms(1-3), of num ptr] assms(3,4) by auto
qed

lemma set_then_clr:
  assumes "inv s" "admissible fd" "fl \<noteq> 0" "flags_of s fd AND fl = 0"
    "set_ev fd fl num ptr s = Inr (r, s1)" "clr_ev fd fl s1 = Inr (q, s2)"
  shows "flags_of s2 = flags_of s \<and> inv s2"
proof -
  have s1: "inv s1" "flags_of s1 = (flags_of s)(fd := flags_of s fd OR fl)"
    using set_law [OF assms(1-3), of num ptr] assms(4,5) by auto
  have "(flags_of s fd OR fl) AND NOT fl = flags_of s fd"
    using assms(4) by (simp add: bit_eq_iff bit_and_iff bit_or_iff bit_not_iff) blast
  then show ?thesis using clr_law [OF s1(1) assms(2,6)] s1(2) by auto
qed

lemma clr_del_other:
  assumes "inv s" "admissible fd" "g \<noteq> fd"
  shows "clr_ev fd fl s = Inr (r, s') \<Longrightarrow> flags_of s' g = flags_of s g"
    and "flags_of s fd \<noteq> 0 \<Longrightarrow> del_ev fd s = Inr (r, s') \<Longrightarrow> flags_of s' g = flags_of s g"
  using clr_law [OF assms(1,2), of fl r s'] del_law [OF assms(1,2)] assms(3) by auto

end

section \<open>The epoll back end against the interface\<close>

text \<open>The interest list of epoll mirrors the subscribed flags.\<close>

definition fdes_inv :: "Fdevents \<Rightarrow> bool" where
  "fdes_inv s \<longleftrightarrow> (\<forall>fd. ep_interest s fd =
     (let fl = flags_at (ep_events s) fd in if fl = 0 then None else Some (epoll_mask fl)))"

definition fdes_flags :: "Fdevents \<Rightarrow> int \<Rightarrow> int" where
  "fdes_flags s = flags_at (ep_events s)"

lemma fdes_inv_new: "fdes_inv Fdevents_new"
  by (simp add: fdes_inv_def Fdevents_new_def flags_at_def)

lemma fdes_flags_new [simp]: "fdes_flags Fdevents_new fd = 0"
  by (simp add: fdes_flags_def Fdevents_new_def flags_at_def)

lemma fdes_set_law:
  assumes "fdes_inv s" "0 \<le> fd" "fl \<noteq> 0"
  shows "\<exists>s'. fdes_set True fd fl num ptr s = Inr (0, s') \<and> fdes_inv s' \<and>
     fdes_flags s' = (fdes_flags s)(fd := if fdes_flags s fd AND fl \<noteq> 0 then fdes_flags s fd else fdes_flags s fd OR fl)"
proof -
  obtain fde evs where g: "get_fde (ep_events s) fd = Inr (fde, evs)" "nat fd < length evs"
    "s_flags fde = flags_at (ep_events s) fd" "flags_at evs = flags_at (ep_events s)"
    using get_fde_spec [OF assms(2)] by blast
  show ?thesis
  proof (cases "s_flags fde AND fl = 0")
    case True
    moreover have "s_flags fde OR fl \<noteq> 0" using assms(3) by (simp add: or_eq_0_iff)
    ultimately show ?thesis
      using assms(1,2) g
      by (auto simp: fdes_set_def fdes_inv_def fdes_flags_def Let_def epoll_ctl_def flags_at_update split: option.splits)
  next
    case False
    then show ?thesis using assms(1) g by (auto simp: fdes_set_def fdes_inv_def fdes_flags_def)
  qed
qed

lemma fdes_clr_law:
  assumes "fdes_inv s" "0 \<le> fd" "fdes_clr True fd fl s = Inr (r, s')"
  shows "r = 0 \<and> fdes_inv s' \<and> fdes_flags s' = (fdes_flags s)(fd := fdes_flags s fd AND NOT fl)"
proof -
  obtain fde evs where g: "get_fde (ep_events s) fd = Inr (fde, evs)" "nat fd < length evs"
    "s_flags fde = flags_at (ep_events s) fd" "flags_at evs = flags_at (ep_events s)"
    using get_fde_spec [OF assms(2)] by blast
  show ?thesis
  proof (cases "s_flags fde AND fl = 0")
    case True
    then have "s_flags fde AND NOT fl = s_flags fde"
      by (simp add: bit_eq_iff bit_and_iff bit_not_iff) blast
    with True show ?thesis
      using assms g by (auto simp: fdes_clr_def fdes_inv_def fdes_flags_def)
  next
    case False
    then have "s_flags fde \<noteq> 0" by auto
    with False show ?thesis
      using assms g
      by (auto simp: fdes_clr_def fdes_inv_def fdes_flags_def Let_def epoll_ctl_def flags_at_update split: option.splits if_splits)
  qed
qed

lemma fdes_del_law:
  assumes "fdes_inv s" "0 \<le> fd" "fdes_flags s fd \<noteq> 0"
  shows "\<exists>s'. fdes_del True fd s = Inr (0, s') \<and> fdes_inv s' \<and> fdes_flags s' = (fdes_flags s)(fd := 0)"
proof -
  obtain fde evs where g: "get_fde (ep_events s) fd = Inr (fde, evs)" "nat fd < length evs"
    "s_flags fde = flags_at (ep_events s) fd" "flags_at evs = flags_at (ep_events s)"
    using get_fde_spec [OF assms(2)] by blast
  then show ?thesis using assms
    by (auto simp: fdes_del_def fdes_inv_def fdes_flags_def Let_def epoll_ctl_def flags_at_update FDEVENT_NONE_def split: option.splits if_splits)
qed

interpretation ep: fd_events fdes_inv fdes_flags "\<lambda>fd. 0 \<le> fd" "fdes_set True" "fdes_clr True" "fdes_del True"
  using fdes_set_law fdes_clr_law fdes_del_law by unfold_locales blast+

section \<open>The select back end against the interface\<close>

text \<open>The fd_sets mirror the flags, and maxfd is the largest subscribed descriptor.\<close>

definition sel_flags :: "Sfdevents \<Rightarrow> int \<Rightarrow> int" where
  "sel_flags s = flags_at (sel_events s)"

definition is_maxfd :: "(int \<Rightarrow> int) \<Rightarrow> int \<Rightarrow> bool" where
  "is_maxfd fl m \<longleftrightarrow> -1 \<le> m \<and> (m \<noteq> -1 \<longrightarrow> fl m \<noteq> 0) \<and> (\<forall>fd>m. fl fd = 0)"

definition sel_inv :: "Sfdevents \<Rightarrow> bool" where
  "sel_inv s \<longleftrightarrow> is_maxfd (sel_flags s) (maxfd s) \<and>
     readset s = {fd. sel_flags s fd AND FDEVENT_IN \<noteq> 0} \<and>
     writeset s = {fd. sel_flags s fd AND FDEVENT_OUT \<noteq> 0}"

lemma sel_inv_new: "sel_inv Sfdevents_new"
  by (simp add: sel_inv_def Sfdevents_new_def sel_flags_def flags_at_def is_maxfd_def)

lemma sel_flags_new [simp]: "sel_flags Sfdevents_new fd = 0"
  by (simp add: sel_flags_def Sfdevents_new_def flags_at_def)

lemma flags_at_bounds: "flags_at evs fd \<noteq> 0 \<Longrightarrow> 0 \<le> fd \<and> nat fd < length evs"
  by (auto simp: flags_at_def split: if_splits)

lemma is_maxfd_length: "is_maxfd (flags_at evs) m \<Longrightarrow> m < int (length evs)"
  using flags_at_bounds [of evs m] by (cases "m = -1") (auto simp: is_maxfd_def)

lemma lower_maxfd_is_max:
  assumes "n \<le> length evs" "\<forall>fd\<ge>int n. flags_at evs fd = 0"
  shows "\<exists>m. lower_maxfd evs n = Inr m \<and> is_maxfd (flags_at evs) m"
  using assms
proof (induction n)
  case 0
  then show ?case by (auto simp: is_maxfd_def)
next
  case (Suc n)
  have fl: "flags_at evs (int n) = s_flags (evs ! n)" using Suc.prems(1) by (simp add: flags_at_def)
  show ?case
  proof (cases "s_flags (evs ! n) = 0")
    case True
    have "flags_at evs fd = 0" if "int n \<le> fd" for fd
      using that Suc.prems(2) fl True by (cases "fd = int n") auto
    with Suc True show ?thesis by auto
  next
    case False
    with Suc.prems fl show ?thesis by (auto simp: is_maxfd_def)
  qed
qed

lemma lower_maxfd_unchecked_eq:
  "n \<le> length evs \<Longrightarrow> lower_maxfd_unchecked evs n =
     (case lower_maxfd evs n of Inl e \<Rightarrow> Inl e | Inr m \<Rightarrow> if m = -1 then Inl Out_of_bounds else Inr m)"
  by (induction n) auto

lemma and_IN_bit: "f AND FDEVENT_IN = 0 \<longleftrightarrow> \<not> bit f 0"
  using and_exp_eq_0_iff_not_bit [of f 0] by (simp add: FDEVENT_IN_def)

lemma and_OUT_bit: "f AND FDEVENT_OUT = 0 \<longleftrightarrow> \<not> bit f 2"
  using and_exp_eq_0_iff_not_bit [of f 2] by (simp add: FDEVENT_OUT_def)

lemmas flag_bits = and_IN_bit and_OUT_bit bit_or_iff bit_and_iff bit_not_iff

lemma sel_set_law:
  assumes "sel_inv s" "0 \<le> fd \<and> fd < FD_SETSIZE" "fl \<noteq> 0"
  shows "\<exists>s'. sel_set fd fl num ptr s = Inr (0, s') \<and> sel_inv s' \<and>
     sel_flags s' = (sel_flags s)(fd := if sel_flags s fd AND fl \<noteq> 0 then sel_flags s fd else sel_flags s fd OR fl)"
proof -
  have fd: "0 \<le> fd" using assms(2) by blast
  obtain fde evs where g: "get_fde (sel_events s) fd = Inr (fde, evs)" "nat fd < length evs"
    "s_flags fde = flags_at (sel_events s) fd" "flags_at evs = flags_at (sel_events s)"
    using get_fde_spec [OF fd] by blast
  show ?thesis
  proof (cases "s_flags fde AND fl = 0")
    case True
    let ?s' = "s\<lparr>sel_events := evs[nat fd := fde\<lparr>data_num := num, data_ptr := ptr, s_flags := s_flags fde OR fl\<rparr>],
                 readset := (if fl AND FDEVENT_IN \<noteq> 0 then insert fd (readset s) else readset s),
                 writeset := (if fl AND FDEVENT_OUT \<noteq> 0 then insert fd (writeset s) else writeset s),
                 maxfd := (if fd > maxfd s then fd else maxfd s)\<rparr>"
    have set: "sel_set fd fl num ptr s = Inr (0, ?s')"
      using assms(2) g True by (simp add: sel_set_def Let_def)
    have fl': "sel_flags ?s' = (sel_flags s)(fd := sel_flags s fd OR fl)"
      using g fd by (simp add: sel_flags_def flags_at_update)
    have nz: "sel_flags s fd OR fl \<noteq> 0" using assms(3) by (simp add: or_eq_0_iff)
    have "is_maxfd (sel_flags ?s') (maxfd ?s')"
      using assms(1) fd nz unfolding fl' by (auto simp: sel_inv_def is_maxfd_def)
    moreover have "readset ?s' = {f. sel_flags ?s' f AND FDEVENT_IN \<noteq> 0}"
      "writeset ?s' = {f. sel_flags ?s' f AND FDEVENT_OUT \<noteq> 0}"
      using assms(1) unfolding fl' by (auto simp: sel_inv_def flag_bits)
    ultimately have "sel_inv ?s'" by (simp add: sel_inv_def)
    then show ?thesis using set fl' True g by (auto simp: sel_flags_def)
  next
    case False
    then show ?thesis using assms g by (auto simp: sel_set_def sel_inv_def sel_flags_def)
  qed
qed

lemma sel_lower:
  assumes "sel_inv s" "flags_at evs = (sel_flags s)(fd := v)" "length (sel_events s) \<le> length evs"
    "v \<noteq> 0 \<longrightarrow> sel_flags s fd \<noteq> 0"
  shows "\<exists>m. lower_maxfd evs (nat (maxfd s + 1)) = Inr m \<and> is_maxfd (flags_at evs) m"
proof (rule lower_maxfd_is_max)
  show "nat (maxfd s + 1) \<le> length evs"
    using assms(1,3) is_maxfd_length [of "sel_events s" "maxfd s"] by (auto simp: sel_inv_def sel_flags_def)
  show "\<forall>g\<ge>int (nat (maxfd s + 1)). flags_at evs g = 0"
    using assms(1,2,4) by (auto simp: sel_inv_def is_maxfd_def)
qed

lemma sel_clr_law:
  assumes "sel_inv s" "0 \<le> fd" "sel_clr fd fl s = Inr (r, s')"
  shows "r = 0 \<and> sel_inv s' \<and> sel_flags s' = (sel_flags s)(fd := sel_flags s fd AND NOT fl)"
proof -
  obtain fde evs where g: "get_fde (sel_events s) fd = Inr (fde, evs)" "nat fd < length evs"
    "length (sel_events s) \<le> length evs"
    "s_flags fde = flags_at (sel_events s) fd" "flags_at evs = flags_at (sel_events s)"
    using get_fde_spec [OF assms(2)] by blast
  show ?thesis
  proof (cases "s_flags fde AND fl = 0")
    case True
    then have "s_flags fde AND NOT fl = s_flags fde"
      by (simp add: bit_eq_iff bit_and_iff bit_not_iff) blast
    with True show ?thesis
      using assms g by (auto simp: sel_clr_def sel_inv_def sel_flags_def)
  next
    case False
    then have nz: "s_flags fde \<noteq> 0" by auto
    let ?evs' = "evs[nat fd := fde\<lparr>s_flags := s_flags fde AND NOT fl\<rparr>]"
    have f: "flags_at ?evs' = (sel_flags s)(fd := sel_flags s fd AND NOT fl)"
      using g assms(2) by (simp add: flags_at_update sel_flags_def)
    obtain m where m: "lower_maxfd ?evs' (nat (maxfd s + 1)) = Inr m" "is_maxfd (flags_at ?evs') m"
      using sel_lower [OF assms(1) f] g nz by (auto simp: sel_flags_def)
    have "nat (maxfd s + 1) \<le> length ?evs'"
      using assms(1) g(3) is_maxfd_length [of "sel_events s" "maxfd s"] by (auto simp: sel_inv_def sel_flags_def)
    from lower_maxfd_unchecked_eq [OF this] m(1) False g assms(3)
    have s': "r = 0" "s' = s\<lparr>sel_events := ?evs',
        readset := (if fl AND FDEVENT_IN \<noteq> 0 then readset s - {fd} else readset s),
        writeset := (if fl AND FDEVENT_OUT \<noteq> 0 then writeset s - {fd} else writeset s), maxfd := m\<rparr>"
      by (auto simp: sel_clr_def Let_def rbind_eq_Inr split: if_splits)
    have f': "sel_flags s' = (sel_flags s)(fd := sel_flags s fd AND NOT fl)" using s' f by (simp add: sel_flags_def)
    have "readset s' = {g. sel_flags s' g AND FDEVENT_IN \<noteq> 0}" "writeset s' = {g. sel_flags s' g AND FDEVENT_OUT \<noteq> 0}"
      using assms(1) s'(2) unfolding f' by (auto simp: sel_inv_def flag_bits)
    then show ?thesis using s' f' m(2) f by (simp add: sel_inv_def)
  qed
qed

lemma sel_del_law:
  assumes "sel_inv s" "0 \<le> fd"
  shows "\<exists>s'. sel_del fd s = Inr (0, s') \<and> sel_inv s' \<and> sel_flags s' = (sel_flags s)(fd := 0)"
proof -
  obtain fde evs where g: "get_fde (sel_events s) fd = Inr (fde, evs)" "nat fd < length evs"
    "length (sel_events s) \<le> length evs"
    "s_flags fde = flags_at (sel_events s) fd" "flags_at evs = flags_at (sel_events s)"
    using get_fde_spec [OF assms(2)] by blast
  let ?evs' = "evs[nat fd := fde\<lparr>s_flags := FDEVENT_NONE\<rparr>]"
  have f: "flags_at ?evs' = (sel_flags s)(fd := 0)"
    using g assms(2) by (simp add: flags_at_update sel_flags_def FDEVENT_NONE_def)
  obtain m where m: "lower_maxfd ?evs' (nat (maxfd s + 1)) = Inr m" "is_maxfd (flags_at ?evs') m"
    using sel_lower [OF assms(1) f] g by auto
  let ?s' = "s\<lparr>sel_events := ?evs', readset := readset s - {fd}, writeset := writeset s - {fd}, maxfd := m\<rparr>"
  have f': "sel_flags ?s' = (sel_flags s)(fd := 0)" using f by (simp add: sel_flags_def)
  have "readset ?s' = {g. sel_flags ?s' g AND FDEVENT_IN \<noteq> 0}" "writeset ?s' = {g. sel_flags ?s' g AND FDEVENT_OUT \<noteq> 0}"
    using assms(1) unfolding f' by (auto simp: sel_inv_def)
  moreover have "is_maxfd (sel_flags ?s') (maxfd ?s')" using m(2) f unfolding f' by simp
  ultimately have "sel_inv ?s'" by (simp add: sel_inv_def)
  moreover have "sel_del fd s = Inr (0, ?s')" using g m by (simp add: sel_del_def Let_def)
  ultimately show ?thesis using f' by blast
qed

interpretation se: fd_events sel_inv sel_flags "\<lambda>fd. 0 \<le> fd \<and> fd < FD_SETSIZE" sel_set sel_clr sel_del
proof
  fix s fd fl r s'
  assume "sel_inv s" "0 \<le> fd \<and> fd < FD_SETSIZE" "sel_clr fd fl s = Inr (r, s')"
  then show "sel_inv s' \<and> sel_flags s' = (sel_flags s)(fd := sel_flags s fd AND NOT fl)"
    using sel_clr_law by blast
qed (use sel_set_law sel_del_law in blast)+

section \<open>Reachable registries\<close>

text \<open>The states an epoll registry passes through while the kernel accepts every request.\<close>

inductive fdes_reachable :: "Fdevents \<Rightarrow> bool" where
  init: "fdes_reachable Fdevents_new"
| set: "fdes_reachable s \<Longrightarrow> fl \<noteq> 0 \<Longrightarrow> fdes_set True fd fl num ptr s = Inr (r, s') \<Longrightarrow> fdes_reachable s'"
| clr: "fdes_reachable s \<Longrightarrow> fdes_clr True fd fl s = Inr (r, s') \<Longrightarrow> fdes_reachable s'"
| del: "fdes_reachable s \<Longrightarrow> fdes_del True fd s = Inr (r, s') \<Longrightarrow> fdes_reachable s'"

lemma fdes_ops_nonneg:
  "fdes_set kok fd fl num ptr s = Inr (r, s') \<Longrightarrow> 0 \<le> fd"
  "fdes_clr kok fd fl s = Inr (r, s') \<Longrightarrow> 0 \<le> fd"
  by (auto simp: fdes_set_def fdes_clr_def get_fde_def split: if_splits)

lemma fdes_reachable_inv: "fdes_reachable s \<Longrightarrow> fdes_inv s"
proof (induction rule: fdes_reachable.induct)
  case (set s fl fd num ptr r s')
  then show ?case using ep.set_law [of s fd fl num ptr] fdes_ops_nonneg(1) by fastforce
next
  case (clr s fd fl r s')
  then show ?case using ep.clr_law [of s fd fl r s'] fdes_ops_nonneg(2) by fastforce
next
  case (del s fd r s')
  show ?case
  proof (cases "fdes_flags s fd = 0")
    case True
    then have "ep_interest s fd = None" using del.IH by (simp add: fdes_inv_def fdes_flags_def)
    then have "s' = s" using del.hyps(2) by (simp add: fdes_del_def epoll_ctl_def)
    then show ?thesis using del.IH by simp
  next
    case False
    then have "0 \<le> fd" using flags_at_bounds by (auto simp: fdes_flags_def)
    then show ?thesis using ep.del_law [OF del.IH _ False] del.hyps(2) by auto
  qed
qed (rule fdes_inv_new)

section \<open>Properties\<close>

text \<open>C28: While the kernel accepts the requests, after any sequence of Fdevents::set, clr and del the interest
  list of epoll holds exactly the descriptors with a subscription, each with the EPOLLIN and
  EPOLLOUT bits of its FDEVENT_IN and FDEVENT_OUT flags.\<close>

theorem epoll_mirrors_flags:
  assumes "fdes_reachable s"
  shows "ep_interest s fd = (let fl = fdes_flags s fd in if fl = 0 then None else Some (epoll_mask fl))"
  using fdes_reachable_inv [OF assms] by (simp add: fdes_inv_def fdes_flags_def)

theorem epoll_mirrors_flags_witness:
  "\<exists>s. fdes_set True 3 FDEVENT_IN 0 (Some 7) Fdevents_new = Inr (0, s) \<and>
       ep_interest s 3 = (let fl = fdes_flags s 3 in if fl = 0 then None else Some (epoll_mask fl)) \<and> fdes_flags s 3 = 1"
proof -
  obtain s where s: "fdes_set True 3 FDEVENT_IN 0 (Some 7) Fdevents_new = Inr (0, s)"
    "fdes_flags s = (fdes_flags Fdevents_new)(3 := fdes_flags Fdevents_new 3 OR FDEVENT_IN)"
    using ep.set_law [OF fdes_inv_new, of 3 FDEVENT_IN 0 "Some 7"]
    by (auto simp: FDEVENT_IN_def)
  have "fdes_reachable s"
    by (rule fdes_reachable.set [OF fdes_reachable.init _ s(1)]) (simp add: FDEVENT_IN_def)
  from epoll_mirrors_flags [OF this, of 3] s show ?thesis
    by (auto simp: FDEVENT_IN_def)
qed

text \<open>Subscribing a descriptor to flags it did not have and then clearing the same flags gives back the
  subscriptions of every descriptor, in the epoll back end.\<close>

theorem fdes_set_clr_restores:
  assumes "fdes_reachable s" "fl \<noteq> 0" "fdes_flags s fd AND fl = 0"
    "fdes_set True fd fl num ptr s = Inr (r, s1)" "fdes_clr True fd fl s1 = Inr (q, s2)"
  shows "fdes_flags s2 = fdes_flags s"
  using ep.set_then_clr [OF fdes_reachable_inv [OF assms(1)] fdes_ops_nonneg(1) [OF assms(4)] assms(2-5)] by blast

theorem fdes_set_clr_restores_witness:
  "\<exists>s1 s2. fdes_set True 0 FDEVENT_OUT 0 None Fdevents_new = Inr (0, s1) \<and>
     fdes_clr True 0 FDEVENT_OUT s1 = Inr (0, s2) \<and> fdes_flags s2 = fdes_flags Fdevents_new"
proof -
  obtain s1 where s1: "fdes_set True 0 FDEVENT_OUT 0 None Fdevents_new = Inr (0, s1)" "fdes_inv s1"
    using ep.set_law [OF fdes_inv_new, of 0 FDEVENT_OUT 0 None] by (auto simp: FDEVENT_OUT_def)
  have "\<exists>r s2. fdes_clr True 0 FDEVENT_OUT s1 = Inr (r, s2)"
    using get_fde_spec [of 0 "ep_events s1"] by (fastforce simp: fdes_clr_def Let_def split: option.splits)
  then obtain s2 where s2: "fdes_clr True 0 FDEVENT_OUT s1 = Inr (0, s2)"
    using fdes_clr_law [OF s1(2)] by fastforce
  have "fdes_flags s2 = fdes_flags Fdevents_new"
    by (rule fdes_set_clr_restores [OF fdes_reachable.init _ _ s1(1) s2])
       (simp_all add: FDEVENT_OUT_def)
  with s1 s2 show ?thesis by blast
qed

text \<open>In the select back end, clearing the only subscription there is runs the loop that lowers maxfd past
  index 0 and reads outside the vector of events.\<close>

theorem sel_clr_last_faults:
  assumes "sel_inv s" "0 \<le> fd" "sel_flags s fd \<noteq> 0" "sel_flags s fd AND NOT fl = 0"
    "\<forall>g. g \<noteq> fd \<longrightarrow> sel_flags s g = 0"
  shows "sel_clr fd fl s = Inl Out_of_bounds"
proof (rule ccontr)
  assume ne: "sel_clr fd fl s \<noteq> Inl Out_of_bounds"
  obtain fde evs where g: "get_fde (sel_events s) fd = Inr (fde, evs)" "nat fd < length evs"
    "length (sel_events s) \<le> length evs"
    "s_flags fde = flags_at (sel_events s) fd" "flags_at evs = flags_at (sel_events s)"
    using get_fde_spec [OF assms(2)] by blast
  have "s_flags fde AND fl \<noteq> 0"
  proof
    assume "s_flags fde AND fl = 0"
    then have "s_flags fde = s_flags fde AND NOT fl" by (simp add: bit_eq_iff bit_and_iff bit_not_iff) blast
    then show False using assms(3,4) g(4) by (simp add: sel_flags_def)
  qed
  let ?evs' = "evs[nat fd := fde\<lparr>s_flags := s_flags fde AND NOT fl\<rparr>]"
  have f: "flags_at ?evs' = (sel_flags s)(fd := 0)"
    using g assms(2,4) by (simp add: flags_at_update sel_flags_def)
  obtain m where m: "lower_maxfd ?evs' (nat (maxfd s + 1)) = Inr m" "is_maxfd (flags_at ?evs') m"
    using sel_lower [OF assms(1) f] g by auto
  have "m = -1" using m(2) f assms(5) by (auto simp: is_maxfd_def split: if_splits)
  moreover have "nat (maxfd s + 1) \<le> length ?evs'"
    using assms(1) g(3) is_maxfd_length [of "sel_events s" "maxfd s"] by (auto simp: sel_inv_def sel_flags_def)
  ultimately show False
    using ne g \<open>s_flags fde AND fl \<noteq> 0\<close> m(1) lower_maxfd_unchecked_eq [of "nat (maxfd s + 1)" ?evs']
    by (simp add: sel_clr_def Let_def)
qed

theorem sel_clr_last_faults_witness:
  "\<exists>s. sel_set 5 FDEVENT_IN 0 None Sfdevents_new = Inr (0, s) \<and> sel_clr 5 FDEVENT_IN s = Inl Out_of_bounds"
proof -
  obtain s where s: "sel_set 5 FDEVENT_IN 0 None Sfdevents_new = Inr (0, s)" "sel_inv s"
    "sel_flags s = (sel_flags Sfdevents_new)(5 := sel_flags Sfdevents_new 5 OR FDEVENT_IN)"
    using se.set_law [OF sel_inv_new, of 5 FDEVENT_IN 0 None]
    by (auto simp: FD_SETSIZE_def FDEVENT_IN_def)
  have "sel_clr 5 FDEVENT_IN s = Inl Out_of_bounds"
    by (rule sel_clr_last_faults [OF s(2)])
       (simp_all add: s(3) FDEVENT_IN_def)
  with s show ?thesis by blast
qed

end
