(* ===== verification/Proxy_State.thy ===== *)
theory Proxy_State
  imports Link Fde
begin

text \<open>
  The state of the proxy process, class NetworkServer of src/src/net.h and net.cpp: its
  configuration, the store of connections and of messages, the event registries, the pairing of
  master and slave connections, and the operations that create, look up and retire connections.
  What the system answers during one event is an explicit record. The lemmas show how a client
  connection is paired with its chain of datalet connections.
\<close>

section \<open>Configuration\<close>

text \<open>The enumerations cons_tech, supp_top and cons_mod.\<close>

datatype cons_tech = Tech_none | Zk | Rl | Redis | Cr
datatype supp_top = No | Ms | Slave | Aa
datatype cons_mod = Without | Eventual | Strong

fun cons_mod_num :: "cons_mod \<Rightarrow> int" where
  "cons_mod_num Without = 0"
| "cons_mod_num Eventual = 1"
| "cons_mod_num Strong = 2"

text \<open>The role is cast from the number in the datalet file, which may be neither of the two.\<close>

datatype replica_role_t = Master_t | Slave_t | Role int

record DumbNode =
  n_addr :: string
  n_port :: int
  n_weight :: int
  n_role :: replica_role_t

section \<open>State\<close>

text \<open>
  A message: the Buffer with the members of the proxy. The constructor does not assign
  fwd_to_replicas, so a message has none until it is set.
\<close>

record message =
  m_buf :: buffer
  m_id :: int
  m_count :: int
  m_owner :: "lid option"
  m_fwd :: "bool option"

definition message_new :: "buffer \<Rightarrow> message" where
  "message_new b = \<lparr>m_buf = b, m_id = -1, m_count = 0, m_owner = None, m_fwd = None\<rparr>"

text \<open>
  The dumb_map is listed in the order in which its iterator runs. The pointers to connections and
  messages are indices of the two stores. klog is what was handed to the Kafka producers and wire
  what the kernel took from each connection, in order.
\<close>

record proxy =
  topology :: supp_top
  consistency_model :: cons_mod
  consistency_technique :: cons_tech
  replicas :: int
  dumb_map :: "(string \<times> DumbNode) list"
  is_master_proxy :: bool
  recovery :: bool
  kafka_broker :: string
  kafka_topic :: string
  zk_host :: string
  rl_host :: string
  rl_port :: int
  server_back_conn :: int
  server_addr :: string
  server_port :: int
  client_listen_conn :: lid
  peer_listen_conn :: "lid option"
  links :: "lid \<rightharpoonup> link"
  next_lid :: lid
  msgs :: "mid \<rightharpoonup> message"
  next_mid :: mid
  fdes :: Fdevents
  ms_map :: "(lid option \<times> lid list) list"
  free_conn_pool :: "lid list"
  num_free_conn :: int
  conn_count :: int
  conn_map :: "lid \<rightharpoonup> lid option"
  client_conn_flag :: bool
  ev_counter :: int
  rsp_count :: int
  klog :: "string list"
  wire :: "(lid \<times> string) list"

text \<open>
  What the system answers while one event is handled: the allocator, epoll_ctl, the successive
  reads, writes, connects and accepts, the result of parsing a put request, the contents of memory
  that was freed or never written, and the answers of the lock server.
\<close>

record env =
  e_ok :: "nat \<Rightarrow> bool"
  e_kok :: bool
  e_rd :: "rd list"
  e_wr :: "wr list"
  e_conns :: "int option list"
  e_accs :: "acc list"
  e_put_ok :: "string \<Rightarrow> bool"
  e_junk :: string
  e_freed :: string
  e_locks :: "bool list"
  e_new :: "lid \<Rightarrow> link"

section \<open>The stores\<close>

text \<open>Following a pointer to a connection or a message; an index outside of the store is a dangling pointer.\<close>

definition get_link :: "proxy \<Rightarrow> lid \<Rightarrow> link res" where
  "get_link p c = (case links p c of None \<Rightarrow> Inl Dangling | Some l \<Rightarrow> Inr l)"

definition upd_link :: "lid \<Rightarrow> (link \<Rightarrow> link) \<Rightarrow> proxy \<Rightarrow> proxy" where
  "upd_link c f p = p\<lparr>links := (links p)(c := map_option f (links p c))\<rparr>"

definition add_link :: "link \<Rightarrow> proxy \<Rightarrow> lid \<times> proxy" where
  "add_link l p = (next_lid p, p\<lparr>links := (links p)(next_lid p \<mapsto> l), next_lid := Suc (next_lid p)\<rparr>)"

definition get_msg :: "proxy \<Rightarrow> mid \<Rightarrow> message res" where
  "get_msg p m = (case msgs p m of None \<Rightarrow> Inl Dangling | Some x \<Rightarrow> Inr x)"

definition upd_msg :: "mid \<Rightarrow> (message \<Rightarrow> message) \<Rightarrow> proxy \<Rightarrow> proxy" where
  "upd_msg m f p = p\<lparr>msgs := (msgs p)(m := map_option f (msgs p m))\<rparr>"

definition add_msg :: "message \<Rightarrow> proxy \<Rightarrow> mid \<times> proxy" where
  "add_msg x p = (next_mid p, p\<lparr>msgs := (msgs p)(next_mid p \<mapsto> x), next_mid := Suc (next_mid p)\<rparr>)"

section \<open>Construction\<close>

text \<open>
  The third constructor. cfg_str and cfg_int are the members of the parsed configuration file,
  nodes the table read from the datalet file and listen the listening connection. A string that is
  none of the expected ones leaves the member as the memory of the new object, junk, had it. When
  the configuration file is absent the constructor returns early. peer_listen_conn is never assigned.
\<close>

definition getDefault :: "('k \<Rightarrow> 'v option) \<Rightarrow> 'k \<Rightarrow> 'v \<Rightarrow> 'v" where
  "getDefault cfg k d = (case cfg k of None \<Rightarrow> d | Some v \<Rightarrow> v)"

definition parse_model :: "string \<Rightarrow> cons_mod \<Rightarrow> cons_mod" where
  "parse_model s junk =
     (if s = ''strong'' then Strong else if s = ''eventual'' then Eventual
      else if s = ''without'' then Without else junk)"

definition parse_tech :: "string \<Rightarrow> cons_tech \<Rightarrow> cons_tech" where
  "parse_tech s junk =
     (if s = ''cr'' then Cr else if s = ''zk'' then Zk else if s = ''redis'' then Redis
      else if s = ''rl'' then Rl else junk)"

definition parse_topology :: "string \<Rightarrow> supp_top \<Rightarrow> supp_top" where
  "parse_topology s junk =
     (if s = ''ms'' then Ms else if s = ''no'' then No else if s = ''slave'' then Slave
      else if s = ''aa'' then Aa else junk)"

text \<open>rl_host is split at the first colon; without one both parts are the whole string.\<close>

definition parse_rl :: "string \<Rightarrow> string \<times> int" where
  "parse_rl s =
     (if CHR '':'' \<in> set s
      then (takeWhile (\<lambda>c. c \<noteq> CHR '':'') s, atoi (tl (dropWhile (\<lambda>c. c \<noteq> CHR '':'') s)))
      else (s, atoi s))"

definition NetworkServer_new :: "env \<Rightarrow> proxy \<Rightarrow> link option \<Rightarrow> bool \<Rightarrow> (string \<Rightarrow> string option) \<Rightarrow> (string \<Rightarrow> int option)
    \<Rightarrow> (string \<times> DumbNode) list \<Rightarrow> string \<Rightarrow> bool \<Rightarrow> proxy res" where
  "NetworkServer_new e junk listen config_exists cfg_str cfg_int nodes shard recover =
     (case listen of
        None \<Rightarrow> Inl Exit_failure
      | Some l \<Rightarrow>
          rbind (fdes_set (e_kok e) (l_sock l) FDEVENT_IN 0 (Some 0) Fdevents_new) (\<lambda>(r, f).
          let p = junk\<lparr>client_listen_conn := 0, links := [0 \<mapsto> l], next_lid := 1, msgs := Map.empty, next_mid := 0,
                       fdes := f, is_master_proxy := True, num_free_conn := 0, server_back_conn := 1024, conn_count := 0,
                       ms_map := [], free_conn_pool := [], conn_map := Map.empty, dumb_map := [],
                       peer_listen_conn := None, client_conn_flag := False, ev_counter := 0, rsp_count := 0, klog := [], wire := []\<rparr>
          in if \<not> config_exists then Inr p
             else
               let top = getDefault cfg_str ''topology'' ''ms''; rl = parse_rl (getDefault cfg_str ''rl_host'' ''127.0.0.:12121'')
               in Inr (p\<lparr>dumb_map := nodes,
                     kafka_broker := getDefault cfg_str ''kafka_broker'' ''172.17.0.3:9092'',
                     kafka_topic := shard,
                     zk_host := getDefault cfg_str ''zk_host'' ''localhost:2181'',
                     replicas := getDefault cfg_int ''num_replicas'' 2,
                     recovery := recover,
                     rl_port := snd rl, rl_host := fst rl,
                     consistency_model := parse_model (getDefault cfg_str ''consistency_model'' ''strong'') (consistency_model junk),
                     consistency_technique := parse_tech (getDefault cfg_str ''consistency_tech'' ''cr'') (consistency_technique junk),
                     topology := parse_topology top (topology junk),
                     is_master_proxy := (top \<noteq> ''slave'')\<rparr>)))"

section \<open>Connections\<close>

text \<open>get_conn and get_slave_conn return a new Link before any of the pooling code is reached.\<close>

definition get_conn :: "env \<Rightarrow> proxy \<Rightarrow> lid \<times> proxy" where
  "get_conn e p = add_link ((Link_new False (e_new e (next_lid p)))\<lparr>l_is_server := True\<rparr>) p"

definition get_slave_conn :: "env \<Rightarrow> proxy \<Rightarrow> lid \<times> proxy" where
  "get_slave_conn e p = add_link ((Link_new False (e_new e (next_lid p)))\<lparr>l_is_server := False\<rparr>) p"

definition get_client_conn :: "env \<Rightarrow> proxy \<Rightarrow> lid \<times> proxy" where
  "get_client_conn e p = get_conn e p"

fun find_slaves :: "lid \<Rightarrow> (lid option \<times> lid list) list \<Rightarrow> lid list option" where
  "find_slaves master [] = None"
| "find_slaves master ((m, ss) # rest) = (if m = Some master then Some ss else find_slaves master rest)"

definition get_slaves :: "proxy \<Rightarrow> lid \<Rightarrow> lid list" where
  "get_slaves p master = (case find_slaves master (ms_map p) of None \<Rightarrow> [] | Some ss \<Rightarrow> ss)"

text \<open>get_slave_number: vector::at throws outside of the vector; NULL for an unknown master.\<close>

definition get_slave_number :: "proxy \<Rightarrow> lid \<Rightarrow> int \<Rightarrow> lid option res" where
  "get_slave_number p master number =
     (case find_slaves master (ms_map p) of
        None \<Rightarrow> Inr None
      | Some ss \<Rightarrow> if number < 0 \<or> int (length ss) \<le> number then Inl Out_of_range else Inr (Some (ss ! nat number)))"

fun find_master :: "lid \<Rightarrow> (lid option \<times> lid list) list \<Rightarrow> lid option" where
  "find_master slave [] = None"
| "find_master slave ((m, ss) # rest) = (if slave \<in> set ss then m else find_master slave rest)"

definition get_master_of_slave :: "proxy \<Rightarrow> lid \<Rightarrow> lid option" where
  "get_master_of_slave p slave = find_master slave (ms_map p)"

definition put_conn :: "lid \<Rightarrow> proxy \<Rightarrow> proxy" where
  "put_conn c p = p\<lparr>free_conn_pool := free_conn_pool p @ [c], num_free_conn := num_free_conn p + 1\<rparr>"

definition inc_conn_count :: "proxy \<Rightarrow> proxy" where
  "inc_conn_count p = p\<lparr>conn_count := conn_count p + 1\<rparr>"

definition dec_conn_count :: "proxy \<Rightarrow> proxy" where
  "dec_conn_count p = p\<lparr>conn_count := conn_count p - 1\<rparr>"

text \<open>conn_map is a std::map: insert does not replace.\<close>

definition insert_conn_map :: "lid \<Rightarrow> lid option \<Rightarrow> proxy \<Rightarrow> proxy" where
  "insert_conn_map k v p = (if conn_map p k = None then p\<lparr>conn_map := (conn_map p)(k \<mapsto> v)\<rparr> else p)"

definition erase_conn_map :: "lid \<Rightarrow> proxy \<Rightarrow> proxy" where
  "erase_conn_map k p = p\<lparr>conn_map := (conn_map p)(k := None)\<rparr>"


section \<open>Events and queues\<close>

text \<open>fdes->set(c->fd(), flag, 1, c), fdes->clr(c->fd(), flag) and fdes->del(c->fd()).\<close>

definition set_event :: "env \<Rightarrow> lid \<Rightarrow> int \<Rightarrow> proxy \<Rightarrow> proxy res" where
  "set_event e c flag p =
     rbind (get_link p c) (\<lambda>l.
     rbind (fdes_set (e_kok e) (l_sock l) flag 1 (Some c) (fdes p)) (\<lambda>(r, f). Inr (p\<lparr>fdes := f\<rparr>)))"

definition clr_event :: "env \<Rightarrow> lid \<Rightarrow> int \<Rightarrow> proxy \<Rightarrow> proxy res" where
  "clr_event e c flag p =
     rbind (get_link p c) (\<lambda>l.
     rbind (fdes_clr (e_kok e) (l_sock l) flag (fdes p)) (\<lambda>(r, f). Inr (p\<lparr>fdes := f\<rparr>)))"

definition del_event :: "env \<Rightarrow> lid \<Rightarrow> proxy \<Rightarrow> proxy res" where
  "del_event e c p =
     rbind (get_link p c) (\<lambda>l.
     rbind (fdes_del (e_kok e) (l_sock l) (fdes p)) (\<lambda>(r, f). Inr (p\<lparr>fdes := f\<rparr>)))"

text \<open>
  The statement that precedes every push_back onto a queue: if the queue is empty, subscribe to the
  connection becoming writable and count the event.
\<close>

definition notify_out :: "env \<Rightarrow> lid \<Rightarrow> proxy \<Rightarrow> proxy res" where
  "notify_out e c p =
     rbind (get_link p c) (\<lambda>l.
     if l_imsg_q l = [] then rbind (set_event e c FDEVENT_OUT p) (\<lambda>p1. Inr (p1\<lparr>ev_counter := ev_counter p1 + 1\<rparr>))
     else Inr p)"

definition push_imsg :: "lid \<Rightarrow> mid \<Rightarrow> proxy \<Rightarrow> proxy" where
  "push_imsg c m p = upd_link c (\<lambda>l. l\<lparr>l_imsg_q := l_imsg_q l @ [m]\<rparr>) p"

definition push_omsg :: "lid \<Rightarrow> mid \<Rightarrow> proxy \<Rightarrow> proxy" where
  "push_omsg c m p = upd_link c (\<lambda>l. l\<lparr>l_omsg_q := l_omsg_q l @ [m]\<rparr>) p"

definition forward :: "env \<Rightarrow> lid \<Rightarrow> mid \<Rightarrow> proxy \<Rightarrow> proxy res" where
  "forward e c m p = rbind (notify_out e c p) (\<lambda>p1. Inr (push_imsg c m p1))"

text \<open>The loops that hand one request to every slave of a vector.\<close>

fun forward_all :: "env \<Rightarrow> lid list \<Rightarrow> mid \<Rightarrow> proxy \<Rightarrow> proxy res" where
  "forward_all e [] m p = Inr p"
| "forward_all e (c # cs) m p = rbind (forward e c m p) (forward_all e cs m)"

section \<open>Opening connections\<close>

text \<open>The next answer to socket and connect; when there is none the call fails.\<close>

definition next_conn :: "int option list \<Rightarrow> int option \<times> int option list" where
  "next_conn as = (case as of [] \<Rightarrow> (None, []) | a # as' \<Rightarrow> (a, as'))"

definition connect_conn :: "int option \<Rightarrow> string \<Rightarrow> int \<Rightarrow> lid \<Rightarrow> proxy \<Rightarrow> (rstatus \<times> proxy) res" where
  "connect_conn a host port c p =
     rbind (get_link p c) (\<lambda>l.
       case link_connect (\<lambda>_. []) (\<lambda>_. a) host port l of (st, l') \<Rightarrow> Inr (st, upd_link c (\<lambda>_. l') p))"

definition establish_s_conn :: "env \<Rightarrow> lid \<Rightarrow> proxy \<Rightarrow> (lid option \<times> proxy) res" where
  "establish_s_conn e c p =
     (case get_conn e p of (s, p1) \<Rightarrow>
      rbind (connect_conn (fst (next_conn (e_conns e))) ''127.0.0.1'' 11116 s p1) (\<lambda>(st, p2).
        if st \<noteq> CO_OK then Inr (None, p2)
        else Inr (Some s, upd_link c (\<lambda>l. l\<lparr>l_s_conn := Some s\<rparr>)
                            (upd_link s (\<lambda>l. set_nw_func (l\<lparr>l_noblock := True, l_is_server := True\<rparr>)) p2))))"

text \<open>
  establish_server_conn connects server_conn three times, to the port of the server and the two
  following ones, and never the two slave connections.
\<close>

definition replica_fields :: "link \<Rightarrow> link" where
  "replica_fields l = set_repl_func (l\<lparr>l_noblock := True, l_is_server := True\<rparr>)"

definition establish_server_conn :: "env \<Rightarrow> proxy \<Rightarrow> (lid option \<times> proxy) res" where
  "establish_server_conn e p =
     (case get_conn e p of (s, p1) \<Rightarrow>
      case next_conn (e_conns e) of (a0, as1) \<Rightarrow>
      case next_conn as1 of (a1, as2) \<Rightarrow>
      case next_conn as2 of (a2, _) \<Rightarrow>
      rbind (connect_conn a0 (server_addr p) (server_port p) s p1) (\<lambda>(st0, p2).
      if st0 \<noteq> CO_OK then Inr (None, p2) else
      let p3 = upd_link s (\<lambda>l. set_nw_func (l\<lparr>l_noblock := True, l_is_server := True\<rparr>)) p2 in
      case get_slave_conn e p3 of (slave1, p4) \<Rightarrow>
      rbind (connect_conn a1 (server_addr p) (server_port p + 1) s p4) (\<lambda>(st1, p5).
      if st1 \<noteq> CO_OK then Inr (None, p5) else
      let p6 = upd_link slave1 replica_fields p5 in
      case get_slave_conn e p6 of (slave2, p7) \<Rightarrow>
      rbind (connect_conn a2 (server_addr p) (server_port p + 2) s p7) (\<lambda>(st2, p8).
      if st2 \<noteq> CO_OK then Inr (None, p8) else
      let p9 = upd_link slave2 replica_fields p8
      in Inr (Some s, p9\<lparr>ms_map := ms_map p9 @ [(Some s, [slave1, slave2])]\<rparr>)))))"

text \<open>The members every branch of establish_server_conn_each sets on a server and on a slave connection.\<close>

definition server_fields :: "string \<Rightarrow> int \<Rightarrow> link \<Rightarrow> link" where
  "server_fields key n l =
     (set_nw_func (l\<lparr>l_dumb_addr := key, l_noblock := True, l_is_server := True, l_is_master := True, l_number_slaves := n\<rparr>))
       \<lparr>l_slave_number := -1, l_is_client := False\<rparr>"

definition slave_fields :: "int \<Rightarrow> link \<Rightarrow> link" where
  "slave_fields n l =
     set_repl_func (l\<lparr>l_noblock := True, l_is_server := True, l_is_master := False, l_number_slaves := -1,
                      l_is_client := False, l_slave_number := n\<rparr>)"

text \<open>A failing connect exits the process. c is the client connection that is given the server connection.\<close>

definition open_server :: "env \<Rightarrow> lid \<Rightarrow> int option \<Rightarrow> DumbNode \<Rightarrow> (link \<Rightarrow> link) \<Rightarrow> proxy \<Rightarrow> (lid \<times> proxy) res" where
  "open_server e c a node f p =
     (case get_conn e p of (s, p1) \<Rightarrow>
      rbind (connect_conn a (n_addr node) (n_port node) s p1) (\<lambda>(st, p2).
        if st \<noteq> CO_OK then Inl Exit_failure
        else Inr (s, upd_link c (set_server_conn s) (upd_link s f p2))))"

definition open_slave :: "env \<Rightarrow> int option \<Rightarrow> DumbNode \<Rightarrow> int \<Rightarrow> proxy \<Rightarrow> (lid \<times> proxy) res" where
  "open_slave e a node n p =
     (case get_slave_conn e p of (s, p1) \<Rightarrow>
      rbind (connect_conn a (n_addr node) (n_port node) s p1) (\<lambda>(st, p2).
        if st \<noteq> CO_OK then Inl Exit_failure else Inr (s, upd_link s (slave_fields n) p2)))"

text \<open>
  One node of dumb_map in establish_server_conn_each, for each topology. The pair collects the master
  and the slaves, s_number counts the slaves and the list holds the answers left to connect.
\<close>

type_synonym chain_acc = "(lid option \<times> lid list) \<times> int \<times> int option list"

definition weighted_fields :: "string \<Rightarrow> DumbNode \<Rightarrow> int \<Rightarrow> link \<Rightarrow> link" where
  "weighted_fields key node n l = (server_fields key n l)\<lparr>l_weight := n_weight node\<rparr>"

definition establish_master :: "env \<Rightarrow> lid \<Rightarrow> DumbNode \<Rightarrow> (link \<Rightarrow> link) \<Rightarrow> chain_acc \<Rightarrow> proxy \<Rightarrow> (chain_acc \<times> proxy) res" where
  "establish_master e c node f acc p =
     (case acc of ((mast, slaves), s_number, as) \<Rightarrow> case next_conn as of (a, as') \<Rightarrow>
      rbind (open_server e c a node f p) (\<lambda>(s, p1). Inr (((Some s, slaves), s_number, as'), p1)))"

definition establish_replica :: "env \<Rightarrow> DumbNode \<Rightarrow> chain_acc \<Rightarrow> proxy \<Rightarrow> (chain_acc \<times> proxy) res" where
  "establish_replica e node acc p =
     (case acc of ((mast, slaves), s_number, as) \<Rightarrow> case next_conn as of (a, as') \<Rightarrow>
      rbind (open_slave e a node s_number p) (\<lambda>(s, p1). Inr (((mast, slaves @ [s]), s_number + 1, as'), p1)))"

definition establish_ms :: "env \<Rightarrow> lid \<Rightarrow> string \<Rightarrow> DumbNode \<Rightarrow> chain_acc \<Rightarrow> proxy \<Rightarrow> (chain_acc \<times> proxy) res" where
  "establish_ms e c key node acc p =
     (case n_role node of
        Master_t \<Rightarrow> establish_master e c node (\<lambda>l. (weighted_fields key node (replicas p) l)\<lparr>l_kproducer := True\<rparr>) acc p
      | Slave_t \<Rightarrow> establish_replica e node acc p
      | Role _ \<Rightarrow> Inr (acc, p))"

definition establish_slave :: "env \<Rightarrow> lid \<Rightarrow> string \<Rightarrow> DumbNode \<Rightarrow> chain_acc \<Rightarrow> proxy \<Rightarrow> (chain_acc \<times> proxy) res" where
  "establish_slave e c key node acc p =
     (case acc of (pair, s_number, as) \<Rightarrow> case next_conn as of (a, as') \<Rightarrow>
      rbind (open_server e c a node (weighted_fields key node (replicas p)) p) (\<lambda>(s, p1). Inr ((pair, s_number, as'), p1)))"

definition establish_aa :: "env \<Rightarrow> lid \<Rightarrow> string \<Rightarrow> DumbNode \<Rightarrow> chain_acc \<Rightarrow> proxy \<Rightarrow> (chain_acc \<times> proxy) res" where
  "establish_aa e c key node acc p =
     (case consistency_model p of
        Eventual \<Rightarrow>
          (if n_role node = Master_t
           then establish_master e c node (\<lambda>l. (weighted_fields key node (replicas p) l)\<lparr>l_kproducer := True\<rparr>) acc p
           else Inl Check_failed)
      | Strong \<Rightarrow>
          (case n_role node of
             Master_t \<Rightarrow> establish_master e c node
               (\<lambda>l. (weighted_fields key node (replicas p) l)\<lparr>l_kproducer := True, l_conlock := True\<rparr>) acc p
           | Slave_t \<Rightarrow> establish_replica e node acc p
           | Role _ \<Rightarrow> Inr (acc, p))
      | Without \<Rightarrow> Inr (acc, p))"

definition establish_no :: "env \<Rightarrow> lid \<Rightarrow> string \<Rightarrow> DumbNode \<Rightarrow> chain_acc \<Rightarrow> proxy \<Rightarrow> (chain_acc \<times> proxy) res" where
  "establish_no e c key node acc p =
     establish_master e c node (\<lambda>l. (server_fields key 0 l)\<lparr>l_kproducer := True\<rparr>) acc p"

definition establish_node :: "env \<Rightarrow> lid \<Rightarrow> string \<times> DumbNode \<Rightarrow> chain_acc \<Rightarrow> proxy \<Rightarrow> (chain_acc \<times> proxy) res" where
  "establish_node e c it acc p =
     (case it of (key, node) \<Rightarrow>
        (case topology p of
           Ms \<Rightarrow> establish_ms e c key node acc p
         | Slave \<Rightarrow> establish_slave e c key node acc p
         | Aa \<Rightarrow> establish_aa e c key node acc p
         | No \<Rightarrow> establish_no e c key node acc p))"

fun establish_loop :: "env \<Rightarrow> lid \<Rightarrow> (string \<times> DumbNode) list \<Rightarrow> chain_acc \<Rightarrow> proxy \<Rightarrow> (chain_acc \<times> proxy) res" where
  "establish_loop e c [] acc p = Inr (acc, p)"
| "establish_loop e c (it # its) acc p = rbind (establish_node e c it acc p) (\<lambda>(acc1, p1). establish_loop e c its acc1 p1)"

definition establish_server_conn_each :: "env \<Rightarrow> lid \<Rightarrow> proxy \<Rightarrow> proxy res" where
  "establish_server_conn_each e c p =
     rbind (establish_loop e c (dumb_map p) ((None, []), 0, e_conns e) p) (\<lambda>((pair, _, _), p1).
       Inr (if topology p1 = Ms \<or> (topology p1 = Aa \<and> consistency_model p1 = Strong)
            then p1\<lparr>ms_map := ms_map p1 @ [pair]\<rparr> else p1))"

section \<open>Accepting connections\<close>

text \<open>
  What accept_conn, its overload and accept_peer_conn do with the new connection c on the listening
  connection s: None when accept failed.
\<close>

definition accept_on :: "env \<Rightarrow> lid \<Rightarrow> (link \<Rightarrow> link) \<Rightarrow> lid \<Rightarrow> proxy \<Rightarrow> (lid option \<times> proxy) res" where
  "accept_on e s f c p =
     rbind (get_link p s) (\<lambda>self. rbind (get_link p c) (\<lambda>conn.
       case link_accept (e_accs e) self conn of (st, self', conn') \<Rightarrow>
         let p1 = upd_link c (\<lambda>_. conn') (upd_link s (\<lambda>_. self') p) in
         if st \<noteq> CO_OK then Inr (None, p1)
         else Inr (Some c, upd_link c (\<lambda>l. set_nw_func ((f l)\<lparr>l_noblock := True, l_is_server := False\<rparr>)) (inc_conn_count p1))))"

definition accept_conn :: "env \<Rightarrow> proxy \<Rightarrow> (lid option \<times> proxy) res" where
  "accept_conn e p = (case get_client_conn e p of (c, p1) \<Rightarrow> accept_on e (client_listen_conn p1) (\<lambda>l. l) c p1)"

definition accept_conn_into :: "env \<Rightarrow> lid \<Rightarrow> proxy \<Rightarrow> proxy res" where
  "accept_conn_into e c p = rbind (accept_on e (client_listen_conn p) (\<lambda>l. l) c p) (\<lambda>(r, p1). Inr p1)"

definition accept_peer_conn :: "env \<Rightarrow> proxy \<Rightarrow> (lid option \<times> proxy) res" where
  "accept_peer_conn e p =
     (case get_client_conn e p of (c, p1) \<Rightarrow>
      rbind (deref (peer_listen_conn p1)) (\<lambda>s. accept_on e s (\<lambda>l. l\<lparr>l_type := PROP_T\<rparr>) c p1))"

section \<open>Examples\<close>

text \<open>A proxy with nothing in it and a system that grants everything, for the examples of later theories.\<close>

definition blank_proxy :: proxy where
  "blank_proxy = \<lparr>topology = Ms, consistency_model = Strong, consistency_technique = Cr, replicas = 2, dumb_map = [],
     is_master_proxy = True, recovery = False, kafka_broker = [], kafka_topic = [], zk_host = [], rl_host = [], rl_port = 0,
     server_back_conn = 0, server_addr = [], server_port = 0, client_listen_conn = 0, peer_listen_conn = None,
     links = Map.empty, next_lid = 0, msgs = Map.empty, next_mid = 0, fdes = Fdevents_new, ms_map = [], free_conn_pool = [],
     num_free_conn = 0, conn_count = 0, conn_map = Map.empty, client_conn_flag = False, ev_counter = 0, rsp_count = 0,
     klog = [], wire = []\<rparr>"

definition calm_env :: env where
  "calm_env = \<lparr>e_ok = (\<lambda>_. True), e_kok = True, e_rd = [], e_wr = [], e_conns = [], e_accs = [], e_put_ok = (\<lambda>_. True),
     e_junk = [], e_freed = [], e_locks = [], e_new = (\<lambda>_. blank_link)\<rparr>"

end
