(* ===== verification/Proxy_Msg.thy ===== *)
theory Proxy_Msg
  imports Proxy_State
begin

text \<open>
  The message handlers of src/src/msg.cpp and NetworkServer::get_mapped_server_conn of net.cpp, for
  the compiled configuration (shared pointers, protobuf requests, Kafka, no ketama): requests from
  clients are split and forwarded to a datalet connection, responses travel back or along the
  chain of slaves. Every handler returns its status and the new state of the proxy, or the fault
  that stops the process.
\<close>

section \<open>Routing a request\<close>

text \<open>Reading a string that may have been deleted gives whatever its memory holds now.\<close>

definition read_field :: "env \<Rightarrow> field \<Rightarrow> string" where
  "read_field e f = (case f of Owned s \<Rightarrow> s | Freed \<Rightarrow> e_freed e)"

text \<open>delete cmnd; delete key: the two members of mapped_conn keep pointing there if they were set.\<close>

definition delete_strings :: "lid \<Rightarrow> proxy \<Rightarrow> proxy" where
  "delete_strings c p =
     (if cons_mod_num (consistency_model p) \<ge> 1 then upd_link c (\<lambda>l. l\<lparr>l_key := Freed, l_cmnd := Freed\<rparr>) p else p)"

text \<open>
  The part of get_mapped_server_conn after the request is parsed: which connection takes it. parse
  never returns a null pointer in this configuration.
\<close>

definition route :: "string \<Rightarrow> string \<Rightarrow> lid \<Rightarrow> proxy \<Rightarrow> (lid \<times> proxy) res" where
  "route cmnd key mc p =
     (let cm = cons_mod_num (consistency_model p);
          p1 = (if cm \<ge> 1 \<or> (cm \<ge> 2 \<and> topology p = Aa) then upd_link mc (\<lambda>l. l\<lparr>l_key := Owned key, l_cmnd := Owned cmnd\<rparr>) p else p)
      in if cm \<ge> 2 \<and> topology p = Aa then
           Inr (mc, if cmnd = ''set'' then upd_link mc (\<lambda>l. l\<lparr>l_fwd_to_replicas := True\<rparr>) p1 else p1)
         else if cmnd = ''set'' then
           Inr (mc, delete_strings mc (upd_link mc (\<lambda>l. l\<lparr>l_fwd_to_replicas := True, l_head := True, l_tail := False\<rparr>) p1))
         else
           let p2 = upd_link mc (\<lambda>l. l\<lparr>l_fwd_to_replicas := False\<rparr>) p1 in
           if consistency_model p = Strong \<and> consistency_technique p = Cr \<and> topology p = Ms then
             rbind (get_slave_number p2 mc (replicas p - 1)) (\<lambda>t. rbind (deref t) (\<lambda>t.
               Inr (t, delete_strings mc (upd_link t (\<lambda>l. l\<lparr>l_fwd_to_replicas := False, l_tail := True\<rparr>) p2))))
           else Inr (mc, delete_strings mc p2))"

definition get_mapped_server_conn :: "env \<Rightarrow> lid \<Rightarrow> mid \<Rightarrow> proxy \<Rightarrow> (lid \<times> proxy) res" where
  "get_mapped_server_conn e c m p =
     rbind (get_link p c) (\<lambda>l. rbind (get_msg p m) (\<lambda>msg.
     rbind (link_parse (e_put_ok e) (e_junk e) l (m_buf msg)) (\<lambda>(l', b').
     let p1 = upd_msg m (\<lambda>x. x\<lparr>m_buf := b'\<rparr>) (upd_link c (\<lambda>_. l') p) in
     case l_recv_data l' of
       f0 # f1 # _ \<Rightarrow> rbind (get_server_conn l') (\<lambda>mc. route (read_field e f0) (read_field e f1) mc p1)
     | _ \<Rightarrow> Inl Out_of_bounds)))"

definition req_mapped_forward :: "env \<Rightarrow> lid \<Rightarrow> mid \<Rightarrow> proxy \<Rightarrow> (lid \<times> proxy) res" where
  "req_mapped_forward e c m p = get_mapped_server_conn e c m p"

section \<open>Requests from clients\<close>

text \<open>conn->msg_read(): the new message, or None for the null pointer.\<close>

definition read_msg :: "env \<Rightarrow> lid \<Rightarrow> proxy \<Rightarrow> (mid option \<times> proxy) res" where
  "read_msg e c p =
     rbind (get_link p c) (\<lambda>l. rbind (msg_read (e_ok e) (l_noblock l) (e_rd e)) (\<lambda>(b, rs).
       case b of
         None \<Rightarrow> Inr (None, p)
       | Some b \<Rightarrow> (case add_msg (message_new b) p of (m, p1) \<Rightarrow> Inr (Some m, p1))))"

text \<open>The answer of ConLock::lock; when there is none left the lock is not acquired.\<close>

definition next_lock :: "bool list \<Rightarrow> bool \<times> bool list" where
  "next_lock lk = (case lk of [] \<Rightarrow> (False, []) | b # lk' \<Rightarrow> (b, lk'))"

text \<open>
  Copying the bytes of the request that was just parsed, from position cur of the message m, into a
  message of its own.
\<close>

definition copy_request :: "env \<Rightarrow> lid \<Rightarrow> lid \<Rightarrow> mid \<Rightarrow> int \<Rightarrow> proxy \<Rightarrow> (mid \<times> proxy) res" where
  "copy_request e c out m cur p =
     rbind (get_link p c) (\<lambda>l. rbind (get_link p out) (\<lambda>o'. rbind (get_msg p m) (\<lambda>msg.
     rbind (b_size_diff (m_buf msg)) (\<lambda>req_sz.
     CHECK (l_recv_data l \<noteq> []) (
     rbind (mem_read (b_buf (m_buf msg)) cur req_sz) (\<lambda>s.
     rbind (b_append (e_ok e) s (Buffer_new (nat req_sz))) (\<lambda>(r, b).
     Inr (add_msg \<lparr>m_buf = b, m_id = 1, m_count = 0, m_owner = Some c,
                    m_fwd = (if l_fwd_to_replicas o' then Some True else None)\<rparr> (upd_link c clear_recv_data p)))))))))"

text \<open>out_conn->kproducer->produce(req->data(), req->size(), ...) for requests that are forwarded to replicas.\<close>

definition produce_request :: "lid \<Rightarrow> mid \<Rightarrow> proxy \<Rightarrow> proxy res" where
  "produce_request out q p =
     rbind (get_link p out) (\<lambda>l.
     if (topology p = Ms \<or> topology p = Aa) \<and> l_fwd_to_replicas l then
       CHECK (l_kproducer l) (
       rbind (get_msg p q) (\<lambda>x.
       rbind (mem_read (b_buf (m_buf x)) (b_data (m_buf x)) (b_size (m_buf x))) (\<lambda>s. Inr (p\<lparr>klog := klog p @ [s]\<rparr>))))
     else Inr p)"

text \<open>
  The locks taken before a request is forwarded. The result says whether the handler goes on; when
  the lock is not acquired, the message read from the client is put in front of the responses that
  wait for the client, and the handler returns. The redlock object dlm is never assigned; for the
  ZooKeeper lock the key is read after get_mapped_server_conn has deleted it.
\<close>

definition lock_request :: "env \<Rightarrow> bool list \<Rightarrow> lid \<Rightarrow> lid \<Rightarrow> mid \<Rightarrow> mid \<Rightarrow> proxy \<Rightarrow> (bool \<times> bool list \<times> proxy) res" where
  "lock_request e lk c out m q p =
     rbind (get_link p out) (\<lambda>l.
     if consistency_model p = Strong \<and> topology p = Aa \<and> consistency_technique p = Rl then
       (if \<not> l_conlock l then Inl Uninitialised
        else if l_key l = Freed then Inl Use_after_free
        else case next_lock lk of (flag, lk') \<Rightarrow>
          if \<not> l_fwd_to_replicas l then Inr (True, lk', p)
          else if flag then rbind (forward_all e (get_slaves p out) q p) (\<lambda>p1. Inr (True, lk', p1))
          else rbind (set_event e c FDEVENT_IN (upd_link c (\<lambda>k. k\<lparr>l_imsg_q := m # l_imsg_q k\<rparr>) p)) (\<lambda>p1. Inr (False, lk', p1)))
     else if consistency_model p = Strong \<and> topology p = Ms \<and> l_fwd_to_replicas l \<and> consistency_technique p = Rl
     then Inl Uninitialised
     else if consistency_model p = Strong \<and> topology p = Ms \<and> l_fwd_to_replicas l \<and> consistency_technique p = Zk \<and> l_key l = Freed
     then Inl Use_after_free
     else Inr (True, lk, p))"

text \<open>Requests that are handed to the slaves at once because nobody waits for their acknowledgement.\<close>

definition propagate_request :: "env \<Rightarrow> lid \<Rightarrow> mid \<Rightarrow> proxy \<Rightarrow> proxy res" where
  "propagate_request e out q p =
     rbind (get_link p out) (\<lambda>l.
     if (topology p = No \<and> replicas p > 0 \<and> l_fwd_to_replicas l)
        \<or> (consistency_model p = Without \<and> topology p = Ms \<and> l_fwd_to_replicas l)
     then forward_all e (get_slaves p out) q p else Inr p)"

text \<open>One round of the loop of req_recv.\<close>

definition req_step :: "env \<Rightarrow> bool list \<Rightarrow> lid \<Rightarrow> mid \<Rightarrow> proxy \<Rightarrow> (bool \<times> bool list \<times> proxy) res" where
  "req_step e lk c m p =
     rbind (get_msg p m) (\<lambda>msg.
     rbind (req_mapped_forward e c m p) (\<lambda>(out, p1).
     rbind (notify_out e out p1) (\<lambda>p2.
     rbind (copy_request e c out m (b_data (m_buf msg)) p2) (\<lambda>(q, p3).
     rbind (produce_request out q p3) (\<lambda>p4.
     rbind (lock_request e lk c out m q p4) (\<lambda>(go, lk', p5).
     if \<not> go then Inr (False, lk', p5)
     else rbind (propagate_request e out q (push_imsg out q p5)) (\<lambda>p6. Inr (True, lk', p6))))))))"

text \<open>Every round consumes a frame of at least 28 bytes, so the size of the message is enough fuel.\<close>

fun req_loop :: "nat \<Rightarrow> env \<Rightarrow> bool list \<Rightarrow> lid \<Rightarrow> mid \<Rightarrow> proxy \<Rightarrow> (rstatus \<times> proxy) res" where
  "req_loop n e lk c m p =
     rbind (get_msg p m) (\<lambda>msg.
     if b_size (m_buf msg) = 0 then Inr (CO_OK, p)
     else case n of
       0 \<Rightarrow> Inl Diverges
     | Suc n' \<Rightarrow>
         rbind (req_step e lk c m p) (\<lambda>(go, lk', p1). if go then req_loop n' e lk' c m p1 else Inr (CO_OK, p1)))"

declare req_loop.simps [simp del]

definition req_recv :: "env \<Rightarrow> lid \<Rightarrow> proxy \<Rightarrow> (rstatus \<times> proxy) res" where
  "req_recv e c p =
     rbind (read_msg e c p) (\<lambda>(m, p1).
     case m of
       None \<Rightarrow> rbind (del_event e c (dec_conn_count (dec_conn_count (upd_link c mark_error p1)))) (\<lambda>p2. Inr (CO_C_DROP, p2))
     | Some m \<Rightarrow>
         let p2 = upd_msg m (\<lambda>x. x\<lparr>m_owner := Some c\<rparr>) p1 in
         rbind (get_msg p2 m) (\<lambda>msg. req_loop (nat (b_size (m_buf msg))) e (e_locks e) c m p2))"

section \<open>Requests to datalets\<close>

definition put_wire :: "lid \<Rightarrow> string \<Rightarrow> proxy \<Rightarrow> proxy" where
  "put_wire c s p = p\<lparr>wire := wire p @ [(c, s)]\<rparr>"

text \<open>Nothing to send: the event is cleared.\<close>

definition idle_out :: "env \<Rightarrow> lid \<Rightarrow> proxy \<Rightarrow> (rstatus \<times> proxy) res" where
  "idle_out e c p = rbind (clr_event e c FDEVENT_OUT p) (\<lambda>p1. Inr (CO_OK, p1\<lparr>ev_counter := ev_counter p1 - 1\<rparr>))"

text \<open>A write or read that failed: the connection is marked and its events are removed.\<close>

definition drop_conn :: "env \<Rightarrow> lid \<Rightarrow> rstatus \<Rightarrow> proxy \<Rightarrow> (rstatus \<times> proxy) res" where
  "drop_conn e c st p = rbind (del_event e c (upd_link c mark_error p)) (\<lambda>p1. Inr (st, p1))"

text \<open>Sending the message m that was taken from the queue, and waiting for its response.\<close>

definition send_request :: "env \<Rightarrow> lid \<Rightarrow> mid \<Rightarrow> proxy \<Rightarrow> (rstatus \<times> proxy) res" where
  "send_request e c m p =
     rbind (get_link p c) (\<lambda>l. rbind (get_msg p m) (\<lambda>x.
     rbind (msg_send (l_noblock l) (e_wr e) (m_buf x)) (\<lambda>(len, b, out, ws).
     let p1 = put_wire c out (upd_msg m (\<lambda>x. x\<lparr>m_buf := b\<rparr>) p) in
     if len \<le> 0 then drop_conn e c CO_ERR p1
     else rbind (set_event e c FDEVENT_IN (push_omsg c m p1)) (\<lambda>p2. Inr (CO_OK, p2)))))"

definition req_send :: "env \<Rightarrow> lid \<Rightarrow> proxy \<Rightarrow> (rstatus \<times> proxy) res" where
  "req_send e c p =
     rbind (get_link p c) (\<lambda>l.
     case l_imsg_q l of
       [] \<Rightarrow> idle_out e c p
     | m # ms \<Rightarrow>
         rbind (send_request e c m (upd_link c (\<lambda>l. l\<lparr>l_imsg_q := ms\<rparr>) p)) (\<lambda>(st, p1).
         if st = CO_OK then rbind (get_msg p1 m) (\<lambda>x. CHECK (m_id x = 1) (Inr (CO_OK, p1)))
         else Inr (st, p1)))"

definition replica_req_send :: "env \<Rightarrow> lid \<Rightarrow> proxy \<Rightarrow> (rstatus \<times> proxy) res" where
  "replica_req_send e c p =
     rbind (get_link p c) (\<lambda>l.
     CHECK (\<not> l_is_master l) (
     case l_imsg_q l of
       [] \<Rightarrow> idle_out e c p
     | m # ms \<Rightarrow>
         rbind (get_msg p m) (\<lambda>x.
         CHECK (b_size (m_buf x) > 0) (send_request e c m (upd_link c (\<lambda>l. l\<lparr>l_imsg_q := ms\<rparr>) p)))))"

section \<open>Responses from datalets\<close>

text \<open>The front of omsg_q, which must not be empty, is removed.\<close>

definition pop_omsg :: "lid \<Rightarrow> proxy \<Rightarrow> (mid \<times> proxy) res" where
  "pop_omsg c p =
     rbind (get_link p c) (\<lambda>l.
     case l_omsg_q l of
       [] \<Rightarrow> Inl Check_failed
     | m # ms \<Rightarrow> Inr (m, upd_link c (\<lambda>l. l\<lparr>l_omsg_q := ms\<rparr>) p))"

definition rsp_mapped_forward :: "lid \<Rightarrow> proxy \<Rightarrow> (lid \<times> proxy) res" where
  "rsp_mapped_forward c p =
     rbind (pop_omsg c p) (\<lambda>(pm, p1). rbind (get_msg p1 pm) (\<lambda>x.
     case m_owner x of
       None \<Rightarrow> Inl Check_failed
     | Some cl \<Rightarrow> CHECK (cl \<noteq> c) (Inr (cl, p1))))"

text \<open>rsp_forward checks only that the owner is another connection; a request without an owner gives NULL.\<close>

definition rsp_forward :: "lid \<Rightarrow> proxy \<Rightarrow> (lid option \<times> proxy) res" where
  "rsp_forward c p =
     rbind (pop_omsg c p) (\<lambda>(pm, p1). rbind (get_msg p1 pm) (\<lambda>x.
       CHECK (m_owner x \<noteq> Some c) (Inr (m_owner x, p1))))"

text \<open>Chain replication is on for M-S with strong consistency.\<close>

definition chain_mode :: "proxy \<Rightarrow> bool" where
  "chain_mode p \<longleftrightarrow> consistency_model p = Strong \<and> consistency_technique p = Cr \<and> topology p = Ms"

text \<open>
  Handing the request that slave or master c has answered to the next connection s of the chain.
  fwd_check is the last check of replica_rsp_recv.
\<close>

definition chain_forward :: "env \<Rightarrow> lid \<Rightarrow> lid \<Rightarrow> bool \<Rightarrow> proxy \<Rightarrow> (rstatus \<times> proxy) res" where
  "chain_forward e c s fwd_check p =
     rbind (notify_out e s p) (\<lambda>p1. rbind (get_link p1 s) (\<lambda>sl.
     CHECK (\<not> l_is_master sl) (
     rbind (pop_omsg c p1) (\<lambda>(pm, p2). rbind (get_msg p2 pm) (\<lambda>x.
     case m_owner x of
       None \<Rightarrow> Inl (if fwd_check then Check_failed else Null_deref)
     | Some cl \<Rightarrow>
         rbind (get_link p2 cl) (\<lambda>cl'.
         CHECK (l_is_client cl') (
         if fwd_check then
           (case m_fwd x of
              None \<Rightarrow> Inl Uninitialised
            | Some f \<Rightarrow> CHECK f (Inr (CO_OK, push_imsg s pm p2)))
         else Inr (CO_OK, push_imsg s pm p2))))))))"

text \<open>The slave c of the master has answered a set request and is not the last of the chain.\<close>

definition next_in_chain :: "env \<Rightarrow> lid \<Rightarrow> lid \<Rightarrow> int \<Rightarrow> proxy \<Rightarrow> (rstatus \<times> proxy) res" where
  "next_in_chain e c mast i p =
     rbind (get_slave_number p mast (i + 1)) (\<lambda>s. rbind (deref s) (\<lambda>s.
     CHECK (c \<noteq> s) (chain_forward e c s True p)))"

text \<open>The last slave has answered a set request: the response msg goes to the owner of the request.\<close>

definition tail_ack :: "env \<Rightarrow> lid \<Rightarrow> mid \<Rightarrow> proxy \<Rightarrow> (rstatus \<times> proxy) res" where
  "tail_ack e c msg p =
     rbind (pop_omsg c p) (\<lambda>(pm, p1). rbind (get_msg p1 pm) (\<lambda>x.
     case m_owner x of
       None \<Rightarrow> Inl Check_failed
     | Some cl \<Rightarrow> rbind (forward e cl msg p1) (\<lambda>p2. Inr (CO_OK, p2))))"

text \<open>The tail has answered a get request.\<close>

definition tail_answer :: "env \<Rightarrow> lid \<Rightarrow> mid \<Rightarrow> proxy \<Rightarrow> (rstatus \<times> proxy) res" where
  "tail_answer e c msg p =
     rbind (rsp_mapped_forward c p) (\<lambda>(cl, p1).
     rbind (forward e cl msg p1) (\<lambda>p2. Inr (CO_OK, upd_link c (\<lambda>l. l\<lparr>l_tail := False\<rparr>) p2)))"

definition replica_response :: "env \<Rightarrow> lid \<Rightarrow> mid \<Rightarrow> lid \<Rightarrow> proxy \<Rightarrow> (rstatus \<times> proxy) res" where
  "replica_response e c msg mast p =
     rbind (get_link p mast) (\<lambda>ml. rbind (get_link p c) (\<lambda>l.
     CHECK (l_is_server ml) (
     CHECK (c \<noteq> mast) (
     if chain_mode p \<and> l_fwd_to_replicas ml then
       (if l_slave_number l < replicas p - 1 then next_in_chain e c mast (l_slave_number l) p else tail_ack e c msg p)
     else if chain_mode p \<and> l_tail l \<and> \<not> l_fwd_to_replicas ml then tail_answer e c msg p
     else Inr (CO_OK, upd_link c (\<lambda>l. l\<lparr>l_omsg_q := tl (l_omsg_q l)\<rparr>) p)))))"

definition replica_rsp_recv :: "env \<Rightarrow> lid \<Rightarrow> proxy \<Rightarrow> (rstatus \<times> proxy) res" where
  "replica_rsp_recv e c p =
     rbind (get_link p c) (\<lambda>l0.
     CHECK (\<not> l_is_master l0) (
     rbind (read_msg e c p) (\<lambda>(r, p1).
     case r of
       None \<Rightarrow> drop_conn e c CO_OK p1
     | Some msg \<Rightarrow>
         (case get_master_of_slave p1 c of
            None \<Rightarrow> Inl Check_failed
          | Some mast \<Rightarrow> replica_response e c msg mast p1))))"

text \<open>
  The unlocking part of rsp_recv. In M-S dlm was never assigned, and neither was lock_id of the
  ZooKeeper lock, because req_recv fails before it would be. In A-A the strings are freed here.
\<close>

definition unlock_response :: "lid \<Rightarrow> proxy \<Rightarrow> proxy res" where
  "unlock_response c p =
     rbind (get_link p c) (\<lambda>l.
     if consistency_model p = Strong \<and> topology p = Ms \<and> l_fwd_to_replicas l \<and> (consistency_technique p = Zk \<or> consistency_technique p = Rl)
     then Inl Uninitialised
     else if consistency_model p = Strong \<and> topology p = Aa then
       (if \<not> l_conlock l then Inl Uninitialised
        else if l_key l = Freed then Inl Use_after_free
        else if l_cmnd l = Freed then Inl Double_free
        else Inr (upd_link c (\<lambda>l. l\<lparr>l_cmnd := Freed, l_key := Freed\<rparr>) p))
     else Inr p)"

text \<open>The response msg of the datalet c, other than to a set request in chain replication.\<close>

definition answer_client :: "env \<Rightarrow> lid \<Rightarrow> mid \<Rightarrow> proxy \<Rightarrow> (rstatus \<times> proxy) res" where
  "answer_client e c msg p =
     rbind (unlock_response c p) (\<lambda>p1.
     rbind (rsp_mapped_forward c p1) (\<lambda>(cl, p2).
     rbind (forward e cl msg p2) (\<lambda>p3. Inr (CO_OK, p3))))"

definition start_chain :: "env \<Rightarrow> lid \<Rightarrow> proxy \<Rightarrow> (rstatus \<times> proxy) res" where
  "start_chain e c p =
     rbind (get_slave_number p c 0) (\<lambda>s.
     case s of None \<Rightarrow> Inl Check_failed | Some s \<Rightarrow> chain_forward e c s False p)"

definition rsp_recv :: "env \<Rightarrow> lid \<Rightarrow> proxy \<Rightarrow> (rstatus \<times> proxy) res" where
  "rsp_recv e c p =
     rbind (read_msg e c p) (\<lambda>(r, p1).
     case r of
       None \<Rightarrow> drop_conn e c CO_OK p1
     | Some msg \<Rightarrow>
         let p2 = (upd_msg msg (\<lambda>x. x\<lparr>m_id := 2, m_count := rsp_count p1\<rparr>) p1)\<lparr>rsp_count := to_int32 (rsp_count p1 + 1)\<rparr> in
         rbind (get_link p2 c) (\<lambda>l.
         if chain_mode p2 \<and> l_fwd_to_replicas l then start_chain e c p2 else answer_client e c msg p2))"

section \<open>Responses to clients\<close>

definition rsp_send :: "env \<Rightarrow> lid \<Rightarrow> proxy \<Rightarrow> (rstatus \<times> proxy) res" where
  "rsp_send e c p =
     rbind (get_link p c) (\<lambda>l.
     case l_imsg_q l of
       [] \<Rightarrow> idle_out e c p
     | m # ms \<Rightarrow>
         let p1 = upd_link c (\<lambda>l. l\<lparr>l_imsg_q := ms\<rparr>) p in
         rbind (get_msg p1 m) (\<lambda>x.
         rbind (msg_write (e_ok e) (l_noblock l) (e_wr e) (m_buf x)) (\<lambda>(len, b, out, ws).
         let p2 = put_wire c out (upd_msg m (\<lambda>x. x\<lparr>m_buf := b\<rparr>) p1) in
         if len \<le> 0 then drop_conn e c CO_ERR p2 else Inr (CO_OK, p2))))"

text \<open>admin_replica_recv only logs; a failing recv makes the string constructor throw.\<close>

definition admin_replica_recv :: "int \<Rightarrow> proxy \<Rightarrow> (rstatus \<times> proxy) res" where
  "admin_replica_recv ret p = (if ret < 0 then Inl Out_of_range else Inr (CO_OK, p))"

end
