(* ===== verification/Proxy_Loop.thy ===== *)
theory Proxy_Loop
  imports Proxy_Msg
begin

text \<open>
  The event loop of the proxy, src/src/net.cpp from core_loop on: the wrappers recv and send that
  call the handler registered for a connection, the treatment of one event in batch_loop and in
  event_process, and a bounded run of batch_loop. The lemmas of this theory are the invariants of
  every run.
\<close>

unbundle bit_operations_syntax

section \<open>Dispatch\<close>

text \<open>The return value of the recv call in admin_replica_recv, whose buffer has 1024 bytes.\<close>

definition recv_ret :: "rd list \<Rightarrow> int" where
  "recv_ret rs =
     (case rs of Rd_data s # _ \<Rightarrow> min 1024 (int (length s)) | Rd_eof # _ \<Rightarrow> 0 | _ \<Rightarrow> -1)"

definition call_recv :: "env \<Rightarrow> recv_handler \<Rightarrow> lid \<Rightarrow> proxy \<Rightarrow> (rstatus \<times> proxy) res" where
  "call_recv e h c p =
     (case h of
        H_req_recv \<Rightarrow> req_recv e c p
      | H_rsp_recv \<Rightarrow> rsp_recv e c p
      | H_admin_replica_recv \<Rightarrow> admin_replica_recv (recv_ret (e_rd e)) p
      | H_replica_rsp_recv \<Rightarrow> replica_rsp_recv e c p)"

definition call_send :: "env \<Rightarrow> send_handler \<Rightarrow> lid \<Rightarrow> proxy \<Rightarrow> (rstatus \<times> proxy) res" where
  "call_send e h c p =
     (case h of
        H_rsp_send \<Rightarrow> rsp_send e c p
      | H_req_send \<Rightarrow> req_send e c p
      | H_replica_req_send \<Rightarrow> replica_req_send e c p)"

text \<open>A function pointer that was never assigned must not be called.\<close>

definition handler :: "'h option \<Rightarrow> 'h res" where
  "handler h = (case h of None \<Rightarrow> Inl Uninitialised | Some f \<Rightarrow> Inr f)"

definition proxy_recv :: "env \<Rightarrow> lid \<Rightarrow> proxy \<Rightarrow> (rstatus \<times> proxy) res" where
  "proxy_recv e c p =
     rbind (get_link p c) (\<lambda>l.
     if l_error l then Inr (CO_ERR, p)
     else rbind (handler (l_recv_nw l)) (\<lambda>h.
       rbind (call_recv e h c p) (\<lambda>(ret, p1).
         Inr (ret, if ret = CO_C_DROP then put_conn c (upd_link c reset_error p1) else p1))))"

definition proxy_send :: "env \<Rightarrow> lid \<Rightarrow> proxy \<Rightarrow> (rstatus \<times> proxy) res" where
  "proxy_send e c p =
     rbind (get_link p c) (\<lambda>l.
     if l_error l then Inr (CO_ERR, p)
     else rbind (handler (l_send_nw l)) (\<lambda>h. call_send e h c p))"

section \<open>Events\<close>

text \<open>
  A client connects, as batch_loop handles it: the connections to the datalets are opened before
  the client is accepted. When accept fails the event is registered nevertheless.
\<close>

definition accept_client :: "env \<Rightarrow> proxy \<Rightarrow> proxy res" where
  "accept_client e p =
     (case get_client_conn e p of (c, p1) \<Rightarrow>
      let p2 = upd_link c (\<lambda>l. l\<lparr>l_is_client := True\<rparr>) ((inc_conn_count p1)\<lparr>client_conn_flag := True\<rparr>) in
      rbind (establish_server_conn_each e c p2) (\<lambda>p3.
      rbind (accept_conn_into e c p3) (\<lambda>p4. set_event e c FDEVENT_IN p4)))"

definition accept_peer :: "env \<Rightarrow> proxy \<Rightarrow> proxy res" where
  "accept_peer e p =
     rbind (accept_peer_conn e p) (\<lambda>(r, p1).
     case r of
       None \<Rightarrow> Inr p1
     | Some c \<Rightarrow>
         rbind (establish_s_conn e c p1) (\<lambda>(s, p2).
         if s = None then Inr p2 else set_event e c FDEVENT_IN p2))"

definition dispatch :: "env \<Rightarrow> Fdevent \<Rightarrow> proxy \<Rightarrow> proxy res" where
  "dispatch e fde p =
     (if fe_events fde AND FDEVENT_IN \<noteq> 0 then rbind (deref (data_ptr fde)) (\<lambda>c. rbind (proxy_recv e c p) (\<lambda>(r, p1). Inr p1))
      else if fe_events fde AND FDEVENT_OUT \<noteq> 0 then rbind (deref (data_ptr fde)) (\<lambda>c. rbind (proxy_send e c p) (\<lambda>(r, p1). Inr p1))
      else Inr p)"

text \<open>One event in batch_loop.\<close>

definition batch_event :: "env \<Rightarrow> Fdevent \<Rightarrow> proxy \<Rightarrow> proxy res" where
  "batch_event e fde p =
     (if data_ptr fde = Some (client_listen_conn p) then accept_client e p
      else if peer_listen_conn p \<noteq> None \<and> data_ptr fde = peer_listen_conn p then accept_peer e p
      else dispatch e fde p)"

text \<open>
  One event in event_process, which core_loop uses. Here the client is accepted first and mapped to
  the connection establish_server_conn returns, which may be NULL.
\<close>

definition event_process :: "env \<Rightarrow> Fdevent \<Rightarrow> proxy \<Rightarrow> proxy res" where
  "event_process e fde p =
     (if data_ptr fde = Some (client_listen_conn p) then
        rbind (accept_conn e p) (\<lambda>(r, p1).
        case r of
          None \<Rightarrow> Inr p1
        | Some c \<Rightarrow>
            rbind (set_event e c FDEVENT_IN ((inc_conn_count p1)\<lparr>client_conn_flag := True\<rparr>)) (\<lambda>p2.
            rbind (establish_server_conn e p2) (\<lambda>(s, p3). Inr (insert_conn_map c s p3))))
      else dispatch e fde p)"

text \<open>
  The loop over the events that are ready. events holds pointers to the Fdevent of each descriptor,
  so every entry is looked up when its turn comes. The environment of the i-th event is envs i.
\<close>

fun batch_events :: "(nat \<Rightarrow> env) \<Rightarrow> nat \<Rightarrow> int list \<Rightarrow> proxy \<Rightarrow> proxy res" where
  "batch_events envs i [] p = Inr p"
| "batch_events envs i (fd # fds) p =
     (if fd < 0 \<or> int (length (ep_events (fdes p))) \<le> fd then Inl Out_of_bounds
      else rbind (batch_event (envs i) (ep_events (fdes p) ! nat fd) p) (batch_events envs (Suc i) fds))"

text \<open>
  One round of batch_loop for the answer r of epoll_wait: None when wait failed and the loop ends
  with CO_ERR. The heartbeat of the timer goes to ZooKeeper and leaves this state alone.
\<close>

definition batch_round :: "ep_result \<Rightarrow> (nat \<Rightarrow> env) \<Rightarrow> proxy \<Rightarrow> (bool \<times> proxy) res" where
  "batch_round r envs p =
     rbind (fdes_wait r (fdes p)) (\<lambda>(evs, f).
     case evs of
       None \<Rightarrow> Inr (False, p\<lparr>fdes := f\<rparr>)
     | Some fs \<Rightarrow> rbind (batch_events envs 0 (map fe_fd fs) (p\<lparr>fdes := f\<rparr>)) (\<lambda>p1. Inr (True, p1)))"

text \<open>batch_loop over a finite list of rounds: CO_ERR when it returned, None when it still runs.\<close>

fun batch_loop :: "(ep_result \<times> (nat \<Rightarrow> env)) list \<Rightarrow> proxy \<Rightarrow> (rstatus option \<times> proxy) res" where
  "batch_loop [] p = Inr (None, p)"
| "batch_loop ((r, envs) # rs) p =
     rbind (batch_round r envs p) (\<lambda>(go, p1). if go then batch_loop rs p1 else Inr (Some CO_ERR, p1))"

text \<open>core_loop: one call of event_wait; the status is its negative result or CO_OK.\<close>

definition core_loop :: "env \<Rightarrow> ep_result list \<Rightarrow> proxy \<Rightarrow> (rstatus option \<times> proxy) res" where
  "core_loop e rs p =
     rbind (fdes_event_wait 50 rs (fdes p)) (\<lambda>(r, f).
     case r of
       None \<Rightarrow> Inr (None, p\<lparr>fdes := f\<rparr>)
     | Some (nsd, None) \<Rightarrow> Inr (Some (if nsd < 0 then CO_ERR else CO_OK), p\<lparr>fdes := f\<rparr>)
     | Some (nsd, Some fde) \<Rightarrow>
         rbind (event_process e fde (p\<lparr>fdes := f\<rparr>)) (\<lambda>p1. Inr (Some (if nsd < 0 then CO_ERR else CO_OK), p1)))"

text \<open>proc_info: the greeting that is sent when a client connects for the first time.\<close>

definition proc_info :: "(nat \<Rightarrow> bool) \<Rightarrow> 'a buffer_scheme \<Rightarrow> (int \<times> 'a buffer_scheme) res" where
  "proc_info ok output = link_send_strings ok [''ok'', ''conproxy'', ''version'', ''0.0.1''] output"

end
