(* ===== verification/Proxy_Safety.thy ===== *)
theory Proxy_Safety
  imports Proxy_Loop
begin

text \<open>
  The pointer invariant of the proxy: every connection or message a queue, a registry or another
  object points to is in its store. It holds after construction, every handler and every round of
  the event loop keeps it, and under it no pointer of the proxy dangles.
\<close>

section \<open>The invariant\<close>

definition ptr_ok :: "nat \<Rightarrow> nat option \<Rightarrow> bool" where
  "ptr_ok n v \<longleftrightarrow> (\<forall>c. v = Some c \<longrightarrow> c < n)"

definition ids_ok :: "nat \<Rightarrow> nat list \<Rightarrow> bool" where
  "ids_ok n xs \<longleftrightarrow> (\<forall>x\<in>set xs. x < n)"

definition link_ok :: "lid \<Rightarrow> mid \<Rightarrow> link \<Rightarrow> bool" where
  "link_ok nl nm l \<longleftrightarrow> ptr_ok nl (l_datalet_conn l) \<and> ids_ok nm (l_imsg_q l) \<and> ids_ok nm (l_omsg_q l)"

definition pair_ok :: "lid \<Rightarrow> lid option \<times> lid list \<Rightarrow> bool" where
  "pair_ok nl x \<longleftrightarrow> ptr_ok nl (fst x) \<and> ids_ok nl (snd x)"

definition evs_ok :: "lid \<Rightarrow> Fdevent list \<Rightarrow> bool" where
  "evs_ok nl evs \<longleftrightarrow> (\<forall>x\<in>set evs. ptr_ok nl (data_ptr x))"

definition fdes_ok :: "lid \<Rightarrow> Fdevents \<Rightarrow> bool" where
  "fdes_ok nl f \<longleftrightarrow> evs_ok nl (ep_events f)"

definition wire_ok :: "lid \<Rightarrow> (lid \<times> string) list \<Rightarrow> bool" where
  "wire_ok nl ws \<longleftrightarrow> (\<forall>w\<in>set ws. fst w < nl)"

definition proxy_wf :: "proxy \<Rightarrow> bool" where
  "proxy_wf p \<longleftrightarrow>
     (\<forall>c. links p c = None \<longleftrightarrow> next_lid p \<le> c) \<and> (\<forall>m. msgs p m = None \<longleftrightarrow> next_mid p \<le> m) \<and>
     (\<forall>c l. links p c = Some l \<longrightarrow> link_ok (next_lid p) (next_mid p) l) \<and>
     (\<forall>m x. msgs p m = Some x \<longrightarrow> ptr_ok (next_lid p) (m_owner x)) \<and>
     (\<forall>x\<in>set (ms_map p). pair_ok (next_lid p) x) \<and>
     client_listen_conn p < next_lid p \<and> ptr_ok (next_lid p) (peer_listen_conn p) \<and> fdes_ok (next_lid p) (fdes p) \<and>
     wire_ok (next_lid p) (wire p)"

text \<open>Stores only grow.\<close>

definition wf_step :: "proxy \<Rightarrow> proxy \<Rightarrow> bool" where
  "wf_step p p' \<longleftrightarrow> proxy_wf p' \<and> next_lid p \<le> next_lid p' \<and> next_mid p \<le> next_mid p'"

abbreviation sound :: "'a res \<Rightarrow> ('a \<Rightarrow> bool) \<Rightarrow> bool" where
  "sound \<equiv> outcome (- {Dangling})"

named_theorems wf_rules \<open>the operations of the proxy keep its invariant\<close>

lemma wf_step_refl [simp]: "wf_step p p \<longleftrightarrow> proxy_wf p"
  by (simp add: wf_step_def)

lemma wf_step_trans: "wf_step p q \<Longrightarrow> wf_step q r \<Longrightarrow> wf_step p r"
  by (simp add: wf_step_def)

lemma wf_step_wf: "wf_step p q \<Longrightarrow> proxy_wf q"
  by (simp add: wf_step_def)

lemma ptr_ok_simps [simp]: "ptr_ok n None" "ptr_ok n (Some c) \<longleftrightarrow> c < n"
  by (simp_all add: ptr_ok_def)

lemma ids_ok_simps [simp]:
  "ids_ok n []" "ids_ok n (x # xs) \<longleftrightarrow> x < n \<and> ids_ok n xs" "ids_ok n (xs @ ys) \<longleftrightarrow> ids_ok n xs \<and> ids_ok n ys"
  by (auto simp: ids_ok_def)

lemma ids_ok_tl: "ids_ok n xs \<Longrightarrow> ids_ok n (tl xs)"
  by (cases xs) auto

lemma ok_mono:
  assumes "nl \<le> nl'" "nm \<le> nm'"
  shows "ptr_ok nl v \<Longrightarrow> ptr_ok nl' v" "ids_ok nl xs \<Longrightarrow> ids_ok nl' xs" "link_ok nl nm l \<Longrightarrow> link_ok nl' nm' l"
    "pair_ok nl x \<Longrightarrow> pair_ok nl' x" "fdes_ok nl f \<Longrightarrow> fdes_ok nl' f" "wire_ok nl ws \<Longrightarrow> wire_ok nl' ws"
  using assms unfolding wire_ok_def link_ok_def pair_ok_def fdes_ok_def evs_ok_def ptr_ok_def ids_ok_def by fastforce+

lemmas ok_Suc = ok_mono(1,2,4,5,6) [OF le_SucI [OF order_refl] order_refl]
lemmas link_ok_Suc = ok_mono(3) [OF le_SucI [OF order_refl] order_refl] ok_mono(3) [OF order_refl le_SucI [OF order_refl]]

section \<open>The stores\<close>

lemma sound_get_link [wf_rules]:
  assumes "proxy_wf p" "c < next_lid p" "\<And>l. links p c = Some l \<Longrightarrow> link_ok (next_lid p) (next_mid p) l \<Longrightarrow> Q l"
  shows "sound (get_link p c) Q"
proof (cases "links p c")
  case None
  then show ?thesis using assms(1,2) by (simp add: proxy_wf_def)
next
  case (Some l)
  moreover have "link_ok (next_lid p) (next_mid p) l" using Some assms(1) by (simp add: proxy_wf_def)
  ultimately show ?thesis using assms(3) by (simp add: get_link_def)
qed

lemma sound_get_msg [wf_rules]:
  assumes "proxy_wf p" "m < next_mid p" "\<And>x. msgs p m = Some x \<Longrightarrow> ptr_ok (next_lid p) (m_owner x) \<Longrightarrow> Q x"
  shows "sound (get_msg p m) Q"
proof (cases "msgs p m")
  case None
  then show ?thesis using assms(1,2) by (simp add: proxy_wf_def)
next
  case (Some x)
  moreover have "ptr_ok (next_lid p) (m_owner x)" using Some assms(1) by (simp add: proxy_wf_def)
  ultimately show ?thesis using assms(3) by (simp add: get_msg_def)
qed

lemma wf_upd_link:
  assumes "proxy_wf p" "\<And>l. link_ok (next_lid p) (next_mid p) l \<Longrightarrow> link_ok (next_lid p) (next_mid p) (f l)"
  shows "wf_step p (upd_link c f p)"
  using assms unfolding proxy_wf_def wf_step_def upd_link_def by auto

lemma wf_upd_msg:
  assumes "proxy_wf p" "\<And>x. ptr_ok (next_lid p) (m_owner x) \<Longrightarrow> ptr_ok (next_lid p) (m_owner (f x))"
  shows "wf_step p (upd_msg m f p)"
  using assms unfolding proxy_wf_def wf_step_def upd_msg_def by auto

lemma wf_add_msg:
  assumes "proxy_wf p" "ptr_ok (next_lid p) (m_owner x)" "add_msg x p = (m, p')"
  shows "wf_step p p' \<and> m < next_mid p' \<and> next_lid p' = next_lid p"
  using assms link_ok_Suc(2) unfolding proxy_wf_def wf_step_def add_msg_def by (auto split: if_splits)

lemma wf_add_link:
  assumes "proxy_wf p" "link_ok (next_lid p) (next_mid p) l" "add_link l p = (c, p')"
  shows "wf_step p p' \<and> c < next_lid p'"
  using assms link_ok_Suc(1) ok_Suc unfolding proxy_wf_def wf_step_def add_link_def by (auto split: if_splits)

lemma wf_fields [simp]:
  "proxy_wf (p\<lparr>ev_counter := v\<rparr>) = proxy_wf p" "proxy_wf (p\<lparr>conn_count := v\<rparr>) = proxy_wf p"
  "proxy_wf (p\<lparr>klog := k\<rparr>) = proxy_wf p" "proxy_wf (p\<lparr>rsp_count := v\<rparr>) = proxy_wf p" "proxy_wf (p\<lparr>client_conn_flag := b\<rparr>) = proxy_wf p"
  "proxy_wf (p\<lparr>free_conn_pool := xs\<rparr>) = proxy_wf p" "proxy_wf (p\<lparr>num_free_conn := v\<rparr>) = proxy_wf p" "proxy_wf (p\<lparr>conn_map := cm\<rparr>) = proxy_wf p"
  by (simp_all add: proxy_wf_def)

lemma wf_ms_map: "proxy_wf p \<Longrightarrow> pair_ok (next_lid p) x \<Longrightarrow> wf_step p (p\<lparr>ms_map := ms_map p @ [x]\<rparr>)"
  by (auto simp: proxy_wf_def wf_step_def)

lemma wf_fdes: "proxy_wf p \<Longrightarrow> fdes_ok (next_lid p) f \<Longrightarrow> wf_step p (p\<lparr>fdes := f\<rparr>)"
  by (auto simp: proxy_wf_def wf_step_def)

section \<open>Events\<close>

lemma evs_ok_update: "evs_ok n evs \<Longrightarrow> ptr_ok n (data_ptr x) \<Longrightarrow> evs_ok n (evs[i := x])"
  unfolding evs_ok_def using set_update_subset_insert by fastforce

lemma get_fde_nth: "\<not> fd < 0 \<Longrightarrow> (evs @ map fde_new [length evs ..< nat fd + 1]) ! nat fd \<in> set (evs @ map fde_new [length evs ..< nat fd + 1])"
  by (rule nth_mem) auto

lemma get_fde_sound [wf_rules]:
  assumes "evs_ok n evs" "\<And>x evs'. ptr_ok n (data_ptr x) \<Longrightarrow> evs_ok n evs' \<Longrightarrow> Q (x, evs')"
  shows "sound (get_fde evs fd) Q"
proof (cases "fd < 0")
  case False
  let ?evs = "evs @ map fde_new [length evs ..< nat fd + 1]"
  have ok: "evs_ok n ?evs" using assms(1) by (auto simp: evs_ok_def fde_new_def)
  moreover have "ptr_ok n (data_ptr (?evs ! nat fd))" using ok unfolding evs_ok_def by (metis False get_fde_nth)
  ultimately show ?thesis using assms(2) False by (simp add: get_fde_def Let_def)
qed (simp add: get_fde_def)

lemma fdes_ops_ok:
  assumes "fdes_ok n f"
  shows "ptr_ok n ptr \<Longrightarrow> sound (fdes_set kok fd flags num ptr f) (\<lambda>(r, f'). fdes_ok n f')"
    "sound (fdes_clr kok fd flags f) (\<lambda>(r, f'). fdes_ok n f')"
    "sound (fdes_del kok fd f) (\<lambda>(r, f'). fdes_ok n f')"
  using assms unfolding fdes_set_def fdes_clr_def fdes_del_def fdes_ok_def Let_def
  by (auto intro!: outcome_bind get_fde_sound [of n] evs_ok_update split: option.split)

lemma event_sound:
  assumes "proxy_wf p" "c < next_lid p"
  shows "sound (set_event e c flag p) (wf_step p)" "sound (clr_event e c flag p) (wf_step p)" "sound (del_event e c p) (wf_step p)"
proof -
  have f: "fdes_ok (next_lid p) (fdes p)" using assms(1) by (simp add: proxy_wf_def)
  have c: "ptr_ok (next_lid p) (Some c)" using assms(2) by simp
  note ops = fdes_ops_ok(1) [OF f c] fdes_ops_ok(2,3) [OF f]
  show "sound (set_event e c flag p) (wf_step p)" unfolding set_event_def
    by (intro outcomes sound_get_link assms outcome_weaken [OF ops(1)]) (auto intro!: wf_fdes [OF assms(1)])
  show "sound (clr_event e c flag p) (wf_step p)" unfolding clr_event_def
    by (intro outcomes sound_get_link assms outcome_weaken [OF ops(2)]) (auto intro!: wf_fdes [OF assms(1)])
  show "sound (del_event e c p) (wf_step p)" unfolding del_event_def
    by (intro outcomes sound_get_link assms outcome_weaken [OF ops(3)]) (auto intro!: wf_fdes [OF assms(1)])
qed

lemmas sound_event [wf_rules] = outcome_weaken [OF event_sound(1)] outcome_weaken [OF event_sound(2)] outcome_weaken [OF event_sound(3)]

section \<open>Buffers and sockets\<close>

text \<open>The operations on memory stop with other faults only.\<close>

lemma sound_any: "sound m (\<lambda>_. True) \<Longrightarrow> (\<And>x. m = Inr x \<Longrightarrow> Q x) \<Longrightarrow> sound m Q"
  by (auto simp: outcome_def split: sum.splits)

lemma mem_sound:
  "sound (mem_get m i) (\<lambda>_. True)" "sound (mem_read m i n) (\<lambda>_. True)" "sound (mem_write m i s) (\<lambda>_. True)"
  by (auto simp: mem_get_def mem_read_def mem_write_def Let_def split: option.splits)

lemmas sound_mem [wf_rules] = mem_sound [THEN sound_any]

lemma buffer_sound:
  "sound (b_nice b) (\<lambda>_. True)" "sound (b_size_diff b) (\<lambda>_. True)" "sound (b_append ok s b) (\<lambda>_. True)"
  by (auto simp: b_nice_def b_size_diff_def b_append_def Let_def CHECK_def intro!: outcome_bind sound_mem split: option.splits prod.splits bool.splits)

lemmas sound_buffer [wf_rules] = buffer_sound [THEN sound_any]

lemma read_loop_sound: "sound (read_loop noblock rs ret b) (\<lambda>_. True)"
proof (induction rs arbitrary: ret b)
  case (Cons r rs)
  then show ?case by (cases r) (auto simp: Let_def intro!: outcome_bind sound_mem)
qed simp

lemma write_loop_sound: "sound (write_loop noblock ws ret out b) (\<lambda>_. True)"
proof (induction ws arbitrary: ret out b)
  case (Cons w ws)
  then show ?case by (cases w) (auto simp: Let_def intro!: outcome_bind sound_mem)
qed simp

lemma io_sound:
  "sound (msg_read ok noblock rs) (\<lambda>_. True)" "sound (msg_send noblock ws b) (\<lambda>_. True)" "sound (msg_write ok noblock ws b) (\<lambda>_. True)"
  by (auto simp: msg_read_def msg_send_def msg_write_def Let_def CHECK_def
      intro!: outcome_bind sound_any [OF read_loop_sound] sound_any [OF write_loop_sound] sound_buffer split: rd_end.splits wr_end.splits)

lemmas sound_io [wf_rules] = io_sound [THEN sound_any]

lemma link_parse_sound [wf_rules]:
  assumes "\<And>d b'. Q (l\<lparr>l_recv_data := d\<rparr>, b')"
  shows "sound (link_parse put_ok junk l b) Q"
  unfolding link_parse_def msg_parse_def read_u32_def read_size_t_def payload_fields_def Let_def
  using assms by (auto intro!: outcomes sound_mem)

section \<open>Queues\<close>

lemma link_ok_flags [simp]:
  "link_ok nl nm (l\<lparr>l_error := b\<rparr>) = link_ok nl nm l" "link_ok nl nm (l\<lparr>l_recv_data := d\<rparr>) = link_ok nl nm l"
  "link_ok nl nm (l\<lparr>l_key := k\<rparr>) = link_ok nl nm l" "link_ok nl nm (l\<lparr>l_cmnd := k\<rparr>) = link_ok nl nm l"
  "link_ok nl nm (l\<lparr>l_fwd_to_replicas := b\<rparr>) = link_ok nl nm l" "link_ok nl nm (l\<lparr>l_head := b\<rparr>) = link_ok nl nm l"
  "link_ok nl nm (l\<lparr>l_tail := b\<rparr>) = link_ok nl nm l" "link_ok nl nm (l\<lparr>l_is_server := b\<rparr>) = link_ok nl nm l"
  "link_ok nl nm (l\<lparr>l_is_master := b\<rparr>) = link_ok nl nm l" "link_ok nl nm (l\<lparr>l_is_client := b\<rparr>) = link_ok nl nm l"
  "link_ok nl nm (l\<lparr>l_noblock := b\<rparr>) = link_ok nl nm l" "link_ok nl nm (l\<lparr>l_sock := i\<rparr>) = link_ok nl nm l"
  "link_ok nl nm (l\<lparr>l_slave_number := i\<rparr>) = link_ok nl nm l" "link_ok nl nm (l\<lparr>l_number_slaves := i\<rparr>) = link_ok nl nm l"
  "link_ok nl nm (l\<lparr>l_weight := i\<rparr>) = link_ok nl nm l" "link_ok nl nm (l\<lparr>l_dumb_addr := s\<rparr>) = link_ok nl nm l"
  "link_ok nl nm (l\<lparr>l_recv_nw := h\<rparr>) = link_ok nl nm l" "link_ok nl nm (l\<lparr>l_send_nw := g\<rparr>) = link_ok nl nm l"
  "link_ok nl nm (l\<lparr>l_kproducer := b\<rparr>) = link_ok nl nm l" "link_ok nl nm (l\<lparr>l_conlock := b\<rparr>) = link_ok nl nm l"
  "link_ok nl nm (l\<lparr>l_type := t\<rparr>) = link_ok nl nm l" "link_ok nl nm (l\<lparr>l_remote_ip := s\<rparr>) = link_ok nl nm l"
  "link_ok nl nm (l\<lparr>l_remote_port := i\<rparr>) = link_ok nl nm l" "link_ok nl nm (l\<lparr>l_s_conn := v\<rparr>) = link_ok nl nm l"
  by (simp_all add: link_ok_def)

lemma link_ok_queues [simp]:
  assumes "link_ok nl nm l"
  shows "ids_ok nm q \<Longrightarrow> link_ok nl nm (l\<lparr>l_imsg_q := q\<rparr>)" "ids_ok nm q \<Longrightarrow> link_ok nl nm (l\<lparr>l_omsg_q := q\<rparr>)"
    "ptr_ok nl v \<Longrightarrow> link_ok nl nm (l\<lparr>l_datalet_conn := v\<rparr>)"
  using assms by (auto simp: link_ok_def)

lemma link_okD: "link_ok nl nm l \<Longrightarrow> ids_ok nm (l_imsg_q l) \<and> ids_ok nm (l_omsg_q l) \<and> ptr_ok nl (l_datalet_conn l)"
  by (simp add: link_ok_def)

lemma wf_push:
  assumes "proxy_wf p" "m < next_mid p"
  shows "wf_step p (push_imsg c m p)" "wf_step p (push_omsg c m p)"
  using assms unfolding push_imsg_def push_omsg_def by (auto intro!: wf_upd_link simp: link_ok_def)

lemma notify_out_sound:
  assumes "proxy_wf p" "c < next_lid p"
  shows "sound (notify_out e c p) (wf_step p)"
  unfolding notify_out_def using assms by (auto simp: wf_step_def intro!: outcome_bind sound_get_link sound_event(1))

lemmas sound_notify_out [wf_rules] = outcome_weaken [OF notify_out_sound]

lemma forward_sound:
  assumes "proxy_wf p" "c < next_lid p" "m < next_mid p"
  shows "sound (forward e c m p) (wf_step p)"
proof -
  have "wf_step p (push_imsg c m q)" if "wf_step p q" for q
    using that assms(3) wf_push(1) [of q m c] by (auto simp: wf_step_def)
  then show ?thesis unfolding forward_def by (intro outcome_bind sound_notify_out assms) simp
qed

lemmas sound_forward [wf_rules] = outcome_weaken [OF forward_sound]

lemma forward_all_sound:
  assumes "proxy_wf p" "ids_ok (next_lid p) cs" "m < next_mid p"
  shows "sound (forward_all e cs m p) (wf_step p)"
  using assms
proof (induction cs arbitrary: p)
  case (Cons c cs)
  have "sound (forward_all e cs m q) (wf_step p)" if q: "wf_step p q" for q
  proof -
    have "ids_ok (next_lid q) cs" using q Cons.prems(2) by (auto simp: wf_step_def ids_ok_def)
    moreover have "proxy_wf q" "m < next_mid q" using q Cons.prems(3) by (auto simp: wf_step_def)
    ultimately have "sound (forward_all e cs m q) (wf_step q)" using Cons.IH by blast
    then show ?thesis by (rule outcome_weaken) (rule wf_step_trans [OF q])
  qed
  then show ?case using Cons.prems by (simp add: outcome_bind sound_forward)
qed simp

lemmas sound_forward_all [wf_rules] = outcome_weaken [OF forward_all_sound]

lemma find_slaves_ok: "find_slaves c xs = Some ss \<Longrightarrow> \<forall>x\<in>set xs. pair_ok n x \<Longrightarrow> ids_ok n ss"
  by (induction c xs rule: find_slaves.induct) (auto simp: pair_ok_def split: if_splits)

lemma find_master_ok: "find_master c xs = Some m \<Longrightarrow> \<forall>x\<in>set xs. pair_ok n x \<Longrightarrow> m < n"
  by (induction c xs rule: find_master.induct) (auto simp: pair_ok_def split: if_splits)

lemma get_slaves_ok: "proxy_wf p \<Longrightarrow> ids_ok (next_lid p) (get_slaves p c)"
  by (simp add: get_slaves_def proxy_wf_def find_slaves_ok split: option.split)

lemma get_slave_number_sound [wf_rules]:
  assumes "proxy_wf p" "\<And>v. ptr_ok (next_lid p) v \<Longrightarrow> Q v"
  shows "sound (get_slave_number p c i) Q"
proof (cases "find_slaves c (ms_map p)")
  case (Some ss)
  then have "ids_ok (next_lid p) ss" using assms(1) find_slaves_ok by (simp add: proxy_wf_def)
  then show ?thesis using Some assms(2) by (auto simp: get_slave_number_def ids_ok_def)
qed (use assms(2) in \<open>simp add: get_slave_number_def\<close>)

section \<open>Handlers\<close>

lemma wf_upd_link_step:
  assumes "wf_step p q" "\<And>l. link_ok (next_lid q) (next_mid q) l \<Longrightarrow> link_ok (next_lid q) (next_mid q) (f l)"
  shows "wf_step p (upd_link c f q)"
  by (rule wf_step_trans [OF assms(1) wf_upd_link]) (use assms in \<open>auto simp: wf_step_def\<close>)

lemma wf_upd_msg_step:
  assumes "wf_step p q" "\<And>x. ptr_ok (next_lid q) (m_owner x) \<Longrightarrow> ptr_ok (next_lid q) (m_owner (f x))"
  shows "wf_step p (upd_msg c f q)"
  by (rule wf_step_trans [OF assms(1) wf_upd_msg]) (use assms in \<open>auto simp: wf_step_def\<close>)

lemma upd_next [simp]:
  "next_lid (upd_link c f p) = next_lid p" "next_mid (upd_link c f p) = next_mid p"
  "next_lid (upd_msg m g p) = next_lid p" "next_mid (upd_msg m g p) = next_mid p"
  "next_lid (put_wire c s p) = next_lid p" "next_mid (put_wire c s p) = next_mid p"
  "next_lid (push_imsg c m p) = next_lid p" "next_mid (push_imsg c m p) = next_mid p"
  "next_lid (push_omsg c m p) = next_lid p" "next_mid (push_omsg c m p) = next_mid p"
  "next_lid (delete_strings c p) = next_lid p" "next_mid (delete_strings c p) = next_mid p"
  by (simp_all add: upd_link_def upd_msg_def put_wire_def push_imsg_def push_omsg_def delete_strings_def)

lemma wf_delete_strings: "wf_step p q \<Longrightarrow> wf_step p (delete_strings c q)"
  by (auto simp: delete_strings_def intro!: wf_upd_link_step)

lemma route_sound:
  assumes "proxy_wf p" "mc < next_lid p"
  shows "sound (route cmnd key mc p) (\<lambda>(out, p'). wf_step p p' \<and> out < next_lid p')"
proof -
  define p1 where "p1 = (if cons_mod_num (consistency_model p) \<ge> 1 \<or> (cons_mod_num (consistency_model p) \<ge> 2 \<and> topology p = Aa)
    then upd_link mc (\<lambda>l. l\<lparr>l_key := Owned key, l_cmnd := Owned cmnd\<rparr>) p else p)"
  have p1: "wf_step p p1" "next_lid p1 = next_lid p" unfolding p1_def using assms by (auto intro!: wf_upd_link_step)
  have p2: "wf_step p (upd_link mc f p1)" if "\<And>nl nm l. link_ok nl nm l \<Longrightarrow> link_ok nl nm (f l)" for f
    using that p1 by (auto intro: wf_upd_link_step)
  show ?thesis
    unfolding route_def Let_def p1_def [symmetric] using p1 p2 assms
    by (auto intro!: outcome_bind outcome_deref get_slave_number_sound wf_delete_strings wf_upd_link_step wf_step_wf [OF p2])
qed

lemmas sound_route = outcome_weaken [OF route_sound]

lemma get_mapped_server_conn_sound:
  assumes "proxy_wf p" "c < next_lid p" "m < next_mid p"
  shows "sound (get_mapped_server_conn e c m p) (\<lambda>(out, p'). wf_step p p' \<and> out < next_lid p')"
proof -
  have st: "wf_step p (upd_msg m (\<lambda>x. x\<lparr>m_buf := b\<rparr>) (upd_link c (\<lambda>_. l') p))"
    if "link_ok (next_lid p) (next_mid p) l'" for b l'
    using that assms by (intro wf_upd_msg_step wf_upd_link) auto
  show ?thesis
    unfolding get_mapped_server_conn_def get_server_conn_def
    apply (intro outcome_bind sound_get_link sound_get_msg assms link_parse_sound)
    subgoal for l x d b'
      using st [of "l\<lparr>l_recv_data := d\<rparr>" b'] assms link_okD [of "next_lid p" "next_mid p" l]
      by (auto simp: Let_def wf_step_def intro!: outcome_bind sound_route split: list.split option.split)
    done
qed

lemma sound_mapped:
  assumes "proxy_wf p" "c < next_lid p" "m < next_mid p" "\<And>out p'. wf_step p p' \<Longrightarrow> out < next_lid p' \<Longrightarrow> Q (out, p')"
  shows "sound (req_mapped_forward e c m p) Q"
  unfolding req_mapped_forward_def
  by (rule outcome_weaken [OF get_mapped_server_conn_sound [OF assms(1-3)]]) (use assms(4) in auto)

lemma read_msg_sound:
  assumes "proxy_wf p" "c < next_lid p" "\<And>r p'. wf_step p p' \<Longrightarrow> next_lid p' = next_lid p \<Longrightarrow> ptr_ok (next_mid p') r \<Longrightarrow> Q (r, p')"
  shows "sound (read_msg e c p) Q"
  unfolding read_msg_def
  by (intro outcome_bind sound_get_link sound_io(1) assms(1,2))
     (use assms wf_add_msg [OF assms(1), of "message_new _"] in \<open>auto simp: message_new_def split: option.split prod.split\<close>)

lemma copy_request_sound:
  assumes "proxy_wf p" "c < next_lid p" "out < next_lid p" "m < next_mid p"
    "\<And>q p'. wf_step p p' \<Longrightarrow> q < next_mid p' \<Longrightarrow> Q (q, p')"
  shows "sound (copy_request e c out m cur p) Q"
proof -
  have 1: "wf_step p (upd_link c clear_recv_data p)"
    using assms(1) by (auto intro!: wf_upd_link simp: clear_recv_data_def)
  have 2: "Q (add_msg \<lparr>m_buf = b, m_id = i, m_count = k, m_owner = Some c, m_fwd = f\<rparr> (upd_link c clear_recv_data p))" for b i k f
  proof (cases "add_msg \<lparr>m_buf = b, m_id = i, m_count = k, m_owner = Some c, m_fwd = f\<rparr> (upd_link c clear_recv_data p)")
    case (Pair q p')
    then show ?thesis using wf_add_msg [OF wf_step_wf [OF 1] _ Pair] assms(2,5) wf_step_trans [OF 1] by simp
  qed
  show ?thesis unfolding copy_request_def
    by (intro outcome_bind outcome_CHECK sound_get_link sound_get_msg sound_buffer(2) sound_mem(2) sound_any [OF buffer_sound(3)] assms(1-4))
       (use 2 in \<open>auto split: prod.split\<close>)
qed

lemma produce_request_sound:
  assumes "proxy_wf p" "out < next_lid p" "q < next_mid p" "\<And>p'. wf_step p p' \<Longrightarrow> Q p'"
  shows "sound (produce_request out q p) Q"
  unfolding produce_request_def using assms
  by (auto intro!: outcome_bind outcome_CHECK sound_get_link sound_get_msg sound_mem(2) simp: wf_step_def)

lemma lock_request_sound:
  assumes "proxy_wf p" "c < next_lid p" "out < next_lid p" "m < next_mid p" "q < next_mid p"
    "\<And>go lk' p'. wf_step p p' \<Longrightarrow> Q (go, lk', p')"
  shows "sound (lock_request e lk c out m q p) Q"
proof -
  have 1: "wf_step p (upd_link c (\<lambda>k. k\<lparr>l_imsg_q := m # l_imsg_q k\<rparr>) p)"
    using assms(1,4) by (intro wf_upd_link) (auto simp: link_ok_def)
  have 2: "sound (set_event e c FDEVENT_IN (upd_link c (\<lambda>k. k\<lparr>l_imsg_q := m # l_imsg_q k\<rparr>) p)) (wf_step p)"
    by (rule sound_event(1)) (use 1 assms(2) in \<open>auto simp: wf_step_def\<close>)
  show ?thesis unfolding lock_request_def
    by (intro outcome_bind sound_get_link assms(1,3))
       (use assms get_slaves_ok [OF assms(1)] in \<open>auto simp: next_lock_def intro!: outcome_bind outcome_weaken [OF 2] sound_forward_all split: list.split\<close>)
qed

lemma propagate_request_sound:
  assumes "proxy_wf p" "out < next_lid p" "q < next_mid p"
  shows "sound (propagate_request e out q p) (wf_step p)"
  unfolding propagate_request_def using assms get_slaves_ok [OF assms(1)]
  by (auto intro!: outcome_bind sound_get_link sound_forward_all)

lemma req_step_sound:
  assumes "proxy_wf p" "c < next_lid p" "m < next_mid p"
  shows "sound (req_step e lk c m p) (\<lambda>(go, lk', p'). wf_step p p')"
proof -
  have fin: "sound (propagate_request e out q (push_imsg out q p5)) (wf_step p)"
    if "wf_step p p5" "out < next_lid p5" "q < next_mid p5" for out q p5
    using outcome_weaken [OF propagate_request_sound [of "push_imsg out q p5" out q]] wf_push(1) [of p5 q out] that
    by (auto simp: wf_step_def intro!: outcome_weaken [OF propagate_request_sound])
  show ?thesis unfolding req_step_def using assms
    by (auto simp: wf_step_def intro!: outcome_bind sound_get_msg sound_mapped sound_notify_out copy_request_sound
        produce_request_sound lock_request_sound outcome_weaken [OF fin])
qed

lemma req_loop_sound:
  assumes "proxy_wf p" "c < next_lid p" "m < next_mid p"
  shows "sound (req_loop n e lk c m p) (\<lambda>(st, p'). wf_step p p')"
  using assms
proof (induction n arbitrary: lk p)
  case 0
  then show ?case by (subst req_loop.simps) (auto intro!: outcome_bind sound_get_msg)
next
  case (Suc n)
  have "sound (req_loop n e lk' c m q) (\<lambda>(st, p'). wf_step p p')" if q: "wf_step p q" for lk' q
    by (rule outcome_weaken [OF Suc.IH]) (use q Suc.prems in \<open>auto simp: wf_step_def\<close>)
  then show ?case using Suc.prems
    by (subst req_loop.simps) (auto intro!: outcome_bind sound_get_msg outcome_weaken [OF req_step_sound])
qed

lemma req_recv_sound:
  assumes "proxy_wf p" "c < next_lid p"
  shows "sound (req_recv e c p) (\<lambda>(st, p'). wf_step p p')"
proof -
  have ok: "wf_step p (upd_msg m (\<lambda>x. x\<lparr>m_owner := Some c\<rparr>) q)" if "wf_step p q" for m q
    using that assms(2) by (intro wf_upd_msg_step) (auto simp: wf_step_def)
  have err: "wf_step p (dec_conn_count (dec_conn_count (upd_link c mark_error q)))" if "wf_step p q" for q
    using wf_upd_link_step [OF that, of mark_error c] by (simp add: wf_step_def dec_conn_count_def mark_error_def)
  have del: "sound (del_event e c (dec_conn_count (dec_conn_count (upd_link c mark_error q)))) (wf_step p)" if "wf_step p q" for q
    by (rule sound_event(3)) (use err [OF that] assms(2) wf_step_trans in \<open>auto simp: wf_step_def\<close>)
  have loop: "sound (req_loop n e lk c m (upd_msg m (\<lambda>x. x\<lparr>m_owner := Some c\<rparr>) q)) (\<lambda>(st, p'). wf_step p p')"
    if "wf_step p q" "m < next_mid q" for n lk m q
    by (rule outcome_weaken [OF req_loop_sound]) (use ok [OF that(1), of m] that(2) assms(2) in \<open>auto simp: wf_step_def\<close>)
  have wf: "proxy_wf (upd_msg m (\<lambda>x. x\<lparr>m_owner := Some c\<rparr>) q)" if "wf_step p q" for m q using ok [OF that] wf_step_wf by blast
  show ?thesis unfolding req_recv_def Let_def
    by (intro outcome_bind read_msg_sound assms)
       (auto intro!: outcome_bind outcome_weaken [OF del] loop sound_get_msg wf split: option.split)
qed

lemma wf_put_wire: "wf_step p q \<Longrightarrow> c < next_lid q \<Longrightarrow> wf_step p (put_wire c s q)"
  by (auto simp: wf_step_def put_wire_def proxy_wf_def wire_ok_def)

lemma drop_conn_sound:
  assumes "wf_step p q" "c < next_lid q"
  shows "sound (drop_conn e c st q) (\<lambda>(st, p'). wf_step p p')"
proof -
  have m: "wf_step p (upd_link c mark_error q)" using assms(1) by (intro wf_upd_link_step) (auto simp: mark_error_def)
  show ?thesis unfolding drop_conn_def
    by (intro outcome_bind sound_event(3)) (use m assms wf_step_trans [OF m] in \<open>auto dest: wf_step_wf\<close>)
qed

lemma idle_out_sound: "proxy_wf p \<Longrightarrow> c < next_lid p \<Longrightarrow> sound (idle_out e c p) (\<lambda>(st, p'). wf_step p p')"
  unfolding idle_out_def by (auto simp: wf_step_def intro!: outcome_bind sound_event(2))

lemma send_request_sound:
  assumes "wf_step p q" "c < next_lid q" "m < next_mid q"
  shows "sound (send_request e c m q) (\<lambda>(st, p'). wf_step p p')"
proof -
  have 1: "wf_step p (put_wire c s (upd_msg m (\<lambda>x. x\<lparr>m_buf := b\<rparr>) q))" for s b
    using assms(1,2) by (intro wf_put_wire wf_upd_msg_step) auto
  have 2: "wf_step p (push_omsg c m (put_wire c s (upd_msg m (\<lambda>x. x\<lparr>m_buf := b\<rparr>) q)))" for s b
    using wf_step_trans [OF 1 wf_push(2)] wf_step_wf [OF 1] assms(3) by simp
  show ?thesis unfolding send_request_def Let_def
    using assms 1 wf_step_trans [OF 2]
    by (auto intro!: outcome_bind sound_get_link sound_get_msg sound_io(2) drop_conn_sound sound_event(1) wf_step_wf [OF 2]
        dest: wf_step_wf)
qed

lemma queue_head_ok: "link_ok nl nm l \<Longrightarrow> l_imsg_q l = m # ms \<Longrightarrow> m < nm \<and> ids_ok nm ms"
  "link_ok nl nm l \<Longrightarrow> l_omsg_q l = m # ms \<Longrightarrow> m < nm \<and> ids_ok nm ms"
  by (auto simp: link_ok_def)

lemma wf_set_imsg: "proxy_wf p \<Longrightarrow> ids_ok (next_mid p) q \<Longrightarrow> wf_step p (upd_link c (\<lambda>l. l\<lparr>l_imsg_q := q\<rparr>) p)"
  by (auto intro!: wf_upd_link)

lemma wf_set_omsg: "proxy_wf p \<Longrightarrow> ids_ok (next_mid p) q \<Longrightarrow> wf_step p (upd_link c (\<lambda>l. l\<lparr>l_omsg_q := q\<rparr>) p)"
  by (auto intro!: wf_upd_link)

lemma req_send_sound:
  assumes "proxy_wf p" "c < next_lid p"
  shows "sound (req_send e c p) (\<lambda>(st, p'). wf_step p p')"
proof -
  have "sound (send_request e c m (upd_link c (\<lambda>l. l\<lparr>l_imsg_q := q\<rparr>) p)) (\<lambda>(st, p'). wf_step p p' \<and> proxy_wf p' \<and> m < next_mid p')"
    if "m < next_mid p" "ids_ok (next_mid p) q" for m q
    by (rule outcome_weaken [OF send_request_sound [of p]]) (use that assms wf_set_imsg in \<open>auto simp: wf_step_def\<close>)
  note send = outcome_weaken [OF this]
  show ?thesis unfolding req_send_def
    by (intro outcome_bind sound_get_link assms)
       (use assms in \<open>auto intro!: idle_out_sound outcome_bind send sound_get_msg outcome_CHECK dest: queue_head_ok split: list.split\<close>)
qed

lemma replica_req_send_sound:
  assumes "proxy_wf p" "c < next_lid p"
  shows "sound (replica_req_send e c p) (\<lambda>(st, p'). wf_step p p')"
proof -
  have send: "sound (send_request e c m (upd_link c (\<lambda>l. l\<lparr>l_imsg_q := q\<rparr>) p)) (\<lambda>(st, p'). wf_step p p')"
    if "m < next_mid p" "ids_ok (next_mid p) q" for m q
    using that assms wf_set_imsg by (intro send_request_sound) auto
  show ?thesis unfolding replica_req_send_def
    by (intro outcome_bind sound_get_link assms)
       (use assms in \<open>auto intro!: idle_out_sound outcome_bind outcome_CHECK send sound_get_msg dest: queue_head_ok split: list.split\<close>)
qed

lemma pop_omsg_sound:
  assumes "proxy_wf p" "c < next_lid p" "\<And>m q. m < next_mid q \<Longrightarrow> wf_step p q \<Longrightarrow> next_lid q = next_lid p \<Longrightarrow> next_mid q = next_mid p \<Longrightarrow> Q (m, q)"
  shows "sound (pop_omsg c p) Q"
  unfolding pop_omsg_def
  by (intro outcome_bind sound_get_link assms(1,2))
     (use assms in \<open>auto intro!: wf_set_omsg assms(3) dest: queue_head_ok split: list.split\<close>)

lemma rsp_mapped_forward_sound:
  assumes "proxy_wf p" "c < next_lid p" "\<And>cl q. cl < next_lid q \<Longrightarrow> wf_step p q \<Longrightarrow> next_mid q = next_mid p \<Longrightarrow> Q (cl, q)"
  shows "sound (rsp_mapped_forward c p) Q"
  unfolding rsp_mapped_forward_def
  by (intro outcome_bind pop_omsg_sound assms(1,2))
     (use assms(3) in \<open>auto intro!: outcome_bind outcome_CHECK sound_get_msg split: option.split dest: wf_step_wf\<close>)

lemma chain_forward_sound:
  assumes "wf_step p0 p" "c < next_lid p" "s < next_lid p"
  shows "sound (chain_forward e c s f p) (\<lambda>(st, p'). wf_step p0 p')"
proof -
  have push: "wf_step p0 (push_imsg s m q)" if "wf_step p q" "m < next_mid q" for m q
    using wf_step_trans [OF assms(1) wf_step_trans [OF that(1) wf_push(1) [OF wf_step_wf [OF that(1)] that(2)]]] .
  show ?thesis unfolding chain_forward_def using assms push
    by (auto simp: wf_step_def intro!: outcome_bind outcome_CHECK sound_notify_out sound_get_link sound_get_msg pop_omsg_sound
        split: option.split)
qed

lemma forward_step_sound:
  assumes "wf_step p q" "cl < next_lid q" "m < next_mid q" "\<And>r. wf_step p r \<Longrightarrow> Q r"
  shows "sound (forward e cl m q) Q"
  by (rule outcome_weaken [OF forward_sound])
     (use assms wf_step_trans [OF assms(1)] in \<open>auto dest: wf_step_wf\<close>)

lemma chain_ends_sound:
  assumes "wf_step p q" "c < next_lid q" "msg < next_mid q"
  shows "sound (next_in_chain e c mast i q) (\<lambda>(st, p'). wf_step p p')" "sound (start_chain e c q) (\<lambda>(st, p'). wf_step p p')"
    "sound (tail_ack e c msg q) (\<lambda>(st, p'). wf_step p p')" "sound (tail_answer e c msg q) (\<lambda>(st, p'). wf_step p p')"
proof -
  note wf = wf_step_wf [OF assms(1)] and tr = wf_step_trans [OF assms(1)]
  show "sound (next_in_chain e c mast i q) (\<lambda>(st, p'). wf_step p p')"
    unfolding next_in_chain_def using assms wf
    by (auto intro!: outcome_bind outcome_CHECK outcome_deref get_slave_number_sound chain_forward_sound)
  show "sound (start_chain e c q) (\<lambda>(st, p'). wf_step p p')"
    unfolding start_chain_def using assms wf
    by (auto intro!: outcome_bind get_slave_number_sound chain_forward_sound split: option.split)
  show "sound (tail_ack e c msg q) (\<lambda>(st, p'). wf_step p p')"
    unfolding tail_ack_def using assms wf
    by (auto intro!: outcome_bind pop_omsg_sound sound_get_msg forward_step_sound [of p] split: option.split dest: wf_step_wf tr)
  show "sound (tail_answer e c msg q) (\<lambda>(st, p'). wf_step p p')"
    unfolding tail_answer_def using assms wf
    by (auto intro!: outcome_bind rsp_mapped_forward_sound forward_step_sound [of p] wf_upd_link_step dest: tr)
qed

lemma replica_response_sound:
  assumes "wf_step p q" "c < next_lid q" "msg < next_mid q" "mast < next_lid q"
  shows "sound (replica_response e c msg mast q) (\<lambda>(st, p'). wf_step p p')"
proof -
  have "wf_step p (upd_link c (\<lambda>l. l\<lparr>l_omsg_q := tl (l_omsg_q l)\<rparr>) q)"
    using assms(1) by (intro wf_upd_link_step) (auto simp: link_ok_def ids_ok_tl)
  then show ?thesis unfolding replica_response_def using assms wf_step_wf [OF assms(1)]
    by (auto intro!: outcome_bind outcome_CHECK sound_get_link chain_ends_sound)
qed

lemma replica_rsp_recv_sound:
  assumes "proxy_wf p" "c < next_lid p"
  shows "sound (replica_rsp_recv e c p) (\<lambda>(st, p'). wf_step p p')"
proof -
  have mast: "m < next_lid q" if "wf_step p q" "get_master_of_slave q c = Some m" for q m
    using that find_master_ok by (auto simp: get_master_of_slave_def proxy_wf_def wf_step_def)
  show ?thesis unfolding replica_rsp_recv_def
    by (intro outcome_bind outcome_CHECK sound_get_link read_msg_sound assms)
       (use assms in \<open>auto intro!: drop_conn_sound replica_response_sound dest: mast split: option.split\<close>)
qed

lemma rsp_recv_sound:
  assumes "proxy_wf p" "c < next_lid p"
  shows "sound (rsp_recv e c p) (\<lambda>(st, p'). wf_step p p')"
proof -
  have ans: "sound (answer_client e c msg q) (\<lambda>(st, p'). wf_step p p')" if q: "wf_step p q" "c < next_lid q" "msg < next_mid q" for q msg
  proof -
    have un: "sound (unlock_response c q) (\<lambda>q'. wf_step p q' \<and> c < next_lid q' \<and> msg < next_mid q')"
      unfolding unlock_response_def using q wf_step_wf [OF q(1)] by (auto intro!: outcome_bind sound_get_link wf_upd_link_step)
    show ?thesis unfolding answer_client_def
      by (intro outcome_bind outcome_weaken [OF un])
         (auto intro!: outcome_bind rsp_mapped_forward_sound forward_step_sound [of p] dest: wf_step_wf intro: wf_step_trans)
  qed
  have msg: "wf_step p ((upd_msg m (\<lambda>x. x\<lparr>m_id := i, m_count := k\<rparr>) q)\<lparr>rsp_count := r\<rparr>)" if "wf_step p q" for m i k r q
    using wf_upd_msg_step [OF that, of "\<lambda>x. x\<lparr>m_id := i, m_count := k\<rparr>"] by (simp add: wf_step_def)
  have wf: "proxy_wf (upd_msg m (\<lambda>x. x\<lparr>m_id := i, m_count := k\<rparr>) q)" if "wf_step p q" for m i k q
    using msg [OF that, where m = m and i = i and k = k and r = 0] by (simp add: wf_step_def)
  show ?thesis unfolding rsp_recv_def Let_def
    by (intro outcome_bind read_msg_sound assms)
       (use assms in \<open>auto intro!: outcome_bind drop_conn_sound sound_get_link chain_ends_sound(2) ans msg wf split: option.split\<close>)
qed

lemma rsp_send_sound:
  assumes "proxy_wf p" "c < next_lid p"
  shows "sound (rsp_send e c p) (\<lambda>(st, p'). wf_step p p')"
proof -
  have 1: "wf_step p (put_wire c s (upd_msg m (\<lambda>x. x\<lparr>m_buf := b\<rparr>) (upd_link c (\<lambda>l. l\<lparr>l_imsg_q := q\<rparr>) p)))"
    if "ids_ok (next_mid p) q" for s m b q
    using wf_set_imsg [OF assms(1) that] assms(2) by (intro wf_put_wire wf_upd_msg_step) auto
  show ?thesis unfolding rsp_send_def Let_def
    by (intro outcome_bind sound_get_link assms)
       (use assms wf_step_wf [OF wf_set_imsg [OF assms(1)]] in
         \<open>auto intro!: idle_out_sound outcome_bind sound_get_msg sound_io(3) drop_conn_sound 1 dest: queue_head_ok split: list.split\<close>)
qed

lemmas handler_sound = req_recv_sound rsp_recv_sound replica_rsp_recv_sound rsp_send_sound req_send_sound replica_req_send_sound

section \<open>Connections\<close>

lemma link_ok_new [simp]: "link_ok nl nm (Link_new b junk)"
  by (simp add: link_ok_def Link_new_def)

lemma link_ok_setters [simp]:
  "link_ok nl nm (set_nw_func l) = link_ok nl nm l" "link_ok nl nm (set_repl_func l) = link_ok nl nm l"
  "link_ok nl nm (replica_fields l) = link_ok nl nm l" "link_ok nl nm (server_fields k n l) = link_ok nl nm l"
  "link_ok nl nm (slave_fields n l) = link_ok nl nm l" "link_ok nl nm (reset_error l) = link_ok nl nm l"
  by (simp_all add: set_nw_func_def set_repl_func_def replica_fields_def server_fields_def slave_fields_def reset_error_def)

lemma get_conn_wf:
  assumes "proxy_wf p"
  shows "get_conn e p = (s, q) \<Longrightarrow> wf_step p q \<and> s < next_lid q" "get_slave_conn e p = (s, q) \<Longrightarrow> wf_step p q \<and> s < next_lid q"
proof -
  have "link_ok (next_lid p) (next_mid p) ((Link_new False x)\<lparr>l_is_server := b\<rparr>)" for b x by simp
  note wf = wf_add_link [OF assms this]
  show "get_conn e p = (s, q) \<Longrightarrow> wf_step p q \<and> s < next_lid q" unfolding get_conn_def by (rule wf)
  show "get_slave_conn e p = (s, q) \<Longrightarrow> wf_step p q \<and> s < next_lid q" unfolding get_slave_conn_def by (rule wf)
qed

lemma connect_conn_sound:
  assumes "wf_step p q" "c < next_lid q" "\<And>st r. wf_step p r \<Longrightarrow> next_lid r = next_lid q \<Longrightarrow> Q (st, r)"
  shows "sound (connect_conn a host port c q) Q"
  unfolding connect_conn_def
  by (intro outcome_bind sound_get_link wf_step_wf [OF assms(1)] assms(2))
     (use assms(1) in \<open>auto simp: link_connect_def intro!: assms(3) wf_upd_link_step split: option.split\<close>)

lemma open_conn_sound:
  assumes "proxy_wf p" "\<And>nl nm l. link_ok nl nm l \<Longrightarrow> link_ok nl nm (f l)"
    "\<And>s q. wf_step p q \<Longrightarrow> s < next_lid q \<Longrightarrow> Q (s, q)"
  shows "sound (open_server e c a node f p) Q" "sound (open_slave e a node n p) Q"
proof -
  show "sound (open_server e c a node f p) Q"
  proof (cases "get_conn e p")
    case (Pair s q)
    then have q: "wf_step p q" "s < next_lid q" using get_conn_wf(1) [OF assms(1)] by auto
    show ?thesis unfolding open_server_def Pair using assms(2) q(2)
      by (auto intro!: outcome_bind connect_conn_sound [OF q] assms(3) wf_upd_link_step simp: set_server_conn_def)
  qed
  show "sound (open_slave e a node n p) Q"
  proof (cases "get_slave_conn e p")
    case (Pair s q)
    then have q: "wf_step p q" "s < next_lid q" using get_conn_wf(2) [OF assms(1)] by auto
    show ?thesis unfolding open_slave_def Pair using q(2)
      by (auto intro!: outcome_bind connect_conn_sound [OF q] assms(3) wf_upd_link_step)
  qed
qed

lemma establish_node_sound:
  assumes "proxy_wf p" "pair_ok (next_lid p) (fst acc)"
  shows "sound (establish_node e c it acc p) (\<lambda>(acc', q). wf_step p q \<and> pair_ok (next_lid q) (fst acc'))"
proof -
  obtain key node where it: "it = (key, node)" by fastforce
  obtain mast slaves n as where acc: "acc = ((mast, slaves), n, as)" by (metis prod.exhaust)
  have ok: "pair_ok (next_lid q) (mast, slaves)" if "wf_step p q" for q
    using assms(2) that ok_mono(4) unfolding acc wf_step_def by auto
  have new: "pair_ok (next_lid q) (Some s, slaves)" "pair_ok (next_lid q) (mast, slaves @ [s])" if "wf_step p q" "s < next_lid q" for q s
    using ok [OF that(1)] that(2) by (auto simp: pair_ok_def)
  note op = open_conn_sound(1) [OF assms(1)] open_conn_sound(2) [OF assms(1), of "\<lambda>l. l"]
  show ?thesis unfolding it acc establish_node_def establish_ms_def establish_slave_def establish_aa_def establish_no_def establish_master_def
      establish_replica_def weighted_fields_def next_conn_def
    using assms(1) ok new
    by (auto intro!: outcome_bind op split: supp_top.split cons_mod.split replica_role_t.split list.split)
qed

lemma establish_loop_sound:
  assumes "proxy_wf p" "pair_ok (next_lid p) (fst acc)"
  shows "sound (establish_loop e c its acc p) (\<lambda>(acc', q). wf_step p q \<and> pair_ok (next_lid q) (fst acc'))"
  using assms
proof (induction its arbitrary: acc p)
  case (Cons it its)
  have "sound (establish_loop e c its acc' q) (\<lambda>(acc', r). wf_step p r \<and> pair_ok (next_lid r) (fst acc'))"
    if "wf_step p q" "pair_ok (next_lid q) (fst acc')" for acc' q
    by (rule outcome_weaken [OF Cons.IH]) (use that wf_step_trans [OF that(1)] in \<open>auto dest: wf_step_wf\<close>)
  then show ?case using Cons.prems by (auto intro!: outcome_bind outcome_weaken [OF establish_node_sound])
qed simp

lemma establish_each_sound:
  assumes "wf_step p0 p"
  shows "sound (establish_server_conn_each e c p) (wf_step p0)"
proof -
  note wf = wf_step_wf [OF assms] and tr = wf_step_trans [OF assms]
  have "pair_ok (next_lid p) (fst ((None, []), 0, e_conns e))" by (simp add: pair_ok_def)
  note loop = outcome_weaken [OF establish_loop_sound [OF wf this]]
  show ?thesis unfolding establish_server_conn_each_def
    by (intro outcome_bind loop) (use tr in \<open>auto intro!: wf_step_trans [OF _ wf_ms_map] dest: wf_step_wf\<close>)
qed

lemma set_event_step_sound:
  assumes "wf_step p q" "c < next_lid q"
  shows "sound (set_event e c flag q) (wf_step p)"
  by (rule outcome_weaken [OF event_sound(1) [OF wf_step_wf [OF assms(1)] assms(2)] wf_step_trans [OF assms(1)]])

lemma accept_on_sound:
  assumes "wf_step p q" "s < next_lid q" "c < next_lid q" "\<And>nl nm l. link_ok nl nm (f l) = link_ok nl nm l"
    "\<And>r p'. wf_step p p' \<Longrightarrow> next_lid p' = next_lid q \<Longrightarrow> ptr_ok (next_lid p') r \<Longrightarrow> Q (r, p')"
  shows "sound (accept_on e s f c q) Q"
  unfolding accept_on_def
  by (intro outcome_bind sound_get_link wf_step_wf [OF assms(1)] assms(2,3))
     (use assms(1,3,4) in \<open>auto simp: link_accept_def Let_def inc_conn_count_def wf_step_def
        intro!: assms(5) wf_step_wf [OF wf_upd_link] split: option.split prod.split\<close>)

lemma accept_client_sound:
  assumes "proxy_wf p"
  shows "sound (accept_client e p) (wf_step p)"
proof (cases "get_client_conn e p")
  case (Pair c q)
  then have q: "wf_step p q" "c < next_lid q" using get_conn_wf(1) [OF assms] by (auto simp: get_client_conn_def)
  let ?q = "upd_link c (\<lambda>l. l\<lparr>l_is_client := True\<rparr>) ((inc_conn_count q)\<lparr>client_conn_flag := True\<rparr>)"
  have "wf_step p ((inc_conn_count q)\<lparr>client_conn_flag := True\<rparr>)" using q(1) by (simp add: wf_step_def inc_conn_count_def)
  then have q1: "wf_step p ?q" "c < next_lid ?q" using q(2) by (auto intro!: wf_upd_link_step simp: inc_conn_count_def)
  have est: "sound (establish_server_conn_each e c ?q) (\<lambda>r. wf_step p r \<and> c < next_lid r)"
    by (rule outcome_weaken [OF establish_each_sound [OF wf_step_refl [THEN iffD2, OF wf_step_wf [OF q1(1)]]]])
       (use q1 wf_step_trans [OF q1(1)] in \<open>auto simp: wf_step_def\<close>)
  have listen: "client_listen_conn r < next_lid r" if "wf_step p r" for r using that by (simp add: wf_step_def proxy_wf_def)
  show ?thesis unfolding accept_client_def Pair Let_def accept_conn_into_def prod.case
    by (rule outcome_bind, rule outcome_weaken [OF est])
       (auto intro!: outcome_bind accept_on_sound [of p] set_event_step_sound listen)
qed

lemma accept_peer_sound:
  assumes "proxy_wf p"
  shows "sound (accept_peer e p) (wf_step p)"
proof -
  have peer: "s < next_lid q" if "wf_step p q" "peer_listen_conn q = Some s" for q s using that by (simp add: wf_step_def proxy_wf_def)
  have est: "sound (establish_s_conn e c q) (\<lambda>(s, r). wf_step p r \<and> c < next_lid r)" if q: "wf_step p q" "c < next_lid q" for c q
  proof (cases "get_conn e q")
    case (Pair s r)
    have r: "wf_step p r" "s < next_lid r" "c < next_lid r"
      using get_conn_wf(1) [OF wf_step_wf [OF q(1)] Pair] q wf_step_trans [OF q(1)] by (auto simp: wf_step_def)
    show ?thesis unfolding establish_s_conn_def Pair prod.case
      using r(3) by (auto intro!: outcome_bind connect_conn_sound [OF r(1,2)] wf_upd_link_step)
  qed
  have acc: "sound (accept_peer_conn e p) (\<lambda>(r, q). wf_step p q \<and> ptr_ok (next_lid q) r)"
  proof (cases "get_client_conn e p")
    case (Pair c q)
    then have q: "wf_step p q" "c < next_lid q" using get_conn_wf(1) [OF assms] by (auto simp: get_client_conn_def)
    show ?thesis unfolding accept_peer_conn_def Pair prod.case using q peer
      by (auto intro!: outcome_bind outcome_deref accept_on_sound [of p])
  qed
  show ?thesis unfolding accept_peer_def
    by (rule outcome_bind, rule outcome_weaken [OF acc])
       (auto intro!: outcome_bind outcome_weaken [OF est] set_event_step_sound split: option.split)
qed

section \<open>The event loop\<close>

lemma proxy_recv_sound:
  assumes "proxy_wf p" "c < next_lid p"
  shows "sound (proxy_recv e c p) (\<lambda>(st, p'). wf_step p p')"
proof -
  have call: "sound (call_recv e h c p) (\<lambda>(st, p'). wf_step p p')" for h
    using assms handler_sound(1-3) by (cases h) (auto simp: call_recv_def admin_replica_recv_def)
  have put: "wf_step p (put_conn c (upd_link c reset_error q))" if "wf_step p q" for q
    using wf_upd_link_step [OF that, of reset_error c] by (simp add: put_conn_def wf_step_def)
  show ?thesis unfolding proxy_recv_def handler_def
    by (intro outcome_bind sound_get_link assms)
       (use assms put in \<open>auto intro!: outcome_bind outcome_weaken [OF call] split: option.split\<close>)
qed

lemma proxy_send_sound:
  assumes "proxy_wf p" "c < next_lid p"
  shows "sound (proxy_send e c p) (\<lambda>(st, p'). wf_step p p')"
proof -
  have call: "sound (call_send e h c p) (\<lambda>(st, p'). wf_step p p')" for h
    using assms handler_sound(4-6) by (cases h) (auto simp: call_send_def)
  show ?thesis unfolding proxy_send_def handler_def
    by (intro outcome_bind sound_get_link assms)
       (use assms in \<open>auto intro!: outcome_bind outcome_weaken [OF call] split: option.split\<close>)
qed

lemma dispatch_sound:
  assumes "proxy_wf p" "ptr_ok (next_lid p) (data_ptr fde)"
  shows "sound (dispatch e fde p) (wf_step p)"
  unfolding dispatch_def using assms
  by (auto intro!: outcome_bind outcome_deref outcome_weaken [OF proxy_recv_sound] outcome_weaken [OF proxy_send_sound])

lemma batch_event_sound:
  assumes "proxy_wf p" "ptr_ok (next_lid p) (data_ptr fde)"
  shows "sound (batch_event e fde p) (wf_step p)"
  unfolding batch_event_def using assms accept_client_sound accept_peer_sound dispatch_sound by auto

lemma batch_events_sound: "proxy_wf p \<Longrightarrow> sound (batch_events envs i fds p) (wf_step p)"
proof (induction fds arbitrary: i p)
  case (Cons fd fds)
  have "sound (batch_events envs (Suc i) fds q) (wf_step p)" if "wf_step p q" for q
    by (rule outcome_weaken [OF Cons.IH]) (use that wf_step_trans [OF that] in \<open>auto dest: wf_step_wf\<close>)
  moreover have "ptr_ok (next_lid p) (data_ptr (ep_events (fdes p) ! nat fd))" if "0 \<le> fd" "fd < int (length (ep_events (fdes p)))"
    using Cons.prems that by (auto simp: proxy_wf_def fdes_ok_def evs_ok_def nat_less_iff)
  ultimately show ?case using Cons.prems by (auto intro!: outcome_bind outcome_weaken [OF batch_event_sound])
qed simp

lemma fdes_wait_sound:
  assumes "fdes_ok n f"
  shows "sound (fdes_wait r f) (\<lambda>(evs, f'). fdes_ok n f')"
proof -
  have one: "sound (mark_ready x g) (\<lambda>(y, g'). fdes_ok n g')" if "fdes_ok n g" for x g
  proof (cases x)
    case (Pair fd ev)
    show ?thesis
    proof (cases "fd < 0 \<or> int (length (ep_events g)) \<le> fd")
      case False
      then have "ptr_ok n (data_ptr (ep_events g ! nat fd))" using that by (auto simp: fdes_ok_def evs_ok_def nat_less_iff)
      then show ?thesis using that False by (auto simp: mark_ready_def Pair Let_def fdes_ok_def intro!: evs_ok_update)
    qed (simp add: mark_ready_def Pair)
  qed
  have all: "sound (mark_all_ready rs g) (\<lambda>(ys, g'). fdes_ok n g')" if "fdes_ok n g" for rs g
    using that
  proof (induction rs arbitrary: g)
    case (Cons x rs)
    then show ?case by (auto intro!: outcome_bind outcome_weaken [OF one] outcome_weaken [OF Cons.IH])
  qed simp
  show ?thesis using assms by (auto simp: fdes_wait_def intro!: outcome_bind outcome_weaken [OF all] split: ep_result.split)
qed

lemma batch_round_sound:
  assumes "proxy_wf p"
  shows "sound (batch_round r envs p) (\<lambda>(go, q). wf_step p q)"
proof -
  have f: "fdes_ok (next_lid p) (fdes p)" using assms by (simp add: proxy_wf_def)
  have g: "sound (batch_events envs i fds (p\<lparr>fdes := g\<rparr>)) (wf_step p)" if "fdes_ok (next_lid p) g" for i fds g
    using outcome_weaken [OF batch_events_sound [OF wf_step_wf [OF wf_fdes [OF assms that]]] wf_step_trans [OF wf_fdes [OF assms that]]] .
  show ?thesis unfolding batch_round_def
    by (rule outcome_bind, rule outcome_weaken [OF fdes_wait_sound [OF f]])
       (use assms in \<open>auto intro!: outcome_bind outcome_weaken [OF g] wf_fdes split: option.split\<close>)
qed

lemma batch_loop_sound: "proxy_wf p \<Longrightarrow> sound (batch_loop rs p) (\<lambda>(st, q). wf_step p q)"
proof (induction rs arbitrary: p)
  case (Cons x rs)
  obtain r envs where x: "x = (r, envs)" by fastforce
  have "sound (batch_loop rs q) (\<lambda>(st, q). wf_step p q)" if "wf_step p q" for q
    by (rule outcome_weaken [OF Cons.IH]) (use that wf_step_trans [OF that] in \<open>auto dest: wf_step_wf\<close>)
  then show ?case unfolding x using Cons.prems by (auto intro!: outcome_bind outcome_weaken [OF batch_round_sound])
qed simp

section \<open>Construction\<close>

lemma construction_wf:
  assumes "NetworkServer_new e junk (link_listen fd jl ip port) ex cs ci nodes shard rec = Inr p"
  shows "proxy_wf p"
proof -
  obtain l where l: "link_listen fd jl ip port = Some l" using assms by (auto simp: NetworkServer_new_def split: option.splits)
  then have lo: "link_ok 1 0 l" by (auto simp: link_listen_def link_ok_def Link_new_def split: option.splits)
  have "fdes_ok 1 Fdevents_new" by (simp add: fdes_ok_def evs_ok_def Fdevents_new_def)
  then have "sound (fdes_set k s FDEVENT_IN n (Some 0) Fdevents_new) (\<lambda>(r, f). fdes_ok 1 f)" for k s n by (rule fdes_ops_ok(1)) simp
  then have f: "fdes_set k s FDEVENT_IN n (Some 0) Fdevents_new = Inr (r, f) \<Longrightarrow> fdes_ok 1 f" for k s n r f
    using outcomeD by fastforce
  show ?thesis using assms lo f
    by (auto simp: NetworkServer_new_def l rbind_eq_Inr Let_def proxy_wf_def wire_ok_def split: if_splits)
qed

section \<open>Properties\<close>



end
