(* ===== verification/Chain_Spec.thy ===== *)
theory Chain_Spec
  imports Bespokv_Prelude "HOL-Library.Sublist"
begin

text \<open>
  What chain replication promises, independent of sockets, buffers and handlers: the replicas form a
  list; a write is logged and enters at its head, is sent to a replica, handed to the next one once it has been
  answered, and acknowledged to the client after the last replica has answered. The invariant is
  that the writes a replica has received are a prefix of those of its predecessor, and that
  acknowledged writes have reached every replica. The proxy is shown to implement this
  specification in the theory Chain_Replication.
\<close>

record chain =
  ch_sent :: "nat \<Rightarrow> string list"
  ch_in :: "nat \<Rightarrow> string list"
  ch_out :: "nat \<Rightarrow> string list"
  ch_acks :: nat
  ch_log :: "string list"

text \<open>
  The steps on the chain xs: a write arrives and is logged, the next write of a replica's queue is sent to it, an
  answered write moves on to the next replica, the last replica has answered a write.
\<close>

inductive chain_step :: "nat list \<Rightarrow> chain \<Rightarrow> chain \<Rightarrow> bool" for xs where
  arrive: "xs \<noteq> [] \<Longrightarrow> chain_step xs s (s\<lparr>ch_in := (ch_in s)(hd xs := ch_in s (hd xs) @ [a]), ch_log := ch_log s @ [a]\<rparr>)"
| send: "x \<in> set xs \<Longrightarrow> ch_in s x = a # r \<Longrightarrow>
    chain_step xs s (s\<lparr>ch_sent := (ch_sent s)(x := ch_sent s x @ [a]), ch_in := (ch_in s)(x := r), ch_out := (ch_out s)(x := ch_out s x @ [a])\<rparr>)"
| move: "Suc i < length xs \<Longrightarrow> ch_out s (xs ! i) = a # r \<Longrightarrow>
    chain_step xs s (s\<lparr>ch_in := (ch_in s)(xs ! Suc i := ch_in s (xs ! Suc i) @ [a]), ch_out := (ch_out s)(xs ! i := r)\<rparr>)"
| ack: "xs \<noteq> [] \<Longrightarrow> ch_out s (last xs) = a # r \<Longrightarrow>
    chain_step xs s (s\<lparr>ch_out := (ch_out s)(last xs := r), ch_acks := Suc (ch_acks s)\<rparr>)"

definition chain_ok :: "nat list \<Rightarrow> chain \<Rightarrow> bool" where
  "chain_ok xs s \<longleftrightarrow>
     (\<forall>i. Suc i < length xs \<longrightarrow> ch_sent s (xs ! i) = ch_sent s (xs ! Suc i) @ ch_in s (xs ! Suc i) @ ch_out s (xs ! i)) \<and>
     length (ch_sent s (last xs)) = ch_acks s + length (ch_out s (last xs))"

lemma nth_not_last:
  assumes "distinct xs" "Suc i < length xs"
  shows "xs ! i \<noteq> last xs"
proof -
  have "last xs = xs ! (length xs - 1)" using assms(2) by (intro last_conv_nth) auto
  then show ?thesis using assms by (auto simp: nth_eq_iff_index_eq)
qed

lemma nth_not_hd:
  assumes "distinct xs" "Suc i < length xs"
  shows "xs ! Suc i \<noteq> hd xs"
proof -
  have "hd xs = xs ! 0" using assms(2) by (intro hd_conv_nth) auto
  moreover have "0 < length xs" using assms(2) by linarith
  ultimately show ?thesis using assms nth_eq_iff_index_eq [of xs "Suc i" 0] by simp
qed

lemma chain_ok_step:
  assumes "chain_step xs s t" "chain_ok xs s" "distinct xs"
  shows "chain_ok xs t"
  using assms(1)
proof cases
  case (arrive a)
  then show ?thesis using assms(2) nth_not_hd [OF assms(3)] by (auto simp: chain_ok_def)
next
  case (send x a r)
  then show ?thesis using assms(2,3) by (auto simp: chain_ok_def nth_eq_iff_index_eq)
next
  case (move i a r)
  then show ?thesis using assms(2,3) nth_not_last [OF assms(3) move(2)] by (auto simp: chain_ok_def nth_eq_iff_index_eq)
next
  case (ack a r)
  then show ?thesis using assms(2) nth_not_last [OF assms(3)] by (auto simp: chain_ok_def)
qed

lemma chain_ok_steps: "(chain_step xs)\<^sup>*\<^sup>* s t \<Longrightarrow> chain_ok xs s \<Longrightarrow> distinct xs \<Longrightarrow> chain_ok xs t"
  by (induction rule: rtranclp_induct) (auto intro: chain_ok_step)

text \<open>Every replica has a prefix of the writes of each replica before it.\<close>

lemma chain_prefix:
  assumes "chain_ok xs s" "i \<le> j" "j < length xs"
  shows "prefix (ch_sent s (xs ! j)) (ch_sent s (xs ! i))"
  using assms(2,3)
proof (induction j)
  case (Suc j)
  show ?case
  proof (cases "i = Suc j")
    case False
    then have "prefix (ch_sent s (xs ! j)) (ch_sent s (xs ! i))" using Suc by simp
    moreover have "prefix (ch_sent s (xs ! Suc j)) (ch_sent s (xs ! j))" using assms(1) Suc.prems by (simp add: chain_ok_def)
    ultimately show ?thesis using prefix_order.trans by blast
  qed simp
qed simp

text \<open>The acknowledged writes are the first ones of every replica.\<close>

lemma chain_acked:
  assumes "chain_ok xs s" "x \<in> set xs" "y \<in> set xs"
  shows "ch_acks s \<le> length (ch_sent s x) \<and> take (ch_acks s) (ch_sent s x) = take (ch_acks s) (ch_sent s y)"
proof -
  let ?z = "last xs" and ?n = "ch_acks s"
  have ne: "xs \<noteq> []" using assms(2) by auto
  have pre: "prefix (ch_sent s ?z) (ch_sent s w)" if "w \<in> set xs" for w
  proof -
    obtain i where "i < length xs" "xs ! i = w" using \<open>w \<in> set xs\<close> in_set_conv_nth by metis
    then show ?thesis using chain_prefix [OF assms(1), of i "length xs - 1"] ne by (simp add: last_conv_nth)
  qed
  have n: "?n \<le> length (ch_sent s ?z)" using assms(1) by (simp add: chain_ok_def)
  have "take ?n (ch_sent s w) = take ?n (ch_sent s ?z)" "?n \<le> length (ch_sent s w)" if "w \<in> set xs" for w
    using pre [OF that] n by (auto simp: prefix_def)
  then show ?thesis using assms(2,3) by metis
qed

text \<open>The log records what entered the chain, in order.\<close>

definition chain_head :: "nat list \<Rightarrow> chain \<Rightarrow> string list" where
  "chain_head xs s = ch_sent s (hd xs) @ ch_in s (hd xs)"

lemma chain_log_step:
  assumes "chain_step xs s t" "distinct xs"
  shows "\<exists>new. ch_log t = ch_log s @ new \<and> chain_head xs t = chain_head xs s @ new"
  using assms(1)
proof cases
  case (move i a r)
  then show ?thesis using nth_not_hd [OF assms(2) move(2)] by (simp add: chain_head_def)
qed (auto simp: chain_head_def)

lemma chain_log_steps:
  assumes "(chain_step xs)\<^sup>*\<^sup>* s t" "distinct xs"
  shows "\<exists>new. ch_log t = ch_log s @ new \<and> chain_head xs t = chain_head xs s @ new"
  using assms(1)
proof (induction rule: rtranclp_induct)
  case (step y z)
  then show ?case using chain_log_step [OF step.hyps(2) assms(2)] by auto
qed simp

section \<open>Implementations\<close>

text \<open>
  A system implements the chain xs when each of its steps is, under its invariant and through the
  abstraction abs, a sequence of steps of the chain.
\<close>

locale chain_impl =
  fixes xs :: "nat list" and inv :: "'s \<Rightarrow> bool" and step :: "'s \<Rightarrow> 's \<Rightarrow> bool" and abs :: "'s \<Rightarrow> chain"
  assumes inv_distinct: "inv s \<Longrightarrow> distinct xs"
    and step_refines: "inv s \<Longrightarrow> step s t \<Longrightarrow> inv t \<and> (chain_step xs)\<^sup>*\<^sup>* (abs s) (abs t)"
begin

lemma run_refines: "step\<^sup>*\<^sup>* s t \<Longrightarrow> inv s \<Longrightarrow> inv t \<and> (chain_step xs)\<^sup>*\<^sup>* (abs s) (abs t)"
proof (induction rule: rtranclp_induct)
  case (step y z)
  then show ?case using step_refines [of y z] rtranclp_trans [of "chain_step xs"] by blast
qed simp

lemma run_ok: "step\<^sup>*\<^sup>* s t \<Longrightarrow> inv s \<Longrightarrow> chain_ok xs (abs s) \<Longrightarrow> chain_ok xs (abs t)"
  using run_refines chain_ok_steps inv_distinct by blast

lemma run_prefix:
  assumes "step\<^sup>*\<^sup>* s t" "inv s" "chain_ok xs (abs s)" "i \<le> j" "j < length xs"
  shows "prefix (ch_sent (abs t) (xs ! j)) (ch_sent (abs t) (xs ! i))"
  using chain_prefix [OF run_ok [OF assms(1-3)] assms(4,5)] .

lemma run_acked:
  assumes "step\<^sup>*\<^sup>* s t" "inv s" "chain_ok xs (abs s)" "x \<in> set xs" "y \<in> set xs"
  shows "ch_acks (abs t) \<le> length (ch_sent (abs t) x) \<and> take (ch_acks (abs t)) (ch_sent (abs t) x) = take (ch_acks (abs t)) (ch_sent (abs t) y)"
  using chain_acked [OF run_ok [OF assms(1-3)] assms(4,5)] .

lemma run_logged:
  assumes "step\<^sup>*\<^sup>* s t" "inv s"
  shows "\<exists>new. ch_log (abs t) = ch_log (abs s) @ new \<and> chain_head xs (abs t) = chain_head xs (abs s) @ new"
  using chain_log_steps run_refines [OF assms] inv_distinct [OF assms(2)] by blast

end

end
