(* ===== verification/Chain_Replication.thy ===== *)
theory Chain_Replication
  imports Proxy_Safety Chain_Spec
begin

text \<open>
  The proxy with M-S topology, strong consistency and chain replication implements the
  specification of the theory Chain_Spec, for the session of one client whose requests are set
  requests: the handlers of src/src/msg.cpp, in any order and with any answers of the datalets,
  move every write along the chain of datalet connections in order, and answer the client once per
  write the last datalet has answered.
\<close>

section \<open>Views of the state\<close>

definition imsg :: "proxy \<Rightarrow> lid \<Rightarrow> mid list" where
  "imsg p c = (case links p c of None \<Rightarrow> [] | Some l \<Rightarrow> l_imsg_q l)"

definition omsg :: "proxy \<Rightarrow> lid \<Rightarrow> mid list" where
  "omsg p c = (case links p c of None \<Rightarrow> [] | Some l \<Rightarrow> l_omsg_q l)"

definition content :: "proxy \<Rightarrow> mid \<Rightarrow> string" where
  "content p m = (case msgs p m of None \<Rightarrow> [] | Some x \<Rightarrow> b_contents (m_buf x))"

text \<open>The writes the kernel took on a connection.\<close>

definition sent :: "proxy \<Rightarrow> lid \<Rightarrow> string list" where
  "sent p c = map snd (filter (\<lambda>w. fst w = c) (wire p))"

text \<open>A request that req_recv made of a set request of the client c.\<close>

definition is_write :: "lid \<Rightarrow> message \<Rightarrow> bool" where
  "is_write c x \<longleftrightarrow> m_owner x = Some c \<and> m_id x = 1 \<and> m_fwd x = Some True \<and> b_inv (m_buf x) \<and> b_data (m_buf x) = 0 \<and>
     b_contents (m_buf x) \<noteq> []"

section \<open>Effects\<close>

text \<open>Two states that differ only in the event registry and the counters.\<close>

definition quiet :: "proxy \<Rightarrow> proxy \<Rightarrow> bool" where
  "quiet p q \<longleftrightarrow> links q = links p \<and> msgs q = msgs p \<and> wire q = wire p \<and> klog q = klog p \<and>
     next_lid q = next_lid p \<and> next_mid q = next_mid p \<and> ms_map q = ms_map p \<and> topology q = topology p \<and>
     consistency_model q = consistency_model p \<and> consistency_technique q = consistency_technique p \<and> replicas q = replicas p"

lemma quiet_refl [simp]: "quiet p p"
  by (simp add: quiet_def)

lemma quiet_trans: "quiet p q \<Longrightarrow> quiet q r \<Longrightarrow> quiet p r"
  by (simp add: quiet_def)

lemma quiet_cong: "quiet p q \<Longrightarrow> quiet (upd_link c f p) (upd_link c f q)" "quiet p q \<Longrightarrow> quiet (push_imsg c m p) (push_imsg c m q)"
  by (simp_all add: quiet_def upd_link_def push_imsg_def)

lemma event_effect:
  "set_event e c flag p = Inr q \<Longrightarrow> quiet p q" "clr_event e c flag p = Inr q \<Longrightarrow> quiet p q" "del_event e c p = Inr q \<Longrightarrow> quiet p q"
  by (auto simp: set_event_def clr_event_def del_event_def rbind_eq_Inr quiet_def)

lemma notify_out_effect: "notify_out e c p = Inr q \<Longrightarrow> quiet p q"
  by (auto simp: notify_out_def rbind_eq_Inr dest!: event_effect(1) split: if_splits) (simp add: quiet_def)

lemma forward_effect: "forward e c m p = Inr q \<Longrightarrow> quiet (push_imsg c m p) q"
  by (auto simp: forward_def rbind_eq_Inr dest!: notify_out_effect intro: quiet_cong(2))

lemma drop_conn_effect: "drop_conn e c st p = Inr (st', q) \<Longrightarrow> st' = st \<and> quiet (upd_link c mark_error p) q"
  by (auto simp: drop_conn_def rbind_eq_Inr dest: event_effect(3))

lemma idle_out_effect: "idle_out e c p = Inr (st, q) \<Longrightarrow> quiet p q"
  by (auto simp: idle_out_def rbind_eq_Inr dest!: event_effect(2)) (simp add: quiet_def)

lemma get_link_Inr: "get_link p c = Inr l \<longleftrightarrow> links p c = Some l"
  by (simp add: get_link_def split: option.split)

lemma get_msg_Inr: "get_msg p m = Inr x \<longleftrightarrow> msgs p m = Some x"
  by (simp add: get_msg_def split: option.split)

lemma pop_omsg_effect:
  assumes "pop_omsg c p = Inr (m, q)"
  shows "\<exists>l ms. links p c = Some l \<and> l_omsg_q l = m # ms \<and> q = upd_link c (\<lambda>l. l\<lparr>l_omsg_q := ms\<rparr>) p"
proof -
  obtain l where l: "links p c = Some l" and
    c: "(case l_omsg_q l of [] \<Rightarrow> Inl Check_failed | m # ms \<Rightarrow> Inr (m, upd_link c (\<lambda>l. l\<lparr>l_omsg_q := ms\<rparr>) p)) = Inr (m, q)"
    using assms by (auto simp: pop_omsg_def rbind_eq_Inr get_link_Inr)
  then show ?thesis by (cases "l_omsg_q l") auto
qed

text \<open>Reading from a socket adds a message without an owner, or nothing.\<close>

definition with_msg :: "buffer \<Rightarrow> proxy \<Rightarrow> proxy" where
  "with_msg b p = p\<lparr>msgs := (msgs p)(next_mid p \<mapsto> message_new b), next_mid := Suc (next_mid p)\<rparr>"

lemma read_msg_effect:
  assumes "read_msg e c p = Inr (r, q)"
  shows "(r = None \<and> q = p) \<or> (\<exists>l b rs. links p c = Some l \<and> msg_read (e_ok e) (l_noblock l) (e_rd e) = Inr (Some b, rs) \<and>
     r = Some (next_mid p) \<and> b_inv b \<and> q = with_msg b p)"
proof -
  obtain l b rs where l: "links p c = Some l" "msg_read (e_ok e) (l_noblock l) (e_rd e) = Inr (b, rs)" and
    c: "(case b of None \<Rightarrow> Inr (None, p) | Some b \<Rightarrow> (case add_msg (message_new b) p of (m, p1) \<Rightarrow> Inr (Some m, p1))) = (Inr (r, q) :: (mid option \<times> proxy) res)"
    using assms by (auto simp: read_msg_def rbind_eq_Inr get_link_Inr)
  show ?thesis
  proof (cases b)
    case None
    then show ?thesis using c by simp
  next
    case (Some x)
    then have "r = Some (next_mid p)" "q = with_msg x p" using c by (auto simp: add_msg_def with_msg_def)
    moreover have "b_inv x" using msg_read_inv l(2) Some by blast
    ultimately show ?thesis using l Some by blast
  qed
qed

text \<open>A system that takes every write whole.\<close>

definition full_write :: "env \<Rightarrow> bool" where
  "full_write e \<longleftrightarrow> (\<exists>n. e_wr e = [Wr_take n] \<and> 2 ^ 31 \<le> n)"

lemma msg_send_full:
  assumes "b_inv b" "b_data b = 0" "b_contents b \<noteq> []" "2 ^ 31 \<le> n" "msg_send noblock [Wr_take n] b = Inr (len, b', out, ws)"
  shows "len > 0 \<and> out = b_contents b \<and> b_inv b' \<and> b_data b' = 0 \<and> b_contents b' = b_contents b"
proof -
  let ?s = "b_contents b"
  have r: "brep b ?s" using assms(1) by (simp add: b_inv_def)
  then have sz: "b_size b = int (length ?s)" "b_size b > 0" "b_size b < 2 ^ 31" using assms(3) brep_bounds [OF r] by (auto simp: brep_def)
  have len: "min (int n) (b_size b) = b_size b" using sz(3) assms(4) by (simp add: min_def)
  have "holds (b_buf b) (b_data b) ?s" using r by (simp add: brep_def)
  then have rd: "mem_read (b_buf b) (b_data b) (b_size b) = Inr ?s" using mem_read_holds sz(1) by metis
  have n: "n \<noteq> 0" using assms(4) by auto
  have w: "write_loop noblock [Wr_take n] 0 [] b = Inr (Wr_done (b_size b), b_decr (b_size b) b, ?s, [])"
    using sz(2) n rd len by (cases noblock) (simp_all add: Let_def)
  have "b' = b_rewind_sz (b_size b) (b_decr (b_size b) b)" "len = b_size b" "out = ?s"
    using assms(5) w sz(2) by (auto simp: msg_send_def Let_def b_rewind_sz_def)
  moreover have "brep (b_rewind_sz (b_size b) (b_decr (b_size b) b)) ?s"
    using r assms(2) by (simp add: brep_def b_rewind_sz_def b_decr_def)
  ultimately show ?thesis using sz(2) brep_inv brep_contents by (auto simp: b_rewind_sz_def)
qed

section \<open>Sessions\<close>

text \<open>
  The session of the client c: its datalet connection mc is the master of the slaves ss, in chain
  order, and every connection has the handlers of its role.
\<close>

definition has_link :: "proxy \<Rightarrow> lid \<Rightarrow> (link \<Rightarrow> bool) \<Rightarrow> bool" where
  "has_link p c P \<longleftrightarrow> (\<exists>l. links p c = Some l \<and> P l)"

definition session :: "lid \<Rightarrow> lid \<Rightarrow> lid list \<Rightarrow> proxy \<Rightarrow> bool" where
  "session c mc ss p \<longleftrightarrow>
     chain_mode p \<and> find_slaves mc (ms_map p) = Some ss \<and> (\<forall>s\<in>set ss. find_master s (ms_map p) = Some mc) \<and>
     replicas p = int (length ss) \<and> ss \<noteq> [] \<and> distinct (c # mc # ss) \<and>
     has_link p c (\<lambda>l. l_datalet_conn l = Some mc \<and> l_recv_nw l = Some H_req_recv \<and> l_send_nw l = Some H_rsp_send) \<and>
     has_link p mc (\<lambda>l. l_recv_nw l = Some H_rsp_recv \<and> l_send_nw l = Some H_req_send) \<and>
     (\<forall>i<length ss. has_link p (ss ! i) (\<lambda>l. l_slave_number l = int i \<and> l_recv_nw l = Some H_replica_rsp_recv \<and> l_send_nw l = Some H_replica_req_send))"

text \<open>
  The invariant of a session whose client only writes: what is queued for a datalet is a write of
  this client, what is queued for the client is not, and writes are under way only while the master
  connection is marked for replication.
\<close>

definition session_inv :: "lid \<Rightarrow> lid \<Rightarrow> lid list \<Rightarrow> proxy \<Rightarrow> bool" where
  "session_inv c mc ss p \<longleftrightarrow> proxy_wf p \<and> session c mc ss p \<and>
     (\<forall>x\<in>set (mc # ss). \<forall>m\<in>set (imsg p x) \<union> set (omsg p x). \<exists>y. msgs p m = Some y \<and> is_write c y) \<and>
     (\<forall>m\<in>set (imsg p c). \<forall>y. msgs p m = Some y \<longrightarrow> m_id y \<noteq> 1) \<and>
     (has_link p mc l_fwd_to_replicas \<or> (\<forall>x\<in>set (mc # ss). imsg p x = [] \<and> omsg p x = []))"

definition chain_abs :: "lid \<Rightarrow> lid list \<Rightarrow> proxy \<Rightarrow> chain" where
  "chain_abs c xs p =
     \<lparr>ch_sent = (\<lambda>x. if x \<in> set xs then sent p x else []),
      ch_in = (\<lambda>x. if x \<in> set xs then map (content p) (imsg p x) else []),
      ch_out = (\<lambda>x. if x \<in> set xs then map (content p) (omsg p x) else []),
      ch_acks = length (sent p c) + length (imsg p c),
      ch_log = klog p\<rparr>"

lemma view_quiet:
  assumes "quiet p q"
  shows "imsg q c = imsg p c" "omsg q c = omsg p c" "content q m = content p m" "sent q c = sent p c"
    "has_link q c P = has_link p c P" "session a mc ss q = session a mc ss p" "chain_abs a xs q = chain_abs a xs p"
  using assms by (simp_all add: quiet_def imsg_def omsg_def content_def sent_def has_link_def session_def chain_mode_def chain_abs_def fun_eq_iff)

lemma session_inv_quiet:
  assumes "quiet p q" "proxy_wf q" "session_inv c mc ss p"
  shows "session_inv c mc ss q"
  using assms(2,3) assms(1) [unfolded quiet_def] unfolding session_inv_def
  by (simp add: view_quiet [OF assms(1)])

text \<open>Updates of a connection, of a message and of the wire.\<close>

lemma view_upd_link:
  "links p d = Some l \<Longrightarrow> imsg (upd_link d f p) c = (if c = d then l_imsg_q (f l) else imsg p c)"
  "links p d = Some l \<Longrightarrow> omsg (upd_link d f p) c = (if c = d then l_omsg_q (f l) else omsg p c)"
  "content (upd_link d f p) m = content p m" "sent (upd_link d f p) c = sent p c" "msgs (upd_link d f p) = msgs p"
  by (simp_all add: imsg_def omsg_def content_def sent_def upd_link_def)

lemma view_with_msg:
  assumes "proxy_wf p"
  shows "imsg (with_msg b p) c = imsg p c" "omsg (with_msg b p) c = omsg p c" "sent (with_msg b p) c = sent p c"
    "links (with_msg b p) = links p" "m < next_mid p \<Longrightarrow> msgs (with_msg b p) m = msgs p m" "m < next_mid p \<Longrightarrow> content (with_msg b p) m = content p m"
  by (auto simp: imsg_def omsg_def content_def sent_def with_msg_def)

lemma queue_less:
  assumes "proxy_wf p" "m \<in> set (imsg p c) \<union> set (omsg p c)"
  shows "m < next_mid p"
proof (cases "links p c")
  case (Some l)
  then have "link_ok (next_lid p) (next_mid p) l" using assms(1) by (simp add: proxy_wf_def)
  then show ?thesis using assms(2) Some by (auto simp: imsg_def omsg_def link_ok_def ids_ok_def)
qed (use assms(2) in \<open>simp add: imsg_def omsg_def\<close>)

section \<open>What every step keeps\<close>

definition role :: "link \<Rightarrow> lid option \<times> recv_handler option \<times> send_handler option \<times> int" where
  "role l = (l_datalet_conn l, l_recv_nw l, l_send_nw l, l_slave_number l)"

text \<open>The connections keep their roles, marks for replication are not removed, and the messages their identity.\<close>

definition same_msg :: "message \<Rightarrow> message \<Rightarrow> bool" where
  "same_msg y z \<longleftrightarrow> m_id z = m_id y \<and> (\<forall>c. is_write c y \<longrightarrow> is_write c z \<and> b_contents (m_buf z) = b_contents (m_buf y))"

definition keeps :: "proxy \<Rightarrow> proxy \<Rightarrow> bool" where
  "keeps p q \<longleftrightarrow>
     (\<forall>x. map_option role (links q x) = map_option role (links p x)) \<and> (\<forall>x. has_link p x l_fwd_to_replicas \<longrightarrow> has_link q x l_fwd_to_replicas) \<and>
     (\<forall>m y. msgs p m = Some y \<longrightarrow> (\<exists>z. msgs q m = Some z \<and> same_msg y z)) \<and>
     ms_map q = ms_map p \<and> topology q = topology p \<and> consistency_model q = consistency_model p \<and>
     consistency_technique q = consistency_technique p \<and> replicas q = replicas p"

lemma same_msg_refl [simp]: "same_msg y y"
  by (simp add: same_msg_def)

lemma same_msg_trans: "same_msg x y \<Longrightarrow> same_msg y z \<Longrightarrow> same_msg x z"
  unfolding same_msg_def by metis

lemma keeps_refl [simp]: "keeps p p"
  by (simp add: keeps_def)

lemma keeps_trans:
  assumes "keeps p q" "keeps q r"
  shows "keeps p r"
proof -
  have "\<exists>z. msgs r m = Some z \<and> same_msg y z" if "msgs p m = Some y" for m y
    using that assms same_msg_trans unfolding keeps_def by metis
  then show ?thesis using assms unfolding keeps_def by simp
qed

lemma keeps_quiet: "quiet p q \<Longrightarrow> keeps p q"
  by (simp add: quiet_def keeps_def has_link_def)

lemma keeps_upd_link:
  assumes "\<And>l. role (f l) = role l" "\<And>l. l_fwd_to_replicas l \<Longrightarrow> l_fwd_to_replicas (f l)"
  shows "keeps p (upd_link c f p)"
  using assms by (auto simp: keeps_def upd_link_def has_link_def option.map_comp comp_def)

lemma keeps_upd_msg:
  assumes "\<And>y. msgs p m = Some y \<Longrightarrow> same_msg y (f y)"
  shows "keeps p (upd_msg m f p)"
  using assms by (auto simp: keeps_def upd_msg_def has_link_def)

lemma fresh_msg: "proxy_wf p \<Longrightarrow> msgs p (next_mid p) = None"
  by (simp add: proxy_wf_def)

lemma keeps_with_msg: "proxy_wf p \<Longrightarrow> keeps p (with_msg b p)"
  using fresh_msg [of p] by (auto simp: keeps_def with_msg_def has_link_def)

lemma keeps_fields [simp]: "keeps p (q\<lparr>rsp_count := v\<rparr>) = keeps p q" "keeps p (put_wire c s q) = keeps p q" "keeps p (q\<lparr>klog := k\<rparr>) = keeps p q"
  "keeps p (put_conn c q) = keeps p q" "keeps p (q\<lparr>conn_count := v\<rparr>) = keeps p q"
  by (simp_all add: keeps_def has_link_def put_wire_def put_conn_def)

lemma role_link:
  assumes "keeps p q" "links p x = Some l"
  shows "\<exists>l'. links q x = Some l' \<and> role l' = role l"
proof -
  have "map_option role (links q x) = Some (role l)" using assms by (simp add: keeps_def)
  then show ?thesis by auto
qed

lemma session_keeps:
  assumes "keeps p q" "session c mc ss p"
  shows "session c mc ss q"
proof -
  have l: "has_link q x P" if "has_link p x P" "\<And>l l'. role l' = role l \<Longrightarrow> P l \<Longrightarrow> P l'" for x P
    using that role_link [OF assms(1)] unfolding has_link_def by blast
  show ?thesis using assms unfolding session_def keeps_def chain_mode_def by (auto intro!: l simp: role_def)
qed

lemma session_inv_step:
  assumes "session_inv c mc ss p" "keeps p q" "proxy_wf q"
    "\<And>x m. x \<in> set (mc # ss) \<Longrightarrow> m \<in> set (imsg q x) \<union> set (omsg q x) \<Longrightarrow>
       (\<exists>y\<in>set (mc # ss). m \<in> set (imsg p y) \<union> set (omsg p y)) \<or> (\<exists>y. msgs q m = Some y \<and> is_write c y)"
    "\<And>m y. m \<in> set (imsg q c) \<Longrightarrow> msgs q m = Some y \<Longrightarrow> m \<in> set (imsg p c) \<or> m_id y \<noteq> 1"
    "has_link q mc l_fwd_to_replicas \<or> (\<forall>x\<in>set (mc # ss). imsg q x = [] \<and> omsg q x = [])"
  shows "session_inv c mc ss q"
proof -
  have w: "\<exists>y. msgs q m = Some y \<and> is_write c y" if old: "\<exists>y\<in>set (mc # ss). m \<in> set (imsg p y) \<union> set (omsg p y)" for m
  proof -
    obtain z where "msgs p m = Some z" "is_write c z" using old assms(1) unfolding session_inv_def by blast
    then show ?thesis using assms(2) unfolding keeps_def same_msg_def by blast
  qed
  have r: "m_id y \<noteq> 1" if y: "msgs q m = Some y" and m: "m \<in> set (imsg p c)" for m y
  proof -
    have "m < next_mid p" using queue_less m assms(1) unfolding session_inv_def by blast
    then obtain z where z: "msgs p m = Some z" using assms(1) unfolding session_inv_def proxy_wf_def by fastforce
    then have "m_id z \<noteq> 1" using m assms(1) unfolding session_inv_def by blast
    moreover have "m_id y = m_id z" using z y assms(2) unfolding keeps_def same_msg_def by (metis option.inject)
    ultimately show ?thesis by simp
  qed
  show ?thesis unfolding session_inv_def
    using assms(1) session_keeps [OF assms(2)] assms(3-6) w r unfolding session_inv_def by meson
qed

text \<open>Contents of the queued writes do not change.\<close>

lemma content_keeps:
  assumes "session_inv c mc ss p" "keeps p q" "x \<in> set (mc # ss)" "m \<in> set (imsg p x) \<union> set (omsg p x)"
  shows "content q m = content p m"
proof -
  obtain y where y: "msgs p m = Some y" "is_write c y" using assms(1,3,4) unfolding session_inv_def by blast
  then obtain z where "msgs q m = Some z" "b_contents (m_buf z) = b_contents (m_buf y)"
    using assms(2) unfolding keeps_def same_msg_def by blast
  then show ?thesis using y by (simp add: content_def)
qed

lemma contents_keep:
  assumes "session_inv c mc ss p" "keeps p q" "x \<in> set (mc # ss)"
  shows "map (content q) (imsg p x) = map (content p) (imsg p x)" "map (content q) (omsg p x) = map (content p) (omsg p x)"
  using content_keeps [OF assms] by auto

section \<open>Steps of the session are steps of the chain\<close>

text \<open>What a refinement of one event has to show.\<close>

definition refines :: "lid \<Rightarrow> lid \<Rightarrow> lid list \<Rightarrow> proxy \<Rightarrow> proxy \<Rightarrow> bool" where
  "refines c mc ss p q \<longleftrightarrow> session_inv c mc ss q \<and> (chain_step (mc # ss))\<^sup>*\<^sup>* (chain_abs c (mc # ss) p) (chain_abs c (mc # ss) q)"

lemma refines_trans: "refines c mc ss p q \<Longrightarrow> refines c mc ss q r \<Longrightarrow> refines c mc ss p r"
  unfolding refines_def by (meson rtranclp_trans)

lemma session_facts:
  assumes "session_inv c mc ss p"
  shows "distinct (mc # ss)" "c \<notin> set (mc # ss)" "mc \<in> set (mc # ss)" "proxy_wf p" "ss \<noteq> []"
  using assms by (auto simp: session_inv_def session_def)

lemma abs_eq:
  assumes "session_inv c mc ss p" "keeps p q"
    "\<And>x. x \<in> set (mc # ss) \<Longrightarrow> imsg q x = imsg p x \<and> omsg q x = omsg p x \<and> sent q x = sent p x"
    "length (sent q c) + length (imsg q c) = length (sent p c) + length (imsg p c)" "klog q = klog p"
  shows "chain_abs c (mc # ss) q = chain_abs c (mc # ss) p"
  using assms(3-5) contents_keep [OF assms(1,2)] by (auto simp: chain_abs_def fun_eq_iff)

text \<open>A step that leaves the datalet connections alone and keeps the number of answers.\<close>

lemma idle_step:
  assumes "session_inv c mc ss p" "keeps p q" "proxy_wf q"
    "\<And>x. x \<in> set (mc # ss) \<Longrightarrow> imsg q x = imsg p x \<and> omsg q x = omsg p x \<and> sent q x = sent p x"
    "set (imsg q c) \<subseteq> set (imsg p c)" "length (sent q c) + length (imsg q c) = length (sent p c) + length (imsg p c)"
    "klog q = klog p"
  shows "refines c mc ss p q"
proof -
  have f: "has_link q mc l_fwd_to_replicas \<or> (\<forall>x\<in>set (mc # ss). imsg q x = [] \<and> omsg q x = [])"
    using assms(1,2,4) unfolding session_inv_def keeps_def by metis
  have "session_inv c mc ss q"
    by (rule session_inv_step [OF assms(1-3)]) (use assms(4,5) f in auto)
  then show ?thesis using abs_eq [OF assms(1,2,4,6,7)] by (simp add: refines_def)
qed

lemma quiet_step:
  assumes "session_inv c mc ss p" "quiet p q" "proxy_wf q"
  shows "refines c mc ss p q"
  by (rule idle_step [OF assms(1) keeps_quiet [OF assms(2)] assms(3)]) (use assms(2) in \<open>simp_all add: view_quiet [OF assms(2)] quiet_def\<close>)

lemma send_step:
  assumes "session_inv c mc ss p" "keeps p q" "proxy_wf q" "x \<in> set (mc # ss)" "imsg p x = m # ms"
    "\<And>y. imsg q y = (if y = x then ms else imsg p y)" "\<And>y. omsg q y = (if y = x then omsg p x @ [m] else omsg p y)"
    "\<And>y. sent q y = (if y = x then sent p x @ [content p m] else sent p y)" "klog q = klog p"
  shows "refines c mc ss p q"
proof -
  let ?s = "chain_abs c (mc # ss) p"
  note nc = session_facts(2) [OF assms(1)] and ck = contents_keep [OF assms(1,2)]
  have cm: "content q m = content p m" "map (content q) ms = map (content p) ms" using ck(1) [OF assms(4)] assms(5) by auto
  have f: "has_link q mc l_fwd_to_replicas" using assms(1,2,4,5) unfolding session_inv_def keeps_def by (metis list.distinct(1))
  have in_q: "\<exists>y\<in>set (mc # ss). m' \<in> set (imsg p y) \<union> set (omsg p y)" if "y \<in> set (mc # ss)" "m' \<in> set (imsg q y) \<union> set (omsg q y)" for y m'
    using that assms(5) unfolding assms(6,7) by (intro bexI [of _ y]) (auto split: if_splits)
  have qc: "imsg q c = imsg p c" using nc assms(4,6) by auto
  have inv: "session_inv c mc ss q"
    by (rule session_inv_step [OF assms(1-3)]) (use in_q f qc in auto)
  have "chain_abs c (mc # ss) q = ?s\<lparr>ch_sent := (ch_sent ?s)(x := ch_sent ?s x @ [content p m]),
      ch_in := (ch_in ?s)(x := map (content p) ms), ch_out := (ch_out ?s)(x := ch_out ?s x @ [content p m])\<rparr>"
    using assms(4) nc cm ck unfolding chain_abs_def assms(6-9) by (auto simp: fun_eq_iff)
  moreover have "ch_in ?s x = content p m # map (content p) ms" using assms(4,5) by (simp add: chain_abs_def)
  ultimately have "chain_step (mc # ss) ?s (chain_abs c (mc # ss) q)" using chain_step.send [OF assms(4)] by metis
  then show ?thesis using inv by (simp add: refines_def r_into_rtranclp)
qed

lemma move_step:
  assumes "session_inv c mc ss p" "keeps p q" "proxy_wf q" "Suc i < length (mc # ss)" "omsg p ((mc # ss) ! i) = m # ms"
    "\<And>y. imsg q y = (if y = (mc # ss) ! Suc i then imsg p y @ [m] else imsg p y)"
    "\<And>y. omsg q y = (if y = (mc # ss) ! i then ms else omsg p y)" "\<And>y. sent q y = sent p y" "klog q = klog p"
  shows "refines c mc ss p q"
proof -
  let ?s = "chain_abs c (mc # ss) p" and ?a = "(mc # ss) ! i" and ?b = "(mc # ss) ! Suc i"
  note nc = session_facts(2) [OF assms(1)] and ck = contents_keep [OF assms(1,2)]
  have ab: "?a \<in> set (mc # ss)" "?b \<in> set (mc # ss)" using nth_mem [of i "mc # ss"] nth_mem [OF assms(4)] assms(4) by simp_all
  have ne: "c \<noteq> ?b" using nc ab(2) by metis
  have cm: "content q m = content p m" "map (content q) ms = map (content p) ms" using ck(2) [OF ab(1)] assms(5) by auto
  have f: "has_link q mc l_fwd_to_replicas" using assms(1,2,5) ab(1) unfolding session_inv_def keeps_def by (metis list.distinct(1))
  have in_q: "\<exists>y\<in>set (mc # ss). m' \<in> set (imsg p y) \<union> set (omsg p y)" if "y \<in> set (mc # ss)" "m' \<in> set (imsg q y) \<union> set (omsg q y)" for y m'
  proof -
    have "m' \<in> set (imsg p y) \<union> set (omsg p y) \<or> m' = m" using that(2) assms(5) unfolding assms(6,7) by (auto split: if_splits)
    then show ?thesis using that(1) ab(1) assms(5) by (metis UnI2 list.set_intros(1))
  qed
  have qc: "imsg q c = imsg p c" using ne assms(6) by simp
  have inv: "session_inv c mc ss q"
    by (rule session_inv_step [OF assms(1-3)]) (use in_q f qc in auto)
  have "chain_abs c (mc # ss) q = ?s\<lparr>ch_in := (ch_in ?s)(?b := ch_in ?s ?b @ [content p m]), ch_out := (ch_out ?s)(?a := map (content p) ms)\<rparr>"
    using ab ne cm ck unfolding chain_abs_def assms(6-9) by (auto simp: fun_eq_iff)
  moreover have "ch_out ?s ?a = content p m # map (content p) ms" using ab assms(5) by (simp add: chain_abs_def)
  ultimately have "chain_step (mc # ss) ?s (chain_abs c (mc # ss) q)" using chain_step.move [OF assms(4)] by metis
  then show ?thesis using inv by (simp add: refines_def r_into_rtranclp)
qed

lemma ack_step:
  assumes "session_inv c mc ss p" "keeps p q" "proxy_wf q" "omsg p (last (mc # ss)) = m # ms"
    "\<And>y. imsg q y = (if y = c then imsg p y @ [r] else imsg p y)" "\<And>y. msgs q r = Some y \<Longrightarrow> m_id y \<noteq> 1"
    "\<And>y. omsg q y = (if y = last (mc # ss) then ms else omsg p y)" "\<And>y. sent q y = sent p y" "klog q = klog p"
  shows "refines c mc ss p q"
proof -
  let ?s = "chain_abs c (mc # ss) p" and ?a = "last (mc # ss)"
  note nc = session_facts(2) [OF assms(1)] and ck = contents_keep [OF assms(1,2)]
  have a: "?a \<in> set (mc # ss)" by (rule last_in_set) simp
  have cm: "map (content q) ms = map (content p) ms" using ck(2) [OF a] assms(4) by auto
  have f: "has_link q mc l_fwd_to_replicas" using assms(1,2,4) a unfolding session_inv_def keeps_def by (metis list.distinct(1))
  have in_q: "m' \<in> set (imsg p y) \<union> set (omsg p y)" if "y \<in> set (mc # ss)" "m' \<in> set (imsg q y) \<union> set (omsg q y)" for y m'
    using that nc assms(4) unfolding assms(5,7) by (auto split: if_splits)
  have inv: "session_inv c mc ss q"
    by (rule session_inv_step [OF assms(1-3)]) (use in_q f assms(5,6) in blast, use assms(5,6) in auto, use f in auto)
  have "chain_abs c (mc # ss) q = ?s\<lparr>ch_out := (ch_out ?s)(?a := map (content p) ms), ch_acks := Suc (ch_acks ?s)\<rparr>"
    using a nc cm ck unfolding chain_abs_def assms(5,7-9) by (auto simp: fun_eq_iff)
  moreover have "ch_out ?s ?a = content p m # map (content p) ms" using a assms(4) by (simp add: chain_abs_def)
  ultimately have "chain_step (mc # ss) ?s (chain_abs c (mc # ss) q)" using chain_step.ack [of "mc # ss" ?s] by simp
  then show ?thesis using inv by (simp add: refines_def r_into_rtranclp)
qed

lemma arrive_step:
  assumes "session_inv c mc ss p" "keeps p q" "proxy_wf q" "has_link q mc l_fwd_to_replicas"
    "\<And>y. imsg q y = (if y = mc then imsg p y @ [m] else imsg p y)" "msgs q m = Some x" "is_write c x"
    "\<And>y. omsg q y = omsg p y" "\<And>y. sent q y = sent p y"
    "klog q = klog p @ [b_contents (m_buf x)]"
  shows "refines c mc ss p q"
proof -
  let ?s = "chain_abs c (mc # ss) p"
  note nc = session_facts(2) [OF assms(1)] and ck = contents_keep [OF assms(1,2)]
  have inv: "session_inv c mc ss q"
    by (rule session_inv_step [OF assms(1-3)]) (use assms(4-8) nc in \<open>auto split: if_splits\<close>)
  have "chain_abs c (mc # ss) q = ?s\<lparr>ch_in := (ch_in ?s)(hd (mc # ss) := ch_in ?s (hd (mc # ss)) @ [content q m]), ch_log := ch_log ?s @ [content q m]\<rparr>"
    using nc ck assms(6) unfolding chain_abs_def assms(5,8-10) by (auto simp: fun_eq_iff content_def)
  then have "chain_step (mc # ss) ?s (chain_abs c (mc # ss) q)" using chain_step.arrive [of "mc # ss" ?s "content q m"] by simp
  then show ?thesis using inv by (simp add: refines_def r_into_rtranclp)
qed

end
