(* ===== verification/Chain_Refinement.thy ===== *)
theory Chain_Refinement
  imports Chain_Replication
begin

text \<open>
  The events of a chain replication session, one handler after the other: sending a request to a
  datalet, the answers of the master, of a slave inside the chain and of the last slave, the answer
  to the client and the arrival of set requests. Each is a sequence of steps of the chain, so the
  proxy is an implementation of the specification; the properties follow from the interpretation.
\<close>

section \<open>Views after an update\<close>

lemma view_upd_msg [simp]:
  "imsg (upd_msg m f p) = imsg p" "omsg (upd_msg m f p) = omsg p" "sent (upd_msg m f p) = sent p" "links (upd_msg m f p) = links p"
  "msgs (upd_msg m f p) = (msgs p)(m := map_option f (msgs p m))"
  by (simp_all add: upd_msg_def imsg_def omsg_def sent_def fun_eq_iff)

lemma view_put_wire [simp]:
  "imsg (put_wire c s p) = imsg p" "omsg (put_wire c s p) = omsg p" "links (put_wire c s p) = links p" "msgs (put_wire c s p) = msgs p"
  "sent (put_wire c s p) x = (if x = c then sent p x @ [s] else sent p x)"
  by (simp_all add: put_wire_def imsg_def omsg_def sent_def fun_eq_iff)

lemma klog_view [simp]:
  "klog (upd_msg m f p) = klog p" "klog (put_wire c s p) = klog p" "klog (upd_link c g p) = klog p" "klog (push_imsg c m p) = klog p"
  "klog (push_omsg c m p) = klog p" "klog (put_conn c p) = klog p" "klog (with_msg b p) = klog p"
  by (simp_all add: upd_msg_def put_wire_def upd_link_def push_imsg_def push_omsg_def put_conn_def with_msg_def)

lemma klog_quiet: "quiet p q \<Longrightarrow> klog q = klog p"
  by (simp add: quiet_def)

lemma links_upd_link: "links (upd_link c f p) = (links p)(c := map_option f (links p c))"
  by (simp add: upd_link_def)

lemma view_push:
  "links p c = Some l \<Longrightarrow> imsg (push_imsg c m p) x = (if x = c then imsg p x @ [m] else imsg p x)"
  "links p c = Some l \<Longrightarrow> omsg (push_imsg c m p) x = omsg p x"
  "links p c = Some l \<Longrightarrow> imsg (push_omsg c m p) x = imsg p x"
  "links p c = Some l \<Longrightarrow> omsg (push_omsg c m p) x = (if x = c then omsg p x @ [m] else omsg p x)"
  "sent (push_imsg c m p) = sent p" "sent (push_omsg c m p) = sent p" "msgs (push_imsg c m p) = msgs p" "msgs (push_omsg c m p) = msgs p"
  by (simp_all add: push_imsg_def push_omsg_def imsg_def omsg_def sent_def upd_link_def fun_eq_iff)

lemma view_error [simp]:
  "imsg (upd_link c mark_error p) = imsg p" "omsg (upd_link c mark_error p) = omsg p" "sent (upd_link c mark_error p) = sent p"
  "imsg (upd_link c reset_error p) = imsg p" "omsg (upd_link c reset_error p) = omsg p" "sent (upd_link c reset_error p) = sent p"
  by (simp_all add: imsg_def omsg_def sent_def upd_link_def mark_error_def reset_error_def fun_eq_iff split: option.split)

lemma view_fields [simp]:
  "imsg (put_conn c p) = imsg p" "omsg (put_conn c p) = omsg p" "sent (put_conn c p) = sent p"
  "imsg (p\<lparr>rsp_count := n\<rparr>) = imsg p" "omsg (p\<lparr>rsp_count := n\<rparr>) = omsg p" "sent (p\<lparr>rsp_count := n\<rparr>) = sent p"
  "imsg (p\<lparr>conn_count := n\<rparr>) = imsg p" "omsg (p\<lparr>conn_count := n\<rparr>) = omsg p" "sent (p\<lparr>conn_count := n\<rparr>) = sent p"
  "imsg (p\<lparr>klog := k\<rparr>) = imsg p" "omsg (p\<lparr>klog := k\<rparr>) = omsg p" "sent (p\<lparr>klog := k\<rparr>) = sent p"
  by (simp_all add: imsg_def omsg_def sent_def put_conn_def fun_eq_iff)

lemma keeps_push: "keeps p (push_imsg c m p)" "keeps p (push_omsg c m p)" "keeps p (upd_link c (\<lambda>l. l\<lparr>l_imsg_q := ms\<rparr>) p)"
  "keeps p (upd_link c (\<lambda>l. l\<lparr>l_omsg_q := ms\<rparr>) p)" "keeps p (upd_link c mark_error p)" "keeps p (upd_link c reset_error p)"
  unfolding push_imsg_def push_omsg_def by (rule keeps_upd_link; simp add: role_def mark_error_def reset_error_def)+

lemma queued_write:
  assumes "session_inv c mc ss p" "x \<in> set (mc # ss)" "m \<in> set (imsg p x) \<union> set (omsg p x)"
  shows "\<exists>y. msgs p m = Some y \<and> is_write c y"
  using assms unfolding session_inv_def by blast

lemma live: "proxy_wf p \<Longrightarrow> links p x = Some l \<Longrightarrow> x < next_lid p"
  unfolding proxy_wf_def by (metis not_less option.distinct(1))

lemma imsg_link: "links p x = Some l \<Longrightarrow> imsg p x = l_imsg_q l" "links p x = Some l \<Longrightarrow> omsg p x = l_omsg_q l"
  by (simp_all add: imsg_def omsg_def)

section \<open>Sending to a datalet\<close>

lemma send_request_step:
  assumes "session_inv c mc ss p" "x \<in> set (mc # ss)" "imsg p x = m # ms" "full_write e" "proxy_wf q"
    "send_request e x m (upd_link x (\<lambda>l. l\<lparr>l_imsg_q := ms\<rparr>) p) = Inr (st, q)"
  shows "refines c mc ss p q"
proof -
  let ?p1 = "upd_link x (\<lambda>l. l\<lparr>l_imsg_q := ms\<rparr>) p"
  obtain y where y: "msgs p m = Some y" "is_write c y" using queued_write [OF assms(1,2), of m] assms(3) by auto
  obtain l where l: "links p x = Some l" using assms(3) by (auto simp: imsg_def split: option.splits)
  obtain n where n: "e_wr e = [Wr_take n]" "2 ^ 31 \<le> n" using assms(4) unfolding full_write_def by blast
  have g: "get_link ?p1 x = Inr (l\<lparr>l_imsg_q := ms\<rparr>)" "get_msg ?p1 m = Inr y"
    using l y by (simp_all add: get_link_def get_msg_def upd_link_def)
  obtain len b out ws where s: "msg_send (l_noblock l) [Wr_take n] (m_buf y) = Inr (len, b, out, ws)" and
    r: "(let p1 = put_wire x out (upd_msg m (\<lambda>x. x\<lparr>m_buf := b\<rparr>) ?p1) in
     if len \<le> 0 then drop_conn e x CO_ERR p1
     else rbind (set_event e x FDEVENT_IN (push_omsg x m p1)) (\<lambda>p2. Inr (CO_OK, p2))) = Inr (st, q)"
    using assms(6) unfolding send_request_def g n(1) by (auto simp: rbind_eq_Inr)
  have full: "len > 0" "out = b_contents (m_buf y)" "b_inv b" "b_data b = 0" "b_contents b = b_contents (m_buf y)"
    using msg_send_full [OF _ _ _ n(2) s] y(2) by (auto simp: is_write_def)
  let ?r = "push_omsg x m (put_wire x out (upd_msg m (\<lambda>x. x\<lparr>m_buf := b\<rparr>) ?p1))"
  have rq: "quiet ?r q" using r full(1) by (auto simp: Let_def rbind_eq_Inr dest: event_effect(1))
  have sm: "same_msg y (y\<lparr>m_buf := b\<rparr>)" using full(3-5) y(2) by (auto simp: same_msg_def is_write_def)
  have "keeps ?p1 (upd_msg m (\<lambda>x. x\<lparr>m_buf := b\<rparr>) ?p1)" by (rule keeps_upd_msg) (use y sm in \<open>auto simp: upd_link_def\<close>)
  then have "keeps p (put_wire x out (upd_msg m (\<lambda>x. x\<lparr>m_buf := b\<rparr>) ?p1))" using keeps_trans [OF keeps_push(3)] by simp
  then have k: "keeps p q" using keeps_trans keeps_push(2) keeps_quiet [OF rq] by blast
  have lr: "links (put_wire x out (upd_msg m (\<lambda>x. x\<lparr>m_buf := b\<rparr>) ?p1)) x = Some (l\<lparr>l_imsg_q := ms\<rparr>)" using l by (simp add: links_upd_link)
  show ?thesis
    by (rule send_step [OF assms(1) k assms(5,2,3)])
       (use y full(2) l lr in \<open>auto simp: view_quiet [OF rq] view_push view_upd_link imsg_link [OF l] content_def klog_quiet [OF rq]\<close>)
qed

lemma req_send_step:
  assumes "session_inv c mc ss p" "full_write e" "proxy_wf q" "req_send e mc p = Inr (st, q)"
  shows "refines c mc ss p q"
proof -
  obtain l where l: "links p mc = Some l" using assms(4) by (auto simp: req_send_def rbind_eq_Inr get_link_Inr)
  show ?thesis
  proof (cases "l_imsg_q l")
    case Nil
    then have "quiet p q" using assms(4) l by (auto simp: req_send_def get_link_def dest: idle_out_effect)
    then show ?thesis using quiet_step assms(1,3) by blast
  next
    case (Cons m ms)
    then have "\<exists>st. send_request e mc m (upd_link mc (\<lambda>l. l\<lparr>l_imsg_q := ms\<rparr>) p) = Inr (st, q)"
      using assms(4) l by (auto simp: req_send_def get_link_def rbind_eq_Inr CHECK_eq_Inr split: if_splits)
    moreover have "imsg p mc = m # ms" using Cons imsg_link [OF l] by simp
    ultimately show ?thesis using send_request_step [OF assms(1) session_facts(3) [OF assms(1)] _ assms(2,3)] by blast
  qed
qed

lemma replica_req_send_step:
  assumes "session_inv c mc ss p" "full_write e" "proxy_wf q" "replica_req_send e x p = Inr (st, q)" "x \<in> set ss"
  shows "refines c mc ss p q"
proof -
  obtain l where l: "links p x = Some l" using assms(4) by (auto simp: replica_req_send_def rbind_eq_Inr get_link_Inr)
  show ?thesis
  proof (cases "l_imsg_q l")
    case Nil
    then have "quiet p q" using assms(4) l by (auto simp: replica_req_send_def get_link_def CHECK_eq_Inr dest: idle_out_effect)
    then show ?thesis using quiet_step assms(1,3) by blast
  next
    case (Cons m ms)
    then have "send_request e x m (upd_link x (\<lambda>l. l\<lparr>l_imsg_q := ms\<rparr>) p) = Inr (st, q)"
      using assms(4) l by (auto simp: replica_req_send_def get_link_def rbind_eq_Inr CHECK_eq_Inr)
    then show ?thesis using send_request_step [OF assms(1) _ _ assms(2,3), of x m ms] assms(5) Cons imsg_link [OF l] by simp
  qed
qed

section \<open>Answering the client\<close>

lemma rsp_send_step:
  assumes "session_inv c mc ss p" "proxy_wf q" "rsp_send e c p = Inr (st, q)"
  shows "refines c mc ss p q"
proof -
  obtain l where l: "links p c = Some l" using assms(3) by (auto simp: rsp_send_def rbind_eq_Inr get_link_Inr)
  show ?thesis
  proof (cases "l_imsg_q l")
    case Nil
    then have "quiet p q" using assms(3) l by (auto simp: rsp_send_def get_link_def dest: idle_out_effect)
    then show ?thesis using quiet_step assms(1,2) by blast
  next
    case (Cons m ms)
    let ?p1 = "upd_link c (\<lambda>l. l\<lparr>l_imsg_q := ms\<rparr>) p"
    obtain y b out and len :: int where y: "msgs p m = Some y" and
      r: "(let p2 = put_wire c out (upd_msg m (\<lambda>x. x\<lparr>m_buf := b\<rparr>) ?p1) in
        if len \<le> 0 then drop_conn e c CO_ERR p2 else Inr (CO_OK, p2)) = (Inr (st, q) :: (rstatus \<times> proxy) res)"
      using assms(3) l Cons by (auto simp: rsp_send_def get_link_def rbind_eq_Inr get_msg_Inr view_upd_link Let_def)
    let ?r = "put_wire c out (upd_msg m (\<lambda>x. x\<lparr>m_buf := b\<rparr>) ?p1)"
    have "m_id y \<noteq> 1" using assms(1) y Cons imsg_link [OF l] by (auto simp: session_inv_def)
    then have "same_msg y (y\<lparr>m_buf := b\<rparr>)" by (simp add: same_msg_def is_write_def)
    then have "keeps ?p1 (upd_msg m (\<lambda>x. x\<lparr>m_buf := b\<rparr>) ?p1)" using y by (intro keeps_upd_msg) (simp add: view_upd_link)
    then have k: "keeps p ?r" using keeps_trans [OF keeps_push(3)] by simp
    have d: "q = ?r \<or> quiet (upd_link c mark_error ?r) q" using r by (auto simp: Let_def dest: drop_conn_effect split: if_splits)
    have v: "imsg ?r x = (if x = c then ms else imsg p x)" "omsg ?r x = omsg p x" "sent ?r x = (if x = c then sent p x @ [out] else sent p x)" for x
      using l imsg_link [OF l] by (simp_all add: view_upd_link)
    have kq: "keeps p q" using d k keeps_trans [OF keeps_trans [OF k keeps_push(5)] keeps_quiet] by blast
    have "imsg q x = imsg ?r x" "omsg q x = omsg ?r x" "sent q x = sent ?r x" for x
      using d view_quiet(1,2,4) [of "upd_link c mark_error ?r" q] view_error(1-3) [of c ?r] by metis+
    then have q: "imsg q x = (if x = c then ms else imsg p x)" "omsg q x = omsg p x" "sent q x = (if x = c then sent p x @ [out] else sent p x)" for x
      unfolding v by simp_all
    have "klog q = klog p" using d klog_quiet by fastforce
    then show ?thesis by (intro idle_step [OF assms(1) kq assms(2)]) (use q session_facts(2) [OF assms(1)] Cons imsg_link [OF l] in auto)
  qed
qed

section \<open>Reading an answer\<close>

lemma read_step:
  assumes "session_inv c mc ss p" "read_msg e x p = Inr (Some m, q)"
  shows "refines c mc ss p q" "keeps p q" "imsg q = imsg p" "omsg q = omsg p" "sent q = sent p" "links q = links p"
    "\<exists>b. msgs q m = Some (message_new b) \<and> b_inv b" "m \<notin> set (imsg p y) \<union> set (omsg p y)"
proof -
  note wf = session_facts(4) [OF assms(1)]
  obtain b where b: "m = next_mid p" "b_inv b" "q = with_msg b p" using read_msg_effect [OF assms(2)] by auto
  have "x < next_lid p" using assms(2) live [OF wf] by (auto simp: read_msg_def rbind_eq_Inr get_link_Inr)
  then have "wf_step p q" using outcomeD [OF read_msg_sound [OF wf, where Q = "\<lambda>(r, p'). wf_step p p'"] assms(2)] by auto
  then have wq: "proxy_wf q" by (rule wf_step_wf)
  show k: "keeps p q" unfolding b(3) by (rule keeps_with_msg [OF wf])
  show v: "imsg q = imsg p" "omsg q = omsg p" "sent q = sent p" "links q = links p"
    unfolding b(3) using view_with_msg [OF wf] by (auto simp: fun_eq_iff)
  show "refines c mc ss p q" by (rule idle_step [OF assms(1) k wq]) (simp_all add: v, simp add: b(3))
  show "\<exists>b. msgs q m = Some (message_new b) \<and> b_inv b" using b by (auto simp: with_msg_def)
  show "m \<notin> set (imsg p y) \<union> set (omsg p y)" using queue_less [OF wf] b(1) by blast
qed

lemma drop_step:
  assumes "session_inv c mc ss p" "proxy_wf q" "drop_conn e x st p = Inr (st', q)"
  shows "refines c mc ss p q"
proof -
  have d: "quiet (upd_link x mark_error p) q" using drop_conn_effect [OF assms(3)] by simp
  show ?thesis
    by (rule idle_step [OF assms(1) keeps_trans [OF keeps_push(5) keeps_quiet [OF d]] assms(2)]) (simp_all add: view_quiet [OF d] klog_quiet [OF d])
qed

section \<open>Moving a write along the chain\<close>

lemma chain_forward_effect:
  assumes "chain_forward e a s fc p = Inr (st, q)"
  shows "\<exists>m l. links p a = Some l \<and> l_omsg_q l \<noteq> [] \<and> m = hd (l_omsg_q l) \<and> (\<exists>sl. links p s = Some sl) \<and>
     quiet (push_imsg s m (upd_link a (\<lambda>k. k\<lparr>l_omsg_q := tl (l_omsg_q l)\<rparr>) p)) q"
proof -
  obtain p1 sl m p2 x where 1: "notify_out e s p = Inr p1" "links p1 s = Some sl" "pop_omsg a p1 = Inr (m, p2)" "msgs p2 m = Some x" and
    2: "(case m_owner x of
       None \<Rightarrow> Inl (if fc then Check_failed else Null_deref)
     | Some cl \<Rightarrow>
         rbind (get_link p2 cl) (\<lambda>cl'.
         CHECK (l_is_client cl') (
         if fc then
           (case m_fwd x of
              None \<Rightarrow> Inl Uninitialised
            | Some f \<Rightarrow> CHECK f (Inr (CO_OK, push_imsg s m p2)))
         else Inr (CO_OK, push_imsg s m p2)))) = (Inr (st, q) :: (rstatus \<times> proxy) res)"
    using assms by (auto simp: chain_forward_def rbind_eq_Inr CHECK_eq_Inr get_link_Inr get_msg_Inr)
  have q: "q = push_imsg s m p2" using 2 by (auto simp: rbind_eq_Inr CHECK_eq_Inr split: option.splits if_splits)
  note qt = notify_out_effect [OF 1(1)]
  obtain l ms where l: "links p1 a = Some l" "l_omsg_q l = m # ms" "p2 = upd_link a (\<lambda>l. l\<lparr>l_omsg_q := ms\<rparr>) p1"
    using pop_omsg_effect [OF 1(3)] by blast
  have "links p1 = links p" using qt by (simp add: quiet_def)
  then show ?thesis using l 1(2) q quiet_cong(2) [OF quiet_cong(1) [OF qt]] by auto
qed

lemma chain_forward_step:
  assumes "session_inv c mc ss p" "proxy_wf q" "Suc i < length (mc # ss)"
    "chain_forward e ((mc # ss) ! i) ((mc # ss) ! Suc i) fc p = Inr (st, q)"
  shows "refines c mc ss p q"
proof -
  let ?a = "(mc # ss) ! i" and ?b = "(mc # ss) ! Suc i"
  obtain m l sl where l: "links p ?a = Some l" "l_omsg_q l \<noteq> []" "m = hd (l_omsg_q l)" "links p ?b = Some sl"
    and r: "quiet (push_imsg ?b m (upd_link ?a (\<lambda>k. k\<lparr>l_omsg_q := tl (l_omsg_q l)\<rparr>) p)) q" (is "quiet ?r q")
    using chain_forward_effect [OF assms(4)] by blast
  have ne: "?a \<noteq> ?b" using session_facts(1) [OF assms(1)] assms(3) nth_eq_iff_index_eq [of "mc # ss" i "Suc i"] by simp
  have k: "keeps p q" using keeps_trans keeps_push(1,4) keeps_quiet [OF r] by blast
  have lb: "links (upd_link ?a (\<lambda>k. k\<lparr>l_omsg_q := tl (l_omsg_q l)\<rparr>) p) ?b = Some sl" using l(4) ne by (simp add: links_upd_link)
  have v: "imsg q y = (if y = ?b then imsg p y @ [m] else imsg p y)" "omsg q y = (if y = ?a then tl (l_omsg_q l) else omsg p y)" "sent q y = sent p y" for y
    using l(1) lb imsg_link [OF l(1)] imsg_link [OF l(4)] ne by (auto simp: view_quiet [OF r] view_push view_upd_link)
  have "omsg p ?a = m # tl (l_omsg_q l)" using l(2,3) imsg_link [OF l(1)] by simp
  then show ?thesis by (rule move_step [OF assms(1) k assms(2,3) _ v]) (simp add: klog_quiet [OF r])
qed

lemma keeps_new_msg: "proxy_wf p \<Longrightarrow> keeps p (upd_msg (next_mid p) f (with_msg b p))"
  using fresh_msg [of p] by (auto simp: keeps_def upd_msg_def with_msg_def has_link_def)

lemma session_mode:
  assumes "session_inv c mc ss p"
  shows "chain_mode p" "find_slaves mc (ms_map p) = Some ss" "replicas p = int (length ss)"
    "consistency_model p = Strong" "topology p = Ms" "consistency_technique p = Cr"
  using assms by (auto simp: session_inv_def session_def chain_mode_def)

lemma not_forwarding:
  assumes "session_inv c mc ss p" "links p mc = Some l" "\<not> l_fwd_to_replicas l" "x \<in> set (mc # ss)"
  shows "imsg p x = []" "omsg p x = []"
  using assms unfolding session_inv_def has_link_def by auto

lemma pop_omsg_empty: "omsg p c = [] \<Longrightarrow> pop_omsg c p \<noteq> Inr r"
  by (auto simp: pop_omsg_def rbind_eq_Inr get_link_Inr omsg_def)

lemma rsp_recv_step:
  assumes "session_inv c mc ss p" "proxy_wf q" "rsp_recv e mc p = Inr (st, q)"
  shows "refines c mc ss p q"
proof -
  obtain r p1 where rd: "read_msg e mc p = Inr (r, p1)" and
    h: "(case r of
       None \<Rightarrow> drop_conn e mc CO_OK p1
     | Some msg \<Rightarrow>
         let p2 = (upd_msg msg (\<lambda>x. x\<lparr>m_id := 2, m_count := rsp_count p1\<rparr>) p1)\<lparr>rsp_count := to_int32 (rsp_count p1 + 1)\<rparr> in
         rbind (get_link p2 mc) (\<lambda>l.
         if chain_mode p2 \<and> l_fwd_to_replicas l then start_chain e mc p2 else answer_client e mc msg p2)) = Inr (st, q)"
    using assms(3) by (auto simp: rsp_recv_def rbind_eq_Inr)
  note wf = session_facts(4) [OF assms(1)]
  show ?thesis
  proof (cases r)
    case None
    then show ?thesis using h read_msg_effect [OF rd] drop_step [OF assms(1,2)] by auto
  next
    case (Some m)
    let ?f = "\<lambda>x. x\<lparr>m_id := 2, m_count := rsp_count p1\<rparr>" and ?n = "to_int32 (rsp_count p1 + 1)"
    define p2 where "p2 = (upd_msg m ?f p1)\<lparr>rsp_count := ?n\<rparr>"
    note rs = read_step [OF assms(1) rd [unfolded Some]]
    obtain b where b: "m = next_mid p" "p1 = with_msg b p" using read_msg_effect [OF rd] Some by auto
    have k: "keeps p p2" unfolding p2_def b using keeps_new_msg [OF wf] by simp
    have v: "imsg p2 = imsg p" "omsg p2 = omsg p" "sent p2 = sent p" "links p2 = links p" using rs by (simp_all add: p2_def)
    have "proxy_wf (upd_msg m ?f p1)" using wf_upd_msg [of p1 ?f m] rs(1) wf_step_wf by (auto simp: refines_def session_inv_def)
    then have w2: "proxy_wf p2" by (simp add: p2_def proxy_wf_def)
    have r2: "refines c mc ss p p2" by (rule idle_step [OF assms(1) k w2]) (simp_all add: v, simp add: p2_def b)
    then have i2: "session_inv c mc ss p2" by (simp add: refines_def)
    obtain l where l: "links p2 mc = Some l" and
      h2: "(if chain_mode p2 \<and> l_fwd_to_replicas l then start_chain e mc p2 else answer_client e mc m p2) = Inr (st, q)"
      using h unfolding Some by (auto simp: Let_def rbind_eq_Inr get_link_Inr simp flip: p2_def)
    show ?thesis
    proof (cases "l_fwd_to_replicas l")
      case True
      have "get_slave_number p2 mc 0 = Inr (Some (ss ! 0))" using session_mode(2) [OF i2] session_facts(5) [OF i2] by (simp add: get_slave_number_def)
      then have "chain_forward e ((mc # ss) ! 0) ((mc # ss) ! Suc 0) False p2 = Inr (st, q)"
        using h2 True session_mode(1) [OF i2] by (simp add: start_chain_def)
      then have "refines c mc ss p2 q" by (rule chain_forward_step [OF i2 assms(2), rotated]) (use session_facts(5) [OF i2] in simp)
      then show ?thesis using refines_trans [OF r2] by blast
    next
      case False
      have "unlock_response mc p2 = Inr p2" using l session_mode(4-6) [OF i2] by (simp add: unlock_response_def get_link_def)
      then have False using h2 False pop_omsg_empty [OF not_forwarding(2) [OF i2 l False]]
        by (auto simp: answer_client_def rsp_mapped_forward_def rbind_eq_Inr)
      then show ?thesis ..
    qed
  qed
qed

lemma tail_ack_step:
  assumes "session_inv c mc ss p" "proxy_wf q" "tail_ack e (last (mc # ss)) r p = Inr (st, q)" "\<And>y. msgs p r = Some y \<Longrightarrow> m_id y \<noteq> 1"
  shows "refines c mc ss p q"
proof -
  let ?a = "last (mc # ss)"
  have a: "?a \<in> set (mc # ss)" by (rule last_in_set) simp
  obtain pm p1 x where 1: "pop_omsg ?a p = Inr (pm, p1)" "msgs p1 pm = Some x" and
    h: "(case m_owner x of None \<Rightarrow> Inl Check_failed | Some cl \<Rightarrow> rbind (forward e cl r p1) (\<lambda>p2. Inr (CO_OK, p2))) = Inr (st, q)"
    using assms(3) by (auto simp: tail_ack_def rbind_eq_Inr get_msg_Inr)
  obtain l ms where l: "links p ?a = Some l" "l_omsg_q l = pm # ms" "p1 = upd_link ?a (\<lambda>l. l\<lparr>l_omsg_q := ms\<rparr>) p"
    using pop_omsg_effect [OF 1(1)] by blast
  have om: "omsg p ?a = pm # ms" using imsg_link [OF l(1)] l(2) by simp
  obtain y where "msgs p pm = Some y" "is_write c y" using queued_write [OF assms(1) a, of pm] om by auto
  then have "m_owner x = Some c" using 1(2) l(3) by (simp add: view_upd_link is_write_def)
  then have f: "forward e c r p1 = Inr q" using h by (auto simp: rbind_eq_Inr)
  then have qt: "quiet (push_imsg c r p1) q" by (rule forward_effect)
  obtain cl where cl: "links p c = Some cl" using assms(1) by (auto simp: session_inv_def session_def has_link_def)
  have ne: "c \<noteq> ?a" using session_facts(2) [OF assms(1)] a by metis
  have cl1: "links p1 c = Some cl" unfolding l(3) using cl ne by (simp add: links_upd_link)
  have k: "keeps p q" using keeps_trans keeps_push(4,1) keeps_quiet [OF qt] unfolding l(3) by blast
  have v: "imsg q y = (if y = c then imsg p y @ [r] else imsg p y)" "omsg q y = (if y = ?a then ms else omsg p y)" "sent q y = sent p y" for y
    using cl1 l(1) imsg_link [OF l(1)] unfolding l(3) by (auto simp: view_quiet [OF qt [unfolded l(3)]] view_push view_upd_link)
  have "msgs q r = msgs p r" using qt by (simp add: quiet_def view_push l(3) view_upd_link)
  then have id: "\<And>y. msgs q r = Some y \<Longrightarrow> m_id y \<noteq> 1" using assms(4) by simp
  show ?thesis by (rule ack_step [OF assms(1) k assms(2) om v(1) id v(2,3)]) (simp_all add: klog_quiet [OF qt] l(3))
qed

lemma slave_links:
  assumes "session_inv c mc ss p" "i < length ss"
  shows "\<exists>l. links p (ss ! i) = Some l \<and> l_slave_number l = int i \<and> get_master_of_slave p (ss ! i) = Some mc"
  using assms by (auto simp: session_inv_def session_def has_link_def get_master_of_slave_def)

lemma replica_response_step:
  assumes "session_inv c mc ss p" "proxy_wf q" "i < length ss" "replica_response e (ss ! i) r mc p = Inr (st, q)"
    "\<And>y. msgs p r = Some y \<Longrightarrow> m_id y \<noteq> 1"
  shows "refines c mc ss p q"
proof -
  let ?s = "ss ! i"
  obtain l where l: "links p ?s = Some l" "l_slave_number l = int i" using slave_links [OF assms(1,3)] by blast
  have xs: "?s \<in> set (mc # ss)" using assms(3) by simp
  note mode = session_mode [OF assms(1)]
  obtain ml where ml: "links p mc = Some ml" and
    h: "(if l_fwd_to_replicas ml then
       (if int i < replicas p - 1 then next_in_chain e ?s mc (int i) p else tail_ack e ?s r p)
     else if l_tail l then tail_answer e ?s r p
     else Inr (CO_OK, upd_link ?s (\<lambda>l. l\<lparr>l_omsg_q := tl (l_omsg_q l)\<rparr>) p)) = Inr (st, q)"
    using assms(4) l mode(1) by (auto simp: replica_response_def rbind_eq_Inr CHECK_eq_Inr get_link_Inr split: if_splits)
  show ?thesis
  proof (cases "l_fwd_to_replicas ml")
    case True
    show ?thesis
    proof (cases "int i < replicas p - 1")
      case lt: True
      then have i: "Suc i < length ss" using mode(3) by simp
      then have "get_slave_number p mc (int i + 1) = Inr (Some (ss ! Suc i))"
        using mode(2) by (simp add: get_slave_number_def nat_add_distrib)
      then have "chain_forward e ((mc # ss) ! Suc i) ((mc # ss) ! Suc (Suc i)) True p = Inr (st, q)"
        using h True lt by (simp add: next_in_chain_def CHECK_eq_Inr)
      then show ?thesis by (rule chain_forward_step [OF assms(1,2), rotated]) (use i in simp)
    next
      case False
      then have "i = length ss - 1" using mode(3) assms(3) by simp
      then have "?s = last (mc # ss)" using session_facts(5) [OF assms(1)] by (simp add: last_conv_nth)
      then show ?thesis using h True False tail_ack_step [OF assms(1,2) _ assms(5)] by simp
    qed
  next
    case False
    note om = not_forwarding(2) [OF assms(1) ml False xs]
    then have "q = upd_link ?s (\<lambda>l. l\<lparr>l_omsg_q := tl (l_omsg_q l)\<rparr>) p"
      using h False pop_omsg_empty [OF om] by (auto simp: tail_answer_def rsp_mapped_forward_def rbind_eq_Inr split: if_splits)
    then have q: "q = upd_link ?s (\<lambda>l. l\<lparr>l_omsg_q := tl (l_omsg_q l)\<rparr>) p" .
    have k: "keeps p q" unfolding q by (rule keeps_upd_link) (simp_all add: role_def)
    show ?thesis by (rule idle_step [OF assms(1) k assms(2)]) (use l om in \<open>auto simp: q view_upd_link imsg_link\<close>)
  qed
qed

lemma replica_rsp_recv_step:
  assumes "session_inv c mc ss p" "proxy_wf q" "i < length ss" "replica_rsp_recv e (ss ! i) p = Inr (st, q)"
  shows "refines c mc ss p q"
proof -
  obtain r p1 where rd: "read_msg e (ss ! i) p = Inr (r, p1)" and
    h: "(case r of
       None \<Rightarrow> drop_conn e (ss ! i) CO_OK p1
     | Some msg \<Rightarrow>
         (case get_master_of_slave p1 (ss ! i) of
            None \<Rightarrow> Inl Check_failed
          | Some mast \<Rightarrow> replica_response e (ss ! i) msg mast p1)) = Inr (st, q)"
    using assms(4) by (auto simp: replica_rsp_recv_def rbind_eq_Inr CHECK_eq_Inr)
  show ?thesis
  proof (cases r)
    case None
    then show ?thesis using h read_msg_effect [OF rd] drop_step [OF assms(1,2)] by auto
  next
    case (Some m)
    note rs = read_step [OF assms(1) rd [unfolded Some]]
    have i1: "session_inv c mc ss p1" using rs(1) by (simp add: refines_def)
    have "replica_response e (ss ! i) m mc p1 = Inr (st, q)" using h Some slave_links [OF i1 assms(3)] by auto
    then have "refines c mc ss p1 q"
      by (rule replica_response_step [OF i1 assms(2,3)]) (use rs(7) in \<open>auto simp: message_new_def\<close>)
    then show ?thesis using refines_trans [OF rs(1)] by blast
  qed
qed

section \<open>Requests of the client\<close>

text \<open>A client that sends set requests only: what is read from it is a sequence of complete frames.\<close>

definition put_frame :: "string \<Rightarrow> string" where
  "put_frame w = frame ''protoSpec.PutMessage'' w"

definition put_stream :: "string list \<Rightarrow> string" where
  "put_stream ws = concat (map put_frame ws)"

definition only_puts :: "env \<Rightarrow> lid \<Rightarrow> proxy \<Rightarrow> bool" where
  "only_puts e c p \<longleftrightarrow>
     (\<forall>l b rs. links p c = Some l \<longrightarrow> msg_read (e_ok e) (l_noblock l) (e_rd e) = Inr (Some b, rs) \<longrightarrow>
        (\<exists>ws. [] \<notin> set ws \<and> b_contents b = put_stream ws))"

lemma put_frame_ne [simp]: "put_frame w \<noteq> []"
  using length_frame [of "''protoSpec.PutMessage''" w] by (auto simp: put_frame_def)

lemma append_exact:
  assumes "length s < 2 ^ 31"
  shows "\<exists>b. b_append ok s (Buffer_new (length s)) = Inr (int (length s), b) \<and> b_inv b \<and> b_contents b = s \<and> b_data b = 0"
proof -
  let ?b = "Buffer_new (length s)"
  have "b_reserve ok (int (length s)) ?b = (True, ?b)" by (subst b_reserve.simps) (simp add: b_space_def Buffer_new_def)
  moreover obtain m where m: "mem_write (b_buf ?b) 0 s = Inr m" "length m = length s" "holds m 0 s"
    using mem_write_holds [of 0 s "b_buf ?b"] by (auto simp: Buffer_new_def)
  ultimately have a: "b_append ok s ?b = Inr (int (length s), ?b\<lparr>b_buf := m, b_size := int (length s)\<rparr>)" (is "_ = Inr (_, ?c)")
    by (simp add: b_append_def b_slot_def Buffer_new_def)
  have "brep ?c s" using m assms by (simp add: brep_def Buffer_new_def)
  then show ?thesis using a brep_inv brep_contents by (auto simp: Buffer_new_def)
qed

lemma parse_put:
  assumes "brep b (put_frame w @ rest)" "w \<noteq> []" "length (put_frame w) < 1073741826" "link_parse put_ok junk l b = Inr (l', b')"
  shows "l' = l\<lparr>l_recv_data := [Owned ''set'', Freed, Freed]\<rparr> \<and> b' = b_decr (int (length (put_frame w))) (b_remember_sz (b_size b) b)"
proof -
  have "b_size b > 0" using assms(1) by (simp add: brep_def put_frame_def length_frame)
  then have ne: "\<not> b_empty b" by (simp add: b_empty_def)
  have "msg_parse put_ok junk (l\<lparr>l_recv_data := []\<rparr>) b = Inr (l', b')" using assms(4) ne by (simp add: link_parse_def)
  then show ?thesis
    using msg_parse_frame_eq [OF assms(1) [unfolded put_frame_def] _ assms(3) [unfolded put_frame_def] assms(2), of "l\<lparr>l_recv_data := []\<rparr>"]
    by (auto simp: rbind_eq_Inr payload_fields_def CHECK_eq_Inr cmd_field_def put_frame_def)
qed

section \<open>One set request\<close>

lemma view_upd_same:
  assumes "\<And>l. l_imsg_q (f l) = l_imsg_q l \<and> l_omsg_q (f l) = l_omsg_q l"
  shows "imsg (upd_link d f p) = imsg p" "omsg (upd_link d f p) = omsg p" "sent (upd_link d f p) = sent p"
  using assms by (simp_all add: imsg_def omsg_def sent_def upd_link_def fun_eq_iff split: option.split)

text \<open>What routing a set request does to the master connection.\<close>

definition mark_set :: "link \<Rightarrow> link" where
  "mark_set l = l\<lparr>l_fwd_to_replicas := True, l_head := True, l_tail := False, l_key := Freed, l_cmnd := Freed\<rparr>"

lemma upd_link_twice: "upd_link c f (upd_link c g p) = upd_link c (\<lambda>l. f (g l)) p"
  by (simp add: upd_link_def option.map_comp comp_def)

lemma route_set:
  assumes "session_inv c mc ss p" "consistency_model q = consistency_model p" "topology q = topology p"
  shows "route ''set'' k mc q = Inr (mc, upd_link mc mark_set q)"
  using session_mode(4-6) [OF assms(1)] assms(2,3)
  by (simp add: route_def Let_def delete_strings_def upd_link_def mark_set_def [abs_def] option.map_comp comp_def)

lemma mapped_set:
  assumes "session_inv c mc ss p" "msgs p m = Some x" "brep (m_buf x) (put_frame w @ rest)" "w \<noteq> []"
    "length (put_frame w) < 1073741826" "get_mapped_server_conn e c m p = Inr (out, q)"
  shows "out = mc \<and> (\<exists>f. (\<forall>l. role (f l) = role l \<and> l_fwd_to_replicas (f l) = l_fwd_to_replicas l \<and> l_imsg_q (f l) = l_imsg_q l \<and> l_omsg_q (f l) = l_omsg_q l \<and>
        l_recv_data (f l) \<noteq> []) \<and>
     q = upd_link mc mark_set (upd_msg m (\<lambda>x. x\<lparr>m_buf := b_decr (int (length (put_frame w))) (b_remember_sz (b_size (m_buf x)) (m_buf x))\<rparr>) (upd_link c f p)))"
proof -
  let ?b = "b_decr (int (length (put_frame w))) (b_remember_sz (b_size (m_buf x)) (m_buf x))"
  obtain l where l: "links p c = Some l" "l_datalet_conn l = Some mc"
    using assms(1) by (auto simp: session_inv_def session_def has_link_def)
  obtain l' b' where pr: "link_parse (e_put_ok e) (e_junk e) l (m_buf x) = Inr (l', b')" and
    h: "(case l_recv_data l' of
       f0 # f1 # _ \<Rightarrow> rbind (get_server_conn l') (\<lambda>mc. route (read_field e f0) (read_field e f1) mc (upd_msg m (\<lambda>x. x\<lparr>m_buf := b'\<rparr>) (upd_link c (\<lambda>_. l') p)))
     | _ \<Rightarrow> Inl Out_of_bounds) = Inr (out, q)"
    using assms(2,6) l(1) by (auto simp: get_mapped_server_conn_def rbind_eq_Inr get_link_Inr get_msg_Inr Let_def)
  have l': "l' = l\<lparr>l_recv_data := [Owned ''set'', Freed, Freed]\<rparr>" "b' = ?b" using parse_put [OF assms(3-5) pr] by auto
  have "route ''set'' (e_freed e) mc (upd_msg m (\<lambda>x. x\<lparr>m_buf := b'\<rparr>) (upd_link c (\<lambda>_. l') p)) = Inr (out, q)"
    using h l(2) unfolding l' by (simp add: get_server_conn_def read_field_def)
  then have q: "out = mc" "q = upd_link mc mark_set (upd_msg m (\<lambda>x. x\<lparr>m_buf := b'\<rparr>) (upd_link c (\<lambda>_. l') p))"
    using route_set [OF assms(1)] by (auto simp: upd_msg_def upd_link_def)
  let ?f = "\<lambda>l. l\<lparr>l_recv_data := [Owned ''set'', Freed, Freed]\<rparr>"
  have "upd_link c (\<lambda>_. l') p = upd_link c ?f p" using l(1) by (simp add: upd_link_def l'(1))
  moreover have "upd_msg m (\<lambda>x. x\<lparr>m_buf := b'\<rparr>) r = upd_msg m (\<lambda>x. x\<lparr>m_buf := b_decr (int (length (put_frame w))) (b_remember_sz (b_size (m_buf x)) (m_buf x))\<rparr>) r"
    if "msgs r m = Some x" for r using that by (simp add: upd_msg_def l'(2))
  ultimately have "q = upd_link mc mark_set (upd_msg m (\<lambda>x. x\<lparr>m_buf := b_decr (int (length (put_frame w))) (b_remember_sz (b_size (m_buf x)) (m_buf x))\<rparr>) (upd_link c ?f p))"
    using q(2) assms(2) by (simp add: view_upd_link)
  then show ?thesis using q(1) by (intro conjI exI [of _ ?f]) (simp_all add: role_def)
qed

text \<open>Copying the parsed frame into a request of its own.\<close>

lemma copy_set:
  assumes "msgs p m = Some x" "m_buf x = b_decr (int (length s)) (b_remember_sz (b_size b) b)" "brep b (s @ rest)" "s \<noteq> []"
    "links p mc = Some ml" "l_fwd_to_replicas ml" "copy_request e c mc m (b_data b) p = Inr (r, q)"
  shows "\<exists>y. is_write c y \<and> b_contents (m_buf y) = s \<and> add_msg y (upd_link c clear_recv_data p) = (r, q)"
proof -
  have sz: "b_size b = int (length (s @ rest))" and h: "holds (b_buf b) (b_data b) (s @ rest)" and len: "length s < 2 ^ 31"
    using assms(3) brep_bounds [OF assms(3)] by (auto simp: brep_def holds_def)
  have d: "b_size_diff (m_buf x) = Inr (int (length s))" using sz by (simp add: assms(2) b_size_diff_def b_decr_def b_remember_sz_def)
  have "holds (b_buf b) (b_data b) s" using h by (simp add: holds_append)
  then have rd: "mem_read (b_buf (m_buf x)) (b_data b) (int (length s)) = Inr s"
    using mem_read_holds by (simp add: assms(2) b_decr_def b_remember_sz_def)
  obtain b' where b': "b_append (e_ok e) s (Buffer_new (length s)) = Inr (int (length s), b')" "b_inv b'" "b_contents b' = s" "b_data b' = 0"
    using append_exact [OF len] by blast
  let ?y = "\<lparr>m_buf = b', m_id = 1, m_count = 0, m_owner = Some c, m_fwd = Some True\<rparr>"
  have "add_msg ?y (upd_link c clear_recv_data p) = (r, q)"
    using assms(1,5-7) d rd b'(1) by (auto simp: copy_request_def rbind_eq_Inr CHECK_eq_Inr get_link_Inr get_msg_Inr)
  moreover have "is_write c ?y" using b' assms(4) by (simp add: is_write_def)
  ultimately show ?thesis using b'(3) by (intro exI [of _ ?y]) simp
qed

lemma add_msg_view:
  assumes "add_msg y p = (r, q)" "msgs p (next_mid p) = None"
  shows "r = next_mid p" "keeps p q" "imsg q = imsg p" "omsg q = omsg p" "sent q = sent p" "links q = links p" "msgs q = (msgs p)(r \<mapsto> y)" "klog q = klog p"
  using assms by (auto simp: add_msg_def keeps_def has_link_def imsg_def omsg_def sent_def fun_eq_iff)

text \<open>The rest of a round of req_recv: the Kafka log, no lock, no propagation.\<close>

lemma set_tail_effects:
  assumes "session_inv c mc ss p" "consistency_model q = consistency_model p" "topology q = topology p" "consistency_technique q = consistency_technique p"
  shows "produce_request mc r q = Inr q1 \<Longrightarrow> has_link q mc l_fwd_to_replicas \<Longrightarrow> msgs q r = Some y \<Longrightarrow> is_write c y \<Longrightarrow>
      q1 = q\<lparr>klog := klog q @ [b_contents (m_buf y)]\<rparr>" "lock_request e lk c mc m r q = Inr (go, lk', q1) \<Longrightarrow> go \<and> q1 = q"
    "propagate_request e mc r q = Inr q1 \<Longrightarrow> q1 = q"
proof -
  note mode = session_mode(4-6) [OF assms(1)]
  show "q1 = q\<lparr>klog := klog q @ [b_contents (m_buf y)]\<rparr>"
    if h: "produce_request mc r q = Inr q1" "has_link q mc l_fwd_to_replicas" "msgs q r = Some y" "is_write c y"
  proof -
    have "brep (m_buf y) (b_contents (m_buf y))" using h(4) by (simp add: is_write_def b_inv_def)
    then have "mem_read (b_buf (m_buf y)) (b_data (m_buf y)) (b_size (m_buf y)) = Inr (b_contents (m_buf y))"
      using mem_read_holds by (auto simp: brep_def)
    then show ?thesis using h(1-3) mode(2) assms(3) by (auto simp: produce_request_def rbind_eq_Inr CHECK_eq_Inr get_link_Inr get_msg_Inr has_link_def)
  qed
  show "go \<and> q1 = q" if "lock_request e lk c mc m r q = Inr (go, lk', q1)"
    using that mode assms(2-4) by (auto simp: lock_request_def rbind_eq_Inr)
  show "q1 = q" if "propagate_request e mc r q = Inr q1"
    using that mode assms(2-4) by (auto simp: propagate_request_def rbind_eq_Inr)
qed

text \<open>The first half of a round: the request is routed to the master and copied.\<close>

lemma route_and_copy:
  assumes "session_inv c mc ss p" "msgs p m = Some x" "m_id x \<noteq> 1" "brep (m_buf x) (put_frame w @ rest)" "w \<noteq> []"
    "length (put_frame w) < 1073741826" "get_mapped_server_conn e c m p = Inr (out, p1)" "notify_out e out p1 = Inr p2"
    "copy_request e c out m (b_data (m_buf x)) p2 = Inr (r, p3)"
  shows "out = mc" "keeps p p3" "imsg p3 = imsg p" "omsg p3 = omsg p" "sent p3 = sent p" "has_link p3 mc l_fwd_to_replicas" "klog p3 = klog p"
    "m \<noteq> r \<and> (\<exists>y. is_write c y \<and> msgs p3 = (msgs p)(m \<mapsto> x\<lparr>m_buf := b_decr (int (length (put_frame w))) (b_remember_sz (b_size (m_buf x)) (m_buf x))\<rparr>, r \<mapsto> y))"
proof -
  let ?b = "b_decr (int (length (put_frame w))) (b_remember_sz (b_size (m_buf x)) (m_buf x))"
  obtain f where o: "out = mc" and f: "\<And>l. role (f l) = role l \<and> l_fwd_to_replicas (f l) = l_fwd_to_replicas l \<and> l_imsg_q (f l) = l_imsg_q l \<and> l_omsg_q (f l) = l_omsg_q l"
    and p1: "p1 = upd_link mc mark_set (upd_msg m (\<lambda>x. x\<lparr>m_buf := b_decr (int (length (put_frame w))) (b_remember_sz (b_size (m_buf x)) (m_buf x))\<rparr>) (upd_link c f p))"
    using mapped_set [OF assms(1,2,4-7)] by blast
  show "out = mc" by (rule o)
  have k1: "keeps p p1" unfolding p1
    by (rule keeps_trans [OF keeps_upd_link keeps_trans [OF keeps_upd_msg keeps_upd_link]])
       (use f assms(2,3) in \<open>auto simp: role_def mark_set_def view_upd_link same_msg_def is_write_def\<close>)
  have v1: "imsg p1 = imsg p" "omsg p1 = omsg p" "sent p1 = sent p"
    unfolding p1 using f by (simp_all add: view_upd_same mark_set_def)
  have m1: "msgs p1 = (msgs p)(m \<mapsto> x\<lparr>m_buf := ?b\<rparr>)" "next_mid p1 = next_mid p" using assms(2) by (simp_all add: p1 view_upd_link upd_msg_def)
  note q2 = notify_out_effect [OF assms(8)]
  have e2: "links p2 = links p1" "msgs p2 = msgs p1" "next_mid p2 = next_mid p1" using q2 by (simp_all add: quiet_def)
  obtain ml where ml: "links p2 mc = Some (mark_set ml)"
    using assms(1) o by (auto simp: e2 p1 session_inv_def session_def has_link_def links_upd_link)
  obtain y where y: "is_write c y" "add_msg y (upd_link c clear_recv_data p2) = (r, p3)"
    using copy_set [OF _ _ assms(4) put_frame_ne ml _ assms(9) [unfolded o]] m1 e2 by (auto simp: mark_set_def)
  have fr: "msgs (upd_link c clear_recv_data p2) (next_mid (upd_link c clear_recv_data p2)) = None"
    using fresh_msg [OF session_facts(4) [OF assms(1)]] assms(2) m1 e2 by (auto simp: view_upd_link upd_link_def)
  note a3 = add_msg_view [OF y(2) fr]
  have kc: "keeps p2 (upd_link c clear_recv_data p2)" by (rule keeps_upd_link) (simp_all add: role_def clear_recv_data_def)
  have vc: "imsg (upd_link c clear_recv_data p2) = imsg p2" "omsg (upd_link c clear_recv_data p2) = omsg p2" "sent (upd_link c clear_recv_data p2) = sent p2"
    by (rule view_upd_same; simp add: clear_recv_data_def)+
  show "keeps p p3" using keeps_trans [OF keeps_trans [OF k1 keeps_quiet [OF q2]] keeps_trans [OF kc a3(2)]] .
  show "imsg p3 = imsg p" "omsg p3 = omsg p" "sent p3 = sent p"
    using v1 view_quiet [OF q2] by (auto simp: a3 vc fun_eq_iff)
  show "has_link p3 mc l_fwd_to_replicas"
    using ml a3(6) session_facts(2) [OF assms(1)] by (auto simp: has_link_def links_upd_link mark_set_def)
  show "klog p3 = klog p" using klog_quiet [OF q2] by (simp add: a3(8) p1)
  have "m \<noteq> r" using fr assms(2) m1 e2 a3(1) by (auto simp: view_upd_link)
  moreover have "msgs p3 = (msgs p)(m \<mapsto> x\<lparr>m_buf := ?b\<rparr>, r \<mapsto> y)" by (simp add: a3 view_upd_link e2 m1)
  ultimately show "m \<noteq> r \<and> (\<exists>y. is_write c y \<and> msgs p3 = (msgs p)(m \<mapsto> x\<lparr>m_buf := ?b\<rparr>, r \<mapsto> y))" using y(1) by blast
qed

lemma req_step_refines:
  assumes "session_inv c mc ss p" "msgs p m = Some x" "m_id x \<noteq> 1" "brep (m_buf x) (put_frame w @ rest)" "w \<noteq> []"
    "length (put_frame w) < 1073741826" "proxy_wf q" "req_step e lk c m p = Inr (go, lk', q)"
  shows "go \<and> refines c mc ss p q \<and> (\<exists>b. msgs q m = Some (x\<lparr>m_buf := b\<rparr>) \<and> brep b rest)"
proof -
  let ?b = "b_decr (int (length (put_frame w))) (b_remember_sz (b_size (m_buf x)) (m_buf x))"
  obtain out p1 p2 r p3 p4 p5 where
    1: "get_mapped_server_conn e c m p = Inr (out, p1)" "notify_out e out p1 = Inr p2" "copy_request e c out m (b_data (m_buf x)) p2 = Inr (r, p3)"
      "produce_request out r p3 = Inr p4" "lock_request e lk c out m r p4 = Inr (go, lk', p5)"
    and h: "(if \<not> go then Inr (False, lk', p5) else rbind (propagate_request e out r (push_imsg out r p5)) (\<lambda>p6. Inr (True, lk', p6))) = Inr (go, lk', q)"
    using assms(2,8) by (auto simp: req_step_def req_mapped_forward_def rbind_eq_Inr get_msg_Inr split: if_splits)
  note rc = route_and_copy [OF assms(1-6) 1(1-3)]
  obtain y where y: "is_write c y" "msgs p3 = (msgs p)(m \<mapsto> x\<lparr>m_buf := ?b\<rparr>, r \<mapsto> y)" "m \<noteq> r" using rc(8) by blast
  have md: "consistency_model p3 = consistency_model p" "topology p3 = topology p" "consistency_technique p3 = consistency_technique p"
    using rc(2) by (simp_all add: keeps_def)
  have p4: "p4 = p3\<lparr>klog := klog p @ [b_contents (m_buf y)]\<rparr>"
    using set_tail_effects(1) [OF assms(1) md 1(4) [unfolded rc(1)] rc(6) _ y(1)] y(2) rc(7) by simp
  have p5: "go" "p5 = p4" using set_tail_effects(2) [OF assms(1) _ _ _ 1(5) [unfolded rc(1)]] md p4 by auto
  have q: "q = push_imsg mc r p4"
    using h p5 set_tail_effects(3) [OF assms(1), of "push_imsg mc r p4" e r] md p4 rc(1) by (auto simp: rbind_eq_Inr push_imsg_def upd_link_def)
  obtain ml where l4: "links p4 mc = Some ml" "l_fwd_to_replicas ml" using rc(6) by (auto simp: p4 has_link_def)
  have v4: "imsg p4 = imsg p" "omsg p4 = omsg p" "sent p4 = sent p" using rc(3-5) by (simp_all add: p4)
  have kq: "keeps p q" unfolding q p4 by (rule keeps_trans [OF _ keeps_push(1)]) (use rc(2) in simp)
  have fq: "has_link q mc l_fwd_to_replicas" using l4 by (simp add: q has_link_def push_imsg_def upd_link_def)
  have vq: "imsg q z = (if z = mc then imsg p z @ [r] else imsg p z)" "omsg q z = omsg p z" "sent q z = sent p z" for z
    using v4 by (simp_all add: q view_push(1,2) [OF l4(1)] view_push(5))
  have mq: "msgs q = (msgs p)(m \<mapsto> x\<lparr>m_buf := ?b\<rparr>, r \<mapsto> y)" by (simp add: q view_push p4 y(2))
  have "refines c mc ss p q" by (rule arrive_step [OF assms(1) kq assms(7) fq vq(1) _ y(1) vq(2,3)]) (simp_all add: mq, simp add: q p4)
  moreover have "brep (b_remember_sz (b_size (m_buf x)) (m_buf x)) (put_frame w @ rest)"
    using assms(4) by (simp add: brep_def b_remember_sz_def)
  then have "brep ?b rest" using brep_decr [of _ "put_frame w @ rest" "int (length (put_frame w))"] by fastforce
  ultimately show ?thesis using p5(1) y(3) by (intro conjI exI [of _ ?b]) (simp_all add: mq)
qed

lemma req_loop_refines:
  assumes "session_inv c mc ss p" "msgs p m = Some x" "m_id x \<noteq> 1" "brep (m_buf x) (put_stream ws)" "[] \<notin> set ws"
    "length (put_stream ws) < 1073741826" "req_loop n e lk c m p = Inr (st, q)"
  shows "refines c mc ss p q \<and> st = CO_OK"
  using assms
proof (induction ws arbitrary: p x lk n)
  case Nil
  then have "q = p \<and> st = CO_OK" by (subst (asm) req_loop.simps) (auto simp: get_msg_def put_stream_def brep_def)
  then show ?case using Nil.prems(1) by (simp add: refines_def)
next
  case (Cons w ws)
  have b: "brep (m_buf x) (put_frame w @ put_stream ws)" using Cons.prems(4) by (simp add: put_stream_def)
  have len: "length (put_frame w) < 1073741826" "length (put_stream ws) < 1073741826" using Cons.prems(6) by (simp_all add: put_stream_def)
  have "b_size (m_buf x) \<noteq> 0" using b by (simp add: brep_def put_frame_def length_frame)
  then obtain n' go lk' p1 where 1: "req_step e lk c m p = Inr (go, lk', p1)"
    "(if go then req_loop n' e lk' c m p1 else Inr (CO_OK, p1)) = Inr (st, q)"
    using Cons.prems(2,7) by (subst (asm) (2) req_loop.simps) (auto simp: get_msg_def rbind_eq_Inr split: nat.splits if_splits)
  note wf = session_facts(4) [OF Cons.prems(1)]
  have "c < next_lid p" using Cons.prems(1) live [OF wf] by (auto simp: session_inv_def session_def has_link_def)
  moreover have "m < next_mid p" using Cons.prems(2) wf unfolding proxy_wf_def by (metis not_less option.distinct(1))
  ultimately have "proxy_wf p1" using outcomeD [OF req_step_sound [OF wf] 1(1)] by (auto dest: wf_step_wf)
  then have s: "go" "refines c mc ss p p1" "\<exists>b. msgs p1 m = Some (x\<lparr>m_buf := b\<rparr>) \<and> brep b (put_stream ws)"
    using req_step_refines [OF Cons.prems(1-3) b _ len(1) _ 1(1)] Cons.prems(5) by auto
  then obtain b' where b': "msgs p1 m = Some (x\<lparr>m_buf := b'\<rparr>)" "brep b' (put_stream ws)" by blast
  have "refines c mc ss p1 q \<and> st = CO_OK"
    using Cons.IH [OF _ b'(1) _ _ _ len(2), of n' lk'] s(1,2) 1(2) b'(2) Cons.prems(3,5) by (simp add: refines_def)
  then show ?case using refines_trans [OF s(2)] by blast
qed

lemma req_recv_step:
  assumes "session_inv c mc ss p" "only_puts e c p" "proxy_wf q" "req_recv e c p = Inr (st, q)"
  shows "refines c mc ss p q"
proof -
  obtain r p1 where rd: "read_msg e c p = Inr (r, p1)" and
    h: "(case r of
       None \<Rightarrow> rbind (del_event e c (dec_conn_count (dec_conn_count (upd_link c mark_error p1)))) (\<lambda>p2. Inr (CO_C_DROP, p2))
     | Some m \<Rightarrow>
         let p2 = upd_msg m (\<lambda>x. x\<lparr>m_owner := Some c\<rparr>) p1 in
         rbind (get_msg p2 m) (\<lambda>msg. req_loop (nat (b_size (m_buf msg))) e (e_locks e) c m p2)) = Inr (st, q)"
    using assms(4) by (auto simp: req_recv_def rbind_eq_Inr)
  note wf = session_facts(4) [OF assms(1)]
  show ?thesis
  proof (cases r)
    case None
    then have d: "quiet (dec_conn_count (dec_conn_count (upd_link c mark_error p))) q"
      using h read_msg_effect [OF rd] by (auto simp: rbind_eq_Inr dest: event_effect(3))
    show ?thesis
      by (rule idle_step [OF assms(1) keeps_trans [OF _ keeps_quiet [OF d]] assms(3)])
         (simp_all add: view_quiet [OF d] klog_quiet [OF d] dec_conn_count_def keeps_push)
  next
    case (Some m)
    obtain l b rs where b: "links p c = Some l" "msg_read (e_ok e) (l_noblock l) (e_rd e) = Inr (Some b, rs)" "m = next_mid p" "b_inv b" "p1 = with_msg b p"
      using read_msg_effect [OF rd] Some by auto
    obtain ws where ws: "[] \<notin> set ws" "b_contents b = put_stream ws" using assms(2) b(1,2) unfolding only_puts_def by blast
    have len: "length (put_stream ws) \<le> 8192" using msg_read_stream [of "e_ok e" "l_noblock l" "e_rd e"] b(2) ws(2) by auto
    define p2 where "p2 = upd_msg m (\<lambda>x. x\<lparr>m_owner := Some c\<rparr>) p1"
    let ?x = "(message_new b)\<lparr>m_owner := Some c\<rparr>"
    have x: "msgs p2 m = Some ?x" by (simp add: p2_def b(3,5) with_msg_def)
    then have lp: "req_loop (nat (b_size b)) e (e_locks e) c m p2 = Inr (st, q)"
      using h unfolding Some by (simp add: Let_def get_msg_def message_new_def flip: p2_def)
    have k: "keeps p p2" unfolding p2_def b(3,5) by (rule keeps_new_msg [OF wf])
    have v: "imsg p2 = imsg p" "omsg p2 = omsg p" "sent p2 = sent p" using view_with_msg [OF wf] by (auto simp: p2_def b(5) fun_eq_iff)
    have "session_inv c mc ss p1" using read_step(1) [OF assms(1) rd [unfolded Some]] by (simp add: refines_def)
    then have w1: "proxy_wf p1" by (simp add: session_inv_def)
    have "c < next_lid p1" using live [OF wf b(1)] by (simp add: b(5) with_msg_def)
    then have "wf_step p1 p2" unfolding p2_def by (intro wf_upd_msg [OF w1]) (simp add: ptr_ok_def)
    then have "proxy_wf p2" by (rule wf_step_wf)
    then have r2: "refines c mc ss p p2" by (intro idle_step [OF assms(1) k]) (simp_all add: v, simp add: p2_def b(5))
    have "refines c mc ss p2 q"
      using req_loop_refines [OF _ x _ _ ws(1) _ lp] r2 b(4) len by (simp add: refines_def b_inv_def ws(2) message_new_def)
    then show ?thesis using refines_trans [OF r2] by blast
  qed
qed

end
