(* ===== verification/Chain_Session.thy ===== *)
theory Chain_Session
  imports Chain_Refinement
begin

text \<open>
  Sessions from the connection of a client on: accept_client of net.cpp builds the chain of datalet
  connections, and from then on every event on these connections, in any order, is a sequence of
  steps of the chain of the theory Chain_Spec. The properties of chain replication are the facts of
  the interpretation of its interface chain_impl.
\<close>

section \<open>Events of a session\<close>

text \<open>
  An event on one of the connections of the session, handled by NetworkServer::recv or send. The
  client sends set requests only, and a write to a datalet is taken whole by the kernel.
\<close>

inductive session_step :: "lid \<Rightarrow> lid \<Rightarrow> lid list \<Rightarrow> proxy \<Rightarrow> proxy \<Rightarrow> bool" for c mc ss where
  recv: "x \<in> set (c # mc # ss) \<Longrightarrow> x = c \<longrightarrow> only_puts e c p \<Longrightarrow> proxy_recv e x p = Inr (st, q) \<Longrightarrow> session_step c mc ss p q"
| send: "x \<in> set (c # mc # ss) \<Longrightarrow> x = c \<or> full_write e \<Longrightarrow> proxy_send e x p = Inr (st, q) \<Longrightarrow> session_step c mc ss p q"

lemma session_link:
  assumes "session_inv c mc ss p" "x \<in> set (c # mc # ss)"
  shows "\<exists>l. links p x = Some l \<and>
     l_recv_nw l = Some (if x = c then H_req_recv else if x = mc then H_rsp_recv else H_replica_rsp_recv) \<and>
     l_send_nw l = Some (if x = c then H_rsp_send else if x = mc then H_req_send else H_replica_req_send)"
proof -
  have s: "session c mc ss p" and d: "distinct (c # mc # ss)" using assms(1) by (auto simp: session_inv_def session_def)
  consider "x = c" | "x = mc" | i where "i < length ss" "x = ss ! i" using assms(2) by (auto simp: in_set_conv_nth)
  then show ?thesis
  proof cases
    case 3
    then have "x \<noteq> c" "x \<noteq> mc" using d by (auto simp: in_set_conv_nth)
    then show ?thesis using s 3 by (auto simp: session_def has_link_def)
  qed (use s d in \<open>auto simp: session_def has_link_def\<close>)
qed

lemma call_recv_refines:
  assumes "session_inv c mc ss p" "x \<in> set (c # mc # ss)" "x = c \<longrightarrow> only_puts e c p"
    "call_recv e (if x = c then H_req_recv else if x = mc then H_rsp_recv else H_replica_rsp_recv) x p = Inr (st, q)"
  shows "refines c mc ss p q"
proof -
  note wf = session_facts(4) [OF assms(1)]
  obtain l where "links p x = Some l" using session_link [OF assms(1,2)] by blast
  then have lt: "x < next_lid p" by (rule live [OF wf])
  have "sound (call_recv e (if x = c then H_req_recv else if x = mc then H_rsp_recv else H_replica_rsp_recv) x p) (\<lambda>(st, p'). wf_step p p')"
    using handler_sound(1-3) [OF wf lt] by (auto simp: call_recv_def)
  then have wq: "proxy_wf q" using outcomeD [OF _ assms(4)] wf_step_wf by fastforce
  consider "x = c" | "x \<noteq> c" "x = mc" | i where "x \<noteq> c" "x \<noteq> mc" "i < length ss" "x = ss ! i"
    using assms(2) by (auto simp: in_set_conv_nth)
  then show ?thesis
  proof cases
    case 1
    then show ?thesis using assms(3,4) req_recv_step [OF assms(1) _ wq] by (simp add: call_recv_def)
  next
    case 2
    then show ?thesis using assms(4) rsp_recv_step [OF assms(1) wq] by (simp add: call_recv_def)
  next
    case 3
    then show ?thesis using assms(4) replica_rsp_recv_step [OF assms(1) wq] by (simp add: call_recv_def)
  qed
qed

lemma proxy_recv_refines:
  assumes "session_inv c mc ss p" "x \<in> set (c # mc # ss)" "x = c \<longrightarrow> only_puts e c p" "proxy_recv e x p = Inr (st, q)"
  shows "refines c mc ss p q"
proof -
  note wf = session_facts(4) [OF assms(1)]
  let ?h = "if x = c then H_req_recv else if x = mc then H_rsp_recv else H_replica_rsp_recv"
  obtain l where l: "links p x = Some l" "l_recv_nw l = Some ?h" using session_link [OF assms(1,2)] by blast
  have wq: "proxy_wf q" using outcomeD [OF proxy_recv_sound [OF wf live [OF wf l(1)]] assms(4)] wf_step_wf by fastforce
  show ?thesis
  proof (cases "l_error l")
    case True
    then have "q = p" using assms(4) l(1) by (auto simp: proxy_recv_def get_link_def)
    then show ?thesis using assms(1) by (simp add: refines_def)
  next
    case False
    obtain p1 where p1: "call_recv e ?h x p = Inr (st, p1)" "q = (if st = CO_C_DROP then put_conn x (upd_link x reset_error p1) else p1)"
      using assms(4) l False by (auto simp: proxy_recv_def get_link_def handler_def rbind_eq_Inr)
    have r1: "refines c mc ss p p1" by (rule call_recv_refines [OF assms(1-3) p1(1)])
    then have i1: "session_inv c mc ss p1" by (simp add: refines_def)
    have "refines c mc ss p1 q"
      by (rule idle_step [OF i1 _ wq]) (use p1(2) keeps_push(6) in auto)
    then show ?thesis using refines_trans [OF r1] by blast
  qed
qed

lemma proxy_send_refines:
  assumes "session_inv c mc ss p" "x \<in> set (c # mc # ss)" "x = c \<or> full_write e" "proxy_send e x p = Inr (st, q)"
  shows "refines c mc ss p q"
proof -
  note wf = session_facts(4) [OF assms(1)]
  let ?h = "if x = c then H_rsp_send else if x = mc then H_req_send else H_replica_req_send"
  obtain l where l: "links p x = Some l" "l_send_nw l = Some ?h" using session_link [OF assms(1,2)] by blast
  have wq: "proxy_wf q" using outcomeD [OF proxy_send_sound [OF wf live [OF wf l(1)]] assms(4)] wf_step_wf by fastforce
  show ?thesis
  proof (cases "l_error l")
    case True
    then have "q = p" using assms(4) l(1) by (auto simp: proxy_send_def get_link_def)
    then show ?thesis using assms(1) by (simp add: refines_def)
  next
    case False
    then have h: "call_send e ?h x p = Inr (st, q)"
      using assms(4) l by (simp add: proxy_send_def get_link_def handler_def)
    consider "x = c" | "x \<noteq> c" "x = mc" | "x \<noteq> c" "x \<noteq> mc" "x \<in> set ss" using assms(2) by auto
    then show ?thesis
    proof cases
      case 1
      then show ?thesis using h rsp_send_step [OF assms(1) wq] by (simp add: call_send_def)
    next
      case 2
      then show ?thesis using h assms(3) req_send_step [OF assms(1) _ wq] by (auto simp: call_send_def)
    next
      case 3
      then show ?thesis using h assms(3) replica_req_send_step [OF assms(1) _ wq] by (auto simp: call_send_def)
    qed
  qed
qed

lemma session_step_refines: "session_step c mc ss p q \<Longrightarrow> session_inv c mc ss p \<Longrightarrow> refines c mc ss p q"
  by (induction rule: session_step.induct) (auto intro: proxy_recv_refines proxy_send_refines)

interpretation cr: chain_impl "mc # ss" "session_inv c mc ss" "session_step c mc ss" "chain_abs c (mc # ss)" for c mc ss
proof
  show "distinct (mc # ss)" if "session_inv c mc ss s" for s using session_facts(1) [OF that] .
  show "session_inv c mc ss t \<and> (chain_step (mc # ss))\<^sup>*\<^sup>* (chain_abs c (mc # ss) s) (chain_abs c (mc # ss) t)"
    if "session_inv c mc ss s" "session_step c mc ss s t" for s t
    using session_step_refines [OF that(2,1)] by (simp add: refines_def)
qed

section \<open>Opening the chain\<close>

lemma new_link_queues: "l_imsg_q (Link_new b j) = []" "l_omsg_q (Link_new b j) = []" "l_datalet_conn (Link_new b j) = None" "l_sock (Link_new b j) = -1"
  by (simp_all add: Link_new_def)

lemma open_server_effect:
  assumes "open_server e c a node f p = Inr (s, q)" "c < next_lid p"
  shows "\<exists>l0. l_imsg_q l0 = [] \<and> l_omsg_q l0 = [] \<and> l_is_server l0 \<and> s = next_lid p \<and>
     q = p\<lparr>next_lid := Suc (next_lid p), links := (links p)(s \<mapsto> f l0, c := map_option (set_server_conn s) (links p c))\<rparr>"
proof -
  obtain fd where "s = next_lid p" "q = p\<lparr>next_lid := Suc (next_lid p), links := (links p)
     (s \<mapsto> f ((Link_new False (e_new e (next_lid p)))\<lparr>l_is_server := True, l_sock := fd\<rparr>), c := map_option (set_server_conn s) (links p c))\<rparr>"
    using assms by (auto simp: open_server_def get_conn_def add_link_def connect_conn_def get_link_def link_connect_def upd_link_def rbind_eq_Inr
        split: option.splits if_splits prod.splits)
  then show ?thesis by (intro exI [of _ "(Link_new False (e_new e (next_lid p)))\<lparr>l_is_server := True, l_sock := fd\<rparr>"]) (simp add: new_link_queues)
qed

lemma open_slave_effect:
  assumes "open_slave e a node n p = Inr (s, q)"
  shows "\<exists>l0. l_imsg_q l0 = [] \<and> l_omsg_q l0 = [] \<and> s = next_lid p \<and>
     q = p\<lparr>next_lid := Suc (next_lid p), links := (links p)(s \<mapsto> slave_fields n l0)\<rparr>"
proof -
  obtain fd where "s = next_lid p" "q = p\<lparr>next_lid := Suc (next_lid p), links := (links p)
     (s \<mapsto> slave_fields n ((Link_new False (e_new e (next_lid p)))\<lparr>l_is_server := False, l_sock := fd\<rparr>))\<rparr>"
    using assms by (auto simp: open_slave_def get_slave_conn_def add_link_def connect_conn_def get_link_def link_connect_def upd_link_def rbind_eq_Inr
        split: option.splits if_splits prod.splits)
  then show ?thesis by (intro exI [of _ "(Link_new False (e_new e (next_lid p)))\<lparr>l_is_server := False, l_sock := fd\<rparr>"]) (simp add: new_link_queues)
qed

text \<open>The connections of a chain, just opened.\<close>

definition idle_link :: "recv_handler \<Rightarrow> send_handler \<Rightarrow> link \<Rightarrow> bool" where
  "idle_link r s l \<longleftrightarrow> l_recv_nw l = Some r \<and> l_send_nw l = Some s \<and> l_imsg_q l = [] \<and> l_omsg_q l = []"

definition built :: "lid \<Rightarrow> proxy \<Rightarrow> lid option \<Rightarrow> lid list \<Rightarrow> proxy \<Rightarrow> bool" where
  "built c p mast slaves q \<longleftrightarrow>
     topology q = topology p \<and> consistency_model q = consistency_model p \<and> consistency_technique q = consistency_technique p \<and>
     replicas q = replicas p \<and> ms_map q = ms_map p \<and> wire q = wire p \<and> msgs q = msgs p \<and> klog q = klog p \<and>
     client_listen_conn q = client_listen_conn p \<and> next_lid p \<le> next_lid q \<and>
     distinct slaves \<and> (\<forall>s\<in>set slaves. next_lid p \<le> s \<and> s < next_lid q) \<and>
     (\<forall>i<length slaves. has_link q (slaves ! i) (\<lambda>l. idle_link H_replica_rsp_recv H_replica_req_send l \<and> l_slave_number l = int i)) \<and>
     has_link q c (\<lambda>l. l_imsg_q l = [] \<and> l_sock l = -1 \<and> l_datalet_conn l = mast) \<and>
     (\<forall>mc. mast = Some mc \<longrightarrow> next_lid p \<le> mc \<and> mc < next_lid q \<and> mc \<notin> set slaves \<and> has_link q mc (idle_link H_rsp_recv H_req_send))"

lemma built_master:
  assumes "built c p mast slaves q" "c < next_lid p" "establish_master e c node f ((mast, slaves), n, as) q = Inr (acc, r)"
    "\<And>l. l_imsg_q l = [] \<Longrightarrow> l_omsg_q l = [] \<Longrightarrow> idle_link H_rsp_recv H_req_send (f l)"
  shows "\<exists>s as'. acc = ((Some s, slaves), n, as') \<and> built c p (Some s) slaves r"
proof -
  obtain s as' a where 1: "open_server e c a node f q = Inr (s, r)" "acc = ((Some s, slaves), n, as')"
    using assms(3) by (auto simp: establish_master_def rbind_eq_Inr split: prod.splits)
  have "c < next_lid q" using assms(1,2) by (simp add: built_def)
  then obtain l0 where l0: "l_imsg_q l0 = []" "l_omsg_q l0 = []" "s = next_lid q"
    "r = q\<lparr>next_lid := Suc (next_lid q), links := (links q)(s \<mapsto> f l0, c := map_option (set_server_conn s) (links q c))\<rparr>"
    using open_server_effect [OF 1(1)] by blast
  have h: "has_link r x P" if "has_link q x P" "x \<noteq> c" "x < next_lid q" for x P
    using that by (auto simp: l0(3,4) has_link_def)
  have s: "has_link r s (idle_link H_rsp_recv H_req_send)" using l0 assms(2,4) \<open>c < next_lid q\<close> by (auto simp: has_link_def)
  have c: "has_link r c (\<lambda>l. l_imsg_q l = [] \<and> l_sock l = -1 \<and> l_datalet_conn l = Some s)"
    using assms(1) by (auto simp: l0(4) built_def has_link_def set_server_conn_def)
  have ids: "\<forall>x\<in>set slaves. next_lid p \<le> x \<and> x < next_lid q" "next_lid p \<le> next_lid q" using assms(1) by (simp_all add: built_def)
  have "has_link r (slaves ! i) (\<lambda>l. idle_link H_replica_rsp_recv H_replica_req_send l \<and> l_slave_number l = int i)" if "i < length slaves" for i
    using h [of "slaves ! i"] that assms(1,2) ids(1) nth_mem [OF that] by (fastforce simp: built_def)
  then have "built c p (Some s) slaves r" using assms(1) s c ids unfolding built_def by (auto simp: l0(3,4))
  then show ?thesis using 1(2) by blast
qed

lemma built_replica:
  assumes "built c p mast slaves q" "c < next_lid p" "establish_replica e node ((mast, slaves), int (length slaves), as) q = Inr (acc, r)"
  shows "\<exists>s as'. acc = ((mast, slaves @ [s]), int (length (slaves @ [s])), as') \<and> built c p mast (slaves @ [s]) r"
proof -
  obtain s as' a where 1: "open_slave e a node (int (length slaves)) q = Inr (s, r)" "acc = ((mast, slaves @ [s]), int (length slaves) + 1, as')"
    using assms(3) by (auto simp: establish_replica_def rbind_eq_Inr split: prod.splits)
  obtain l0 where l0: "l_imsg_q l0 = []" "l_omsg_q l0 = []" "s = next_lid q"
    "r = q\<lparr>next_lid := Suc (next_lid q), links := (links q)(s \<mapsto> slave_fields (int (length slaves)) l0)\<rparr>"
    using open_slave_effect [OF 1(1)] by blast
  have ids: "\<forall>x\<in>set slaves. next_lid p \<le> x \<and> x < next_lid q" "next_lid p \<le> next_lid q" using assms(1) by (simp_all add: built_def)
  have h: "has_link r x P" if "has_link q x P" "x < next_lid q" for x P
    using that by (auto simp: l0(3,4) has_link_def)
  have s: "has_link r s (\<lambda>l. idle_link H_replica_rsp_recv H_replica_req_send l \<and> l_slave_number l = int (length slaves))"
    using l0 by (simp add: has_link_def idle_link_def slave_fields_def set_repl_func_def)
  have "has_link r ((slaves @ [s]) ! i) (\<lambda>l. idle_link H_replica_rsp_recv H_replica_req_send l \<and> l_slave_number l = int i)" if "i < Suc (length slaves)" for i
  proof (cases "i = length slaves")
    case False
    then have "i < length slaves" using that by simp
    then show ?thesis using h [of "slaves ! i"] assms(1) ids(1) nth_mem [of i slaves] by (auto simp: built_def nth_append)
  qed (use s in simp)
  moreover have "has_link r c (\<lambda>l. l_imsg_q l = [] \<and> l_sock l = -1 \<and> l_datalet_conn l = mast)"
    using h [of c] assms(1,2) ids(2) by (simp add: built_def)
  moreover have "has_link r mc (idle_link H_rsp_recv H_req_send)" if "mast = Some mc" for mc
    using h [of mc] assms(1) that by (simp add: built_def)
  ultimately have "built c p mast (slaves @ [s]) r" using assms(1) ids unfolding built_def by (auto simp: l0(3,4))
  then show ?thesis using 1(2) by simp
qed

lemma built_node:
  assumes "built c p mast slaves q" "c < next_lid p" "topology p = Ms" "establish_node e c it ((mast, slaves), int (length slaves), as) q = Inr (acc, r)"
  shows "\<exists>mast' slaves' as'. acc = ((mast', slaves'), int (length slaves'), as') \<and> built c p mast' slaves' r \<and>
     length slaves' = length slaves + (if n_role (snd it) = Slave_t then 1 else 0) \<and> (mast \<noteq> None \<or> n_role (snd it) = Master_t \<longrightarrow> mast' \<noteq> None)"
proof -
  obtain key node where it: "it = (key, node)" by fastforce
  have "topology q = Ms" using assms(1,3) by (simp add: built_def)
  then have h: "establish_ms e c key node ((mast, slaves), int (length slaves), as) q = Inr (acc, r)"
    using assms(4) by (simp add: establish_node_def it)
  show ?thesis
  proof (cases "n_role node")
    case Master_t
    have "idle_link H_rsp_recv H_req_send ((weighted_fields key node (replicas q) l)\<lparr>l_kproducer := True\<rparr>)" if "l_imsg_q l = []" "l_omsg_q l = []" for l
      using that by (simp add: idle_link_def weighted_fields_def server_fields_def set_nw_func_def)
    then show ?thesis using built_master [OF assms(1,2) h [unfolded establish_ms_def Master_t, simplified]] Master_t it by auto
  next
    case Slave_t
    then show ?thesis using built_replica [OF assms(1,2) h [unfolded establish_ms_def Slave_t, simplified]] it assms(1) by (auto simp: built_def)
  next
    case (Role _)
    then show ?thesis using h assms(1) it by (auto simp: establish_ms_def)
  qed
qed

lemma built_loop:
  assumes "built c p mast slaves q" "c < next_lid p" "topology p = Ms" "establish_loop e c its ((mast, slaves), int (length slaves), as) q = Inr (acc, r)"
  shows "\<exists>mast' slaves' as'. acc = ((mast', slaves'), int (length slaves'), as') \<and> built c p mast' slaves' r \<and>
     length slaves' = length slaves + length (filter (\<lambda>n. n_role (snd n) = Slave_t) its) \<and>
     (mast \<noteq> None \<or> (\<exists>n\<in>set its. n_role (snd n) = Master_t) \<longrightarrow> mast' \<noteq> None)"
  using assms(1,4)
proof (induction its arbitrary: mast slaves as q)
  case (Cons it its)
  obtain acc1 q1 where 1: "establish_node e c it ((mast, slaves), int (length slaves), as) q = Inr (acc1, q1)" "establish_loop e c its acc1 q1 = Inr (acc, r)"
    using Cons.prems(2) by (auto simp: rbind_eq_Inr)
  obtain mast1 slaves1 as1 where 2: "acc1 = ((mast1, slaves1), int (length slaves1), as1)" "built c p mast1 slaves1 q1"
    "length slaves1 = length slaves + (if n_role (snd it) = Slave_t then 1 else 0)" "mast \<noteq> None \<or> n_role (snd it) = Master_t \<longrightarrow> mast1 \<noteq> None"
    using built_node [OF Cons.prems(1) assms(2,3) 1(1)] by blast
  from Cons.IH [OF 2(2) 1(2) [unfolded 2(1)]] 2(3,4) show ?case by auto
qed auto

text \<open>Accepting the client into its connection.\<close>

lemma accept_into_effect:
  assumes "accept_conn_into e c p = Inr q" "links p c = Some lc" "client_listen_conn p \<noteq> c"
  shows "has_link q c (\<lambda>l. (l_sock l = l_sock lc \<or> (l_recv_nw l = Some H_req_recv \<and> l_send_nw l = Some H_rsp_send)) \<and>
      l_datalet_conn l = l_datalet_conn lc \<and> l_imsg_q l = l_imsg_q lc)"
    "\<And>x. x \<noteq> c \<Longrightarrow> x \<noteq> client_listen_conn p \<Longrightarrow> links q x = links p x"
    "ms_map q = ms_map p" "msgs q = msgs p" "wire q = wire p" "klog q = klog p" "topology q = topology p"
    "consistency_model q = consistency_model p" "consistency_technique q = consistency_technique p" "replicas q = replicas p"
proof -
  obtain self where self: "links p (client_listen_conn p) = Some self"
    using assms(1) by (auto simp: accept_conn_into_def accept_on_def rbind_eq_Inr get_link_Inr)
  obtain st self' conn' where la: "link_accept (e_accs e) self lc = (st, self', conn')" by (metis prod_cases3)
  let ?p1 = "upd_link c (\<lambda>_. conn') (upd_link (client_listen_conn p) (\<lambda>_. self') p)"
  have q: "q = (if st \<noteq> CO_OK then ?p1
      else upd_link c (\<lambda>l. set_nw_func (l\<lparr>l_noblock := True, l_is_server := False\<rparr>)) (inc_conn_count ?p1))"
    using assms(1,2) self la by (auto simp: accept_conn_into_def accept_on_def rbind_eq_Inr get_link_def Let_def split: if_splits)
  have cn: "l_datalet_conn conn' = l_datalet_conn lc" "l_imsg_q conn' = l_imsg_q lc" "st \<noteq> CO_OK \<Longrightarrow> l_sock conn' = l_sock lc"
    using la by (auto simp: link_accept_def split: option.splits)
  show "has_link q c (\<lambda>l. (l_sock l = l_sock lc \<or> (l_recv_nw l = Some H_req_recv \<and> l_send_nw l = Some H_rsp_send)) \<and>
      l_datalet_conn l = l_datalet_conn lc \<and> l_imsg_q l = l_imsg_q lc)"
    using assms(2,3) cn by (simp add: q has_link_def upd_link_def inc_conn_count_def set_nw_func_def)
  show "links q x = links p x" if "x \<noteq> c" "x \<noteq> client_listen_conn p" for x
    using that by (simp add: q upd_link_def inc_conn_count_def)
  show "ms_map q = ms_map p" "msgs q = msgs p" "wire q = wire p" "klog q = klog p" "topology q = topology p"
    "consistency_model q = consistency_model p" "consistency_technique q = consistency_technique p" "replicas q = replicas p"
    by (simp_all add: q upd_link_def inc_conn_count_def)
qed

lemma set_event_sock:
  assumes "set_event e c flag p = Inr q" "links p c = Some l"
  shows "l_sock l \<ge> 0"
  using assms by (auto simp: set_event_def get_link_def fdes_set_def get_fde_def rbind_eq_Inr split: if_splits)

text \<open>A new pair at the end of ms_map is found when its connections are new.\<close>

lemma find_fresh:
  assumes "\<forall>x\<in>set xs. pair_ok n x" "n \<le> mc"
  shows "find_slaves mc (xs @ [(Some mc, ss)]) = Some ss"
  using assms(1) by (induction xs) (use assms(2) in \<open>auto simp: pair_ok_def\<close>)

lemma find_master_fresh:
  assumes "\<forall>x\<in>set xs. pair_ok n x" "n \<le> s" "s \<in> set ss"
  shows "find_master s (xs @ [(Some mc, ss)]) = Some mc"
  using assms(1) by (induction xs) (use assms(2,3) in \<open>fastforce simp: pair_ok_def ids_ok_def\<close>)+

lemma sent_fresh: "wire_ok n (wire p) \<Longrightarrow> n \<le> x \<Longrightarrow> sent p x = []"
  by (auto simp: sent_def wire_ok_def filter_empty_conv)

lemma chain_ok_idle:
  assumes "\<And>x. x \<in> set (c # mc # ss) \<Longrightarrow> sent p x = []" "\<And>x. x \<in> set (mc # ss) \<Longrightarrow> imsg p x = [] \<and> omsg p x = []" "imsg p c = []"
  shows "chain_ok (mc # ss) (chain_abs c (mc # ss) p)"
  using assms nth_mem [of _ "mc # ss"] last_in_set [of "mc # ss"] by (simp add: chain_ok_def chain_abs_def)

text \<open>The datalet file describes one shard: a master and as many slaves as there are replicas.\<close>

definition one_shard :: "proxy \<Rightarrow> bool" where
  "one_shard p \<longleftrightarrow> (\<exists>n\<in>set (dumb_map p). n_role (snd n) = Master_t) \<and>
     int (length (filter (\<lambda>n. n_role (snd n) = Slave_t) (dumb_map p))) = replicas p \<and> replicas p > 0"

lemma accept_client_builds:
  assumes "proxy_wf p" "topology p = Ms" "one_shard p" "accept_client e p = Inr q"
  shows "\<exists>mc ss p0 p3 p4. (let c = next_lid p in
     built c p0 (Some mc) ss p3 \<and> length ss = nat (replicas p) \<and> next_lid p0 = Suc c \<and> topology p0 = Ms \<and>
     consistency_model p0 = consistency_model p \<and> consistency_technique p0 = consistency_technique p \<and> replicas p0 = replicas p \<and>
     ms_map p0 = ms_map p \<and> wire p0 = wire p \<and> client_listen_conn p0 = client_listen_conn p \<and>
     accept_conn_into e c (p3\<lparr>ms_map := ms_map p3 @ [(Some mc, ss)]\<rparr>) = Inr p4 \<and> set_event e c FDEVENT_IN p4 = Inr q)"
proof -
  let ?c = "next_lid p" and ?l = "(Link_new False (e_new e (next_lid p)))\<lparr>l_is_server := True\<rparr>"
  define p0 where "p0 = upd_link ?c (\<lambda>l. l\<lparr>l_is_client := True\<rparr>)
    ((inc_conn_count (p\<lparr>links := (links p)(?c \<mapsto> ?l), next_lid := Suc ?c\<rparr>))\<lparr>client_conn_flag := True\<rparr>)"
  have f: "next_lid p0 = Suc ?c" "topology p0 = Ms" "consistency_model p0 = consistency_model p" "consistency_technique p0 = consistency_technique p"
    "replicas p0 = replicas p" "ms_map p0 = ms_map p" "wire p0 = wire p" "client_listen_conn p0 = client_listen_conn p" "dumb_map p0 = dumb_map p"
    using assms(2) by (simp_all add: p0_def upd_link_def inc_conn_count_def)
  have b0: "built ?c p0 None [] p0"
    by (simp add: built_def has_link_def p0_def upd_link_def inc_conn_count_def new_link_queues)
  obtain p2 p4 where 1: "establish_server_conn_each e ?c p0 = Inr p2" "accept_conn_into e ?c p2 = Inr p4" "set_event e ?c FDEVENT_IN p4 = Inr q"
    using assms(4) by (auto simp: accept_client_def get_client_conn_def get_conn_def add_link_def Let_def rbind_eq_Inr p0_def)
  obtain acc p3 where 2: "establish_loop e ?c (dumb_map p) ((None, []), int (length ([] :: lid list)), e_conns e) p0 = Inr (acc, p3)"
    and p2: "p2 = (if topology p3 = Ms \<or> (topology p3 = Aa \<and> consistency_model p3 = Strong) then p3\<lparr>ms_map := ms_map p3 @ [fst acc]\<rparr> else p3)"
    using 1(1) f(9) by (auto simp: establish_server_conn_each_def rbind_eq_Inr)
  obtain mast ss as' where 3: "acc = ((mast, ss), int (length ss), as')" "built ?c p0 mast ss p3"
    "length ss = length (filter (\<lambda>n. n_role (snd n) = Slave_t) (dumb_map p))" "mast \<noteq> None"
    using built_loop [OF b0 _ f(2) 2] f(1) assms(3) by (auto simp: one_shard_def)
  obtain mc where mc: "mast = Some mc" using 3(4) by blast
  have "length ss = nat (replicas p)" using 3(3) assms(3) unfolding one_shard_def by (metis nat_int)
  moreover have "p2 = p3\<lparr>ms_map := ms_map p3 @ [(Some mc, ss)]\<rparr>" using p2 3(1,2) mc f(2) by (simp add: built_def)
  ultimately show ?thesis using 1(2,3) 3(2) mc f(1-8) unfolding Let_def by metis
qed

text \<open>Accepting the client leaves the chain that was built as it is.\<close>

lemma accepted_chain:
  assumes "built c p0 (Some mc) ss p3" "next_lid p0 = Suc c" "client_listen_conn p0 < c"
    "accept_conn_into e c (p3\<lparr>ms_map := ms_map p3 @ [(Some mc, ss)]\<rparr>) = Inr p4" "set_event e c FDEVENT_IN p4 = Inr q"
  shows "has_link q c (\<lambda>l. l_recv_nw l = Some H_req_recv \<and> l_send_nw l = Some H_rsp_send \<and> l_datalet_conn l = Some mc \<and> l_imsg_q l = [])"
    "has_link q mc (idle_link H_rsp_recv H_req_send)"
    "\<And>i. i < length ss \<Longrightarrow> has_link q (ss ! i) (\<lambda>l. idle_link H_replica_rsp_recv H_replica_req_send l \<and> l_slave_number l = int i)"
    "ms_map q = ms_map p0 @ [(Some mc, ss)]" "wire q = wire p0" "topology q = topology p0" "consistency_model q = consistency_model p0"
    "consistency_technique q = consistency_technique p0" "replicas q = replicas p0" "\<forall>x\<in>set (mc # ss). Suc c \<le> x" "distinct (c # mc # ss)"
proof -
  let ?p3 = "p3\<lparr>ms_map := ms_map p3 @ [(Some mc, ss)]\<rparr>"
  obtain lc where lc: "links p3 c = Some lc" "l_imsg_q lc = []" "l_sock lc = -1" "l_datalet_conn lc = Some mc"
    using assms(1) by (auto simp: built_def has_link_def)
  have lis: "client_listen_conn p3 < c" using assms(1,3) by (simp add: built_def)
  have ac: "links ?p3 c = Some lc" "client_listen_conn ?p3 \<noteq> c" using lc lis by simp_all
  note ae = accept_into_effect [OF assms(4) ac] and qt = event_effect(1) [OF assms(5)]
  have lq: "links q = links p4" using qt by (simp add: quiet_def)
  show "has_link q c (\<lambda>l. l_recv_nw l = Some H_req_recv \<and> l_send_nw l = Some H_rsp_send \<and> l_datalet_conn l = Some mc \<and> l_imsg_q l = [])"
    using ae(1) set_event_sock [OF assms(5)] lc unfolding has_link_def lq by auto
  show ids: "\<forall>x\<in>set (mc # ss). Suc c \<le> x" using assms(1,2) by (auto simp: built_def)
  have same: "links q x = links p3 x" if "x \<in> set (mc # ss)" for x
    unfolding lq using ae(2) [of x] that ids lis by fastforce
  show "has_link q mc (idle_link H_rsp_recv H_req_send)" using assms(1) same [of mc] by (simp add: built_def has_link_def)
  show "has_link q (ss ! i) (\<lambda>l. idle_link H_replica_rsp_recv H_replica_req_send l \<and> l_slave_number l = int i)" if "i < length ss" for i
    using assms(1) that same [of "ss ! i"] by (simp add: built_def has_link_def)
  show "ms_map q = ms_map p0 @ [(Some mc, ss)]" "wire q = wire p0" "topology q = topology p0" "consistency_model q = consistency_model p0"
    "consistency_technique q = consistency_technique p0" "replicas q = replicas p0"
    using ae qt assms(1) by (simp_all add: quiet_def built_def)
  show "distinct (c # mc # ss)" using assms(1) ids by (auto simp: built_def)
qed

lemma idle_queues:
  "has_link q x P \<Longrightarrow> (\<And>l. P l \<Longrightarrow> l_imsg_q l = [] \<and> l_omsg_q l = []) \<Longrightarrow> imsg q x = [] \<and> omsg q x = []"
  by (auto simp: has_link_def imsg_def omsg_def)

lemma accept_client_session:
  assumes "proxy_wf p" "chain_mode p" "one_shard p" "accept_client e p = Inr q"
  shows "\<exists>mc ss. session_inv (next_lid p) mc ss q \<and> length ss = nat (replicas p) \<and>
     chain_ok (mc # ss) (chain_abs (next_lid p) (mc # ss) q)"
proof -
  let ?c = "next_lid p"
  have ms: "topology p = Ms" using assms(2) by (simp add: chain_mode_def)
  obtain mc ss p0 p3 p4 where b: "built ?c p0 (Some mc) ss p3" "length ss = nat (replicas p)" "next_lid p0 = Suc ?c"
    and f: "topology p0 = Ms" "consistency_model p0 = consistency_model p" "consistency_technique p0 = consistency_technique p" "replicas p0 = replicas p"
      "ms_map p0 = ms_map p" "wire p0 = wire p" "client_listen_conn p0 = client_listen_conn p"
    and a: "accept_conn_into e ?c (p3\<lparr>ms_map := ms_map p3 @ [(Some mc, ss)]\<rparr>) = Inr p4" and s: "set_event e ?c FDEVENT_IN p4 = Inr q"
    using accept_client_builds [OF assms(1) ms assms(3,4)] unfolding Let_def by blast
  have "client_listen_conn p0 < ?c" using f(7) assms(1) by (simp add: proxy_wf_def)
  note ch = accepted_chain [OF b(1,3) this a s]
  have cfg: "chain_mode q" "replicas q = int (length ss)" "ss \<noteq> []"
    using ch(6-9) f b(2) assms(2,3) by (auto simp: chain_mode_def one_shard_def)
  have pairs: "\<forall>x\<in>set (ms_map p). pair_ok ?c x" and wr: "wire_ok ?c (wire q)" using assms(1) ch(5) f(6) by (simp_all add: proxy_wf_def)
  have fresh: "?c \<le> x" if "x \<in> set (?c # mc # ss)" for x using that ch(10) by auto
  have idle: "imsg q x = [] \<and> omsg q x = []" if x: "x \<in> set (mc # ss)" for x
  proof -
    consider "x = mc" | i where "i < length ss" "x = ss ! i" using x by (auto simp: in_set_conv_nth)
    then show ?thesis using idle_queues [OF ch(2)] idle_queues [OF ch(3)] by cases (auto simp: idle_link_def)
  qed
  have ic: "imsg q ?c = []" using ch(1) by (auto simp: has_link_def imsg_def)
  have maps: "find_slaves mc (ms_map q) = Some ss" "\<forall>s\<in>set ss. find_master s (ms_map q) = Some mc"
    using find_fresh [OF pairs] find_master_fresh [OF pairs] fresh ch(4) f(5) by simp_all
  have "session ?c mc ss q" unfolding session_def
    using cfg ch(1-3,11) maps by (auto simp: has_link_def idle_link_def)
  moreover have "proxy_wf q" using outcomeD [OF accept_client_sound [OF assms(1)] assms(4)] by (rule wf_step_wf)
  ultimately have "session_inv ?c mc ss q" using idle ic by (simp add: session_inv_def)
  moreover have "chain_ok (mc # ss) (chain_abs ?c (mc # ss) q)"
    by (rule chain_ok_idle) (use idle ic sent_fresh [OF wr fresh] in auto)
  ultimately show ?thesis using b(2) by blast
qed

section \<open>Examples\<close>

text \<open>A proxy with a datalet file of a slave and a master, and the system's answers when a client connects.\<close>

definition demo_node :: "replica_role_t \<Rightarrow> DumbNode" where
  "demo_node r = \<lparr>n_addr = ''127.0.0.1'', n_port = 12346, n_weight = 1, n_role = r\<rparr>"

definition demo_proxy :: proxy where
  "demo_proxy = blank_proxy\<lparr>links := [0 \<mapsto> blank_link\<lparr>l_sock := 3\<rparr>], next_lid := 1, replicas := 1,
     dumb_map := [(''s'', demo_node Slave_t), (''m'', demo_node Master_t)]\<rparr>"

definition accept_env :: env where
  "accept_env = calm_env\<lparr>e_conns := [Some 5, Some 6], e_accs := [Acc_conn 7 ''10.0.0.1'' 4000]\<rparr>"

text \<open>A session of client 1 with master 2 and slave 3, in which a write waits for the master.\<close>

definition demo_write :: message where
  "demo_write = \<lparr>m_buf = Buffer_wrap ''set'', m_id = 1, m_count = 0, m_owner = Some 1, m_fwd = Some True\<rparr>"

definition demo_session :: proxy where
  "demo_session = blank_proxy\<lparr>links := [0 \<mapsto> blank_link,
      1 \<mapsto> blank_link\<lparr>l_datalet_conn := Some 2, l_recv_nw := Some H_req_recv, l_send_nw := Some H_rsp_send\<rparr>,
      2 \<mapsto> blank_link\<lparr>l_sock := 0, l_recv_nw := Some H_rsp_recv, l_send_nw := Some H_req_send, l_fwd_to_replicas := True, l_imsg_q := [0]\<rparr>,
      3 \<mapsto> blank_link\<lparr>l_sock := 6, l_recv_nw := Some H_replica_rsp_recv, l_send_nw := Some H_replica_req_send, l_slave_number := 0\<rparr>],
    next_lid := 4, msgs := [0 \<mapsto> demo_write], next_mid := 1, ms_map := [(Some 2, [3])], replicas := 1\<rparr>"

definition write_env :: env where
  "write_env = calm_env\<lparr>e_wr := [Wr_take (2 ^ 31)]\<rparr>"

lemma demo_wf: "proxy_wf demo_proxy" "proxy_wf demo_session"
  by (auto simp: proxy_wf_def demo_proxy_def demo_session_def blank_proxy_def link_ok_def pair_ok_def fdes_ok_def evs_ok_def Fdevents_new_def
      wire_ok_def demo_write_def blank_link_def split: if_splits)

lemma demo_accept: "\<exists>q. accept_client accept_env demo_proxy = Inr q"
proof -
  have "\<not> isl (accept_client accept_env demo_proxy)" by code_simp
  then show ?thesis by (cases "accept_client accept_env demo_proxy") auto
qed

lemma demo_inv: "session_inv 1 2 [3] demo_session" "chain_ok [2, 3] (chain_abs 1 [2, 3] demo_session)"
proof -
  have "brep (Buffer_wrap ''set'') ''set''" by (rule brep_wrap) simp
  then have "b_inv (Buffer_wrap ''set'')" "b_contents (Buffer_wrap ''set'') = ''set''" by (rule brep_inv, rule brep_contents)
  then have w: "is_write 1 demo_write" by (simp add: is_write_def demo_write_def) (simp add: Buffer_wrap_def)
  have i: "imsg demo_session 1 = []" "imsg demo_session 2 = [0]" "imsg demo_session 3 = []"
    "omsg demo_session 2 = []" "omsg demo_session 3 = []"
    by (simp_all add: imsg_def omsg_def demo_session_def blank_link_def)
  have "session 1 2 [3] demo_session"
    by (simp add: session_def chain_mode_def has_link_def demo_session_def blank_proxy_def)
  moreover have "msgs demo_session 0 = Some demo_write" "has_link demo_session 2 l_fwd_to_replicas"
    by (simp_all add: demo_session_def has_link_def)
  ultimately show "session_inv 1 2 [3] demo_session"
    using demo_wf(2) w i by (simp add: session_inv_def)
  show "chain_ok [2, 3] (chain_abs 1 [2, 3] demo_session)"
    using i by (simp add: chain_ok_def chain_abs_def sent_def demo_session_def blank_proxy_def less_Suc_eq)
qed

lemma demo_send: "\<exists>st q. proxy_send write_env 2 demo_session = Inr (st, q)"
  by (simp add: proxy_send_def get_link_def get_msg_def handler_def call_send_def req_send_def send_request_def msg_send_def demo_session_def write_env_def
     calm_env_def blank_link_def upd_link_def demo_write_def Buffer_wrap_def mem_read_def b_decr_def b_rewind_sz_def set_event_def push_omsg_def put_wire_def upd_msg_def
     fdes_set_def get_fde_def blank_proxy_def Fdevents_new_def fde_new_def epoll_ctl_def Let_def fdevent_defs CHECK_def)

lemma demo_step: "\<exists>q. (session_step 1 2 [3])\<^sup>*\<^sup>* demo_session q \<and> (\<exists>st. proxy_send write_env 2 demo_session = Inr (st, q))"
proof -
  have "full_write write_env" by (auto simp: full_write_def write_env_def)
  then show ?thesis using demo_send session_step.send [of 2 1 2 "[3]" write_env demo_session] by fastforce
qed

section \<open>Properties\<close>

text \<open>C2: The proxy refines the chain specification: from any state of a session, every sequence of events on
  its connections keeps the session invariant and is, through the abstraction, a sequence of steps of
  the chain, when the client sends set requests and the datalets' sockets take writes whole.\<close>

theorem session_refines_chain:
  assumes "session_inv c mc ss p" "(session_step c mc ss)\<^sup>*\<^sup>* p q"
  shows "session_inv c mc ss q \<and> (chain_step (mc # ss))\<^sup>*\<^sup>* (chain_abs c (mc # ss) p) (chain_abs c (mc # ss) q)"
  using cr.run_refines [OF assms(2,1)] .

theorem session_refines_chain_witness:
  "\<exists>st q. proxy_send write_env 2 demo_session = Inr (st, q) \<and> session_inv 1 2 [3] q \<and>
     (chain_step [2, 3])\<^sup>*\<^sup>* (chain_abs 1 [2, 3] demo_session) (chain_abs 1 [2, 3] q)"
  using demo_step session_refines_chain [OF demo_inv(1)] by blast

text \<open>A client that connects gets a chain: when the datalet file describes a master and as many slaves as
  there are replicas, accept_client leaves a session whose master and slaves are in chain order, with
  empty queues, paired in ms_map under the master of this client.\<close>

theorem accept_establishes_chain:
  assumes "proxy_wf p" "chain_mode p" "one_shard p" "accept_client e p = Inr q"
  shows "\<exists>mc ss. session_inv (next_lid p) mc ss q \<and> length ss = nat (replicas p) \<and>
     chain_ok (mc # ss) (chain_abs (next_lid p) (mc # ss) q)"
  using assms by (rule accept_client_session)

theorem accept_establishes_chain_witness:
  "\<exists>q mc ss. accept_client accept_env demo_proxy = Inr q \<and> session_inv 1 mc ss q \<and> length ss = 1 \<and>
     chain_ok (mc # ss) (chain_abs 1 (mc # ss) q)"
proof -
  obtain q where q: "accept_client accept_env demo_proxy = Inr q" using demo_accept by blast
  have "chain_mode demo_proxy" "one_shard demo_proxy" "next_lid demo_proxy = 1" "replicas demo_proxy = 1"
    by (simp_all add: chain_mode_def one_shard_def demo_proxy_def demo_node_def blank_proxy_def)
  then show ?thesis using accept_establishes_chain [OF demo_wf(1) _ _ q] q by auto
qed







end
