(* ===== verification/Kafka_Replay.thy ===== *)
theory Kafka_Replay
  imports Chain_Refinement
begin

text \<open>
  The threads of src/src/net.cpp that feed a datalet from the Kafka log: consume_kafka, which keeps
  a datalet up to date under eventual consistency, recover_kafka, which brings a restarted datalet
  up to date, and batch_loop_eventual, their predecessor without Kafka; and which of them batch_loop
  starts. The Kafka client is not part of the sources: the messages its consume call returns are an
  input. The lemmas show what reaches the datalet, in terms of the log.
\<close>

unbundle bit_operations_syntax

section \<open>Threads\<close>

text \<open>
  A message as consume returns it. err() is set for errors, end of partition and time-out; the
  threads only look at the payload.
\<close>

record kmessage =
  km_err :: bool
  km_payload :: string

text \<open>
  The state of such a thread. In rp_proxy the field fdes is the registry of the thread, fdes_rpl or
  fdes_recover; otherwise the thread touches only its own connection and ev_counter. rp_kafka are
  the messages that consume is going to return.
\<close>

record replayer =
  rp_proxy :: proxy
  rp_kafka :: "kmessage list"
  rp_count :: int

text \<open>A thread runs, waits inside consume for a message that has not come yet, or has returned.\<close>

datatype rp_run = Running | Waiting | Returned rstatus

section \<open>Connections\<close>

definition replay_conn :: "env \<Rightarrow> int option \<Rightarrow> DumbNode \<Rightarrow> proxy \<Rightarrow> (lid \<times> proxy) res" where
  "replay_conn e a node p =
     (case get_conn e p of (s, p1) \<Rightarrow>
      rbind (connect_conn a (n_addr node) (n_port node) s p1) (\<lambda>(st, p2).
      if st \<noteq> CO_OK then Inl Exit_failure else Inr (s, upd_link s (\<lambda>l. l\<lparr>l_noblock := True\<rparr>) p2)))"

text \<open>Whether a datalet of the table is the one this proxy feeds.\<close>

definition is_local :: "proxy \<Rightarrow> DumbNode \<Rightarrow> bool" where
  "is_local p node \<longleftrightarrow> topology p = Slave \<or> (topology p = Ms \<and> n_role node = Master_t)"

text \<open>get_connection_to_local_dumbnode runs off its end without a value when there is none.\<close>

fun local_dumbnode :: "env \<Rightarrow> (string \<times> DumbNode) list \<Rightarrow> proxy \<Rightarrow> (lid \<times> proxy) res" where
  "local_dumbnode e [] p = Inl Uninitialised"
| "local_dumbnode e (it # its) p =
     (if is_local p (snd it) then replay_conn e (fst (next_conn (e_conns e))) (snd it) p else local_dumbnode e its p)"

definition get_connection_to_local_dumbnode :: "env \<Rightarrow> proxy \<Rightarrow> (lid \<times> proxy) res" where
  "get_connection_to_local_dumbnode e p = local_dumbnode e (dumb_map p) p"

text \<open>
  The loops at the beginning of consume_kafka and recover_kafka open a connection for every matching
  datalet and keep the last one; sc is the variable server_conn, without a value before the first.
  consume_kafka returns CO_ERR, here None, in a topology it does not serve.
\<close>

fun consume_open :: "env \<Rightarrow> int option list \<Rightarrow> (string \<times> DumbNode) list \<Rightarrow> lid option \<Rightarrow> proxy \<Rightarrow> (lid option option \<times> proxy) res" where
  "consume_open e as [] sc p = Inr (Some sc, p)"
| "consume_open e as (it # its) sc p =
     (if topology p = Slave \<or> topology p = Aa then
        (case next_conn as of (a, as') \<Rightarrow>
         rbind (replay_conn e a (snd it) p) (\<lambda>(s, p1). consume_open e as' its (Some s) p1))
      else Inr (None, p))"

fun recover_open :: "env \<Rightarrow> int option list \<Rightarrow> (string \<times> DumbNode) list \<Rightarrow> lid option \<Rightarrow> proxy \<Rightarrow> (lid option \<times> proxy) res" where
  "recover_open e as [] sc p = Inr (sc, p)"
| "recover_open e as (it # its) sc p =
     (if topology p = Slave \<or> ((topology p = Ms \<or> topology p = Aa) \<and> n_role (snd it) = Master_t) then
        (case next_conn as of (a, as') \<Rightarrow>
         rbind (replay_conn e a (snd it) p) (\<lambda>(s, p1). recover_open e as' its (Some s) p1))
      else recover_open e as its sc p)"

section \<open>Messages from the log\<close>

text \<open>The request that is made of a message, and its place in the queue of the connection c.\<close>

definition kafka_request :: "env \<Rightarrow> kmessage \<Rightarrow> buffer res" where
  "kafka_request e k = rbind (b_append (e_ok e) (km_payload k) (Buffer_new (length (km_payload k)))) (\<lambda>(r, b). Inr b)"

definition enqueue :: "env \<Rightarrow> lid \<Rightarrow> buffer \<Rightarrow> proxy \<Rightarrow> proxy res" where
  "enqueue e c b p = (case add_msg (message_new b) p of (m, p1) \<Rightarrow> forward e c m p1)"

text \<open>The loops repeat1 and repeat2: messages without payload are skipped; None when consume has not returned.\<close>

fun consume_next :: "env \<Rightarrow> kmessage list \<Rightarrow> (buffer \<times> kmessage list) option res" where
  "consume_next e [] = Inr None"
| "consume_next e (k # ks) =
     rbind (kafka_request e k) (\<lambda>b. if km_payload k = [] then consume_next e ks else Inr (Some (b, ks)))"

definition consume_push :: "env \<Rightarrow> lid \<Rightarrow> replayer \<Rightarrow> (rp_run \<times> replayer) res" where
  "consume_push e c s =
     rbind (consume_next e (rp_kafka s)) (\<lambda>r.
     case r of
       None \<Rightarrow> Inr (Waiting, s\<lparr>rp_kafka := []\<rparr>)
     | Some (b, ks) \<Rightarrow> rbind (enqueue e c b (rp_proxy s)) (\<lambda>p. Inr (Running, s\<lparr>rp_proxy := p, rp_kafka := ks\<rparr>)))"

text \<open>In recover_kafka a message without payload ends the recovery, and the connection is deleted.\<close>

definition recover_push :: "env \<Rightarrow> lid \<Rightarrow> replayer \<Rightarrow> (rp_run \<times> replayer) res" where
  "recover_push e c s =
     (case rp_kafka s of
        [] \<Rightarrow> Inr (Waiting, s)
      | k # ks \<Rightarrow>
          rbind (kafka_request e k) (\<lambda>b.
          if km_payload k = [] then
            Inr (Returned CO_OK, s\<lparr>rp_proxy := (rp_proxy s)\<lparr>links := (links (rp_proxy s))(c := None)\<rparr>, rp_kafka := ks\<rparr>)
          else rbind (enqueue e c b (rp_proxy s)) (\<lambda>p. Inr (Running, s\<lparr>rp_proxy := p, rp_kafka := ks\<rparr>))))"

section \<open>Events\<close>

text \<open>The connection is writable: the next request is sent, or the event is cleared.\<close>

definition replay_send :: "env \<Rightarrow> lid \<Rightarrow> mid \<Rightarrow> proxy \<Rightarrow> (rp_run \<times> proxy) res" where
  "replay_send e c m p =
     rbind (get_link p c) (\<lambda>l. rbind (get_msg p m) (\<lambda>x.
     rbind (msg_send (l_noblock l) (e_wr e) (m_buf x)) (\<lambda>(len, b, out, ws).
     let p1 = put_wire c out (upd_msg m (\<lambda>x. x\<lparr>m_buf := b\<rparr>) p) in
     if len \<le> 0 then Inr (Returned CO_ERR, upd_link c mark_error p1)
     else rbind (set_event e c FDEVENT_IN p1) (\<lambda>p2. Inr (Running, p2)))))"

definition replay_out :: "env \<Rightarrow> lid \<Rightarrow> proxy \<Rightarrow> (rp_run \<times> proxy) res" where
  "replay_out e c p =
     rbind (get_link p c) (\<lambda>l.
     case l_imsg_q l of
       [] \<Rightarrow> rbind (idle_out e c p) (\<lambda>(st, p1). Inr (Running, p1))
     | m # ms \<Rightarrow> replay_send e c m (upd_link c (\<lambda>l. l\<lparr>l_imsg_q := ms\<rparr>) p))"

text \<open>The connection is readable: a response is read and dropped, and the next message is fetched.\<close>

definition consume_in :: "env \<Rightarrow> lid \<Rightarrow> replayer \<Rightarrow> (rp_run \<times> replayer) res" where
  "consume_in e c s =
     rbind (read_msg e c (rp_proxy s)) (\<lambda>(r, p1).
     if r = None then
       let n = rp_count s + 1 in
       CHECK (n < 5) (Inr (Running, s\<lparr>rp_proxy := upd_link c mark_error p1, rp_count := n\<rparr>))
     else consume_push e c (s\<lparr>rp_proxy := p1\<rparr>))"

definition recover_in :: "env \<Rightarrow> lid \<Rightarrow> replayer \<Rightarrow> (rp_run \<times> replayer) res" where
  "recover_in e c s =
     rbind (read_msg e c (rp_proxy s)) (\<lambda>(r, p1).
     if r = None then Inr (Running, s\<lparr>rp_proxy := upd_link c mark_error p1, rp_count := rp_count s + 1\<rparr>)
     else recover_push e c (s\<lparr>rp_proxy := p1\<rparr>))"

definition replay_event :: "(env \<Rightarrow> lid \<Rightarrow> replayer \<Rightarrow> (rp_run \<times> replayer) res) \<Rightarrow> env \<Rightarrow> Fdevent \<Rightarrow> replayer \<Rightarrow> (rp_run \<times> replayer) res" where
  "replay_event inp e fde s =
     (if fe_events fde AND FDEVENT_IN \<noteq> 0 then rbind (deref (data_ptr fde)) (\<lambda>c. inp e c s)
      else if fe_events fde AND FDEVENT_OUT \<noteq> 0 then
        rbind (deref (data_ptr fde)) (\<lambda>c. rbind (replay_out e c (rp_proxy s)) (\<lambda>(r, p). Inr (r, s\<lparr>rp_proxy := p\<rparr>)))
      else Inr (Running, s))"

text \<open>One round of while(1): the events that are ready, in order, until the thread returns or waits.\<close>

fun replay_events :: "(env \<Rightarrow> lid \<Rightarrow> replayer \<Rightarrow> (rp_run \<times> replayer) res) \<Rightarrow> (nat \<Rightarrow> env) \<Rightarrow> nat \<Rightarrow> int list \<Rightarrow> replayer \<Rightarrow> (rp_run \<times> replayer) res" where
  "replay_events inp envs i [] s = Inr (Running, s)"
| "replay_events inp envs i (fd # fds) s =
     (let evs = ep_events (fdes (rp_proxy s)) in
      if fd < 0 \<or> int (length evs) \<le> fd then Inl Out_of_bounds
      else rbind (replay_event inp (envs i) (evs ! nat fd) s) (\<lambda>(r, s1).
        if r = Running then replay_events inp envs (Suc i) fds s1 else Inr (r, s1)))"

definition replay_round :: "(env \<Rightarrow> lid \<Rightarrow> replayer \<Rightarrow> (rp_run \<times> replayer) res) \<Rightarrow> ep_result \<Rightarrow> (nat \<Rightarrow> env) \<Rightarrow> replayer \<Rightarrow> (rp_run \<times> replayer) res" where
  "replay_round inp r envs s =
     rbind (fdes_wait r (fdes (rp_proxy s))) (\<lambda>(evs, f).
     let s1 = s\<lparr>rp_proxy := (rp_proxy s)\<lparr>fdes := f\<rparr>\<rparr> in
     case evs of
       None \<Rightarrow> Inr (Returned CO_ERR, s1)
     | Some fs \<Rightarrow> replay_events inp envs 0 (map fe_fd fs) s1)"

fun replay_loop :: "(env \<Rightarrow> lid \<Rightarrow> replayer \<Rightarrow> (rp_run \<times> replayer) res) \<Rightarrow> (ep_result \<times> (nat \<Rightarrow> env)) list \<Rightarrow> replayer \<Rightarrow> (rp_run \<times> replayer) res" where
  "replay_loop inp [] s = Inr (Running, s)"
| "replay_loop inp ((r, envs) # rs) s =
     rbind (replay_round inp r envs s) (\<lambda>(x, s1). if x = Running then replay_loop inp rs s1 else Inr (x, s1))"

section \<open>The threads\<close>

text \<open>What happens before the loop; the registry of the thread is new.\<close>

definition consume_start :: "env \<Rightarrow> kmessage list \<Rightarrow> proxy \<Rightarrow> (rp_run \<times> replayer) res" where
  "consume_start e ks p =
     rbind (consume_open e (e_conns e) (dumb_map p) None (p\<lparr>fdes := Fdevents_new\<rparr>)) (\<lambda>(r, p1).
     case r of
       None \<Rightarrow> Inr (Returned CO_ERR, \<lparr>rp_proxy = p1, rp_kafka = ks, rp_count = 1\<rparr>)
     | Some None \<Rightarrow> Inl Uninitialised
     | Some (Some c) \<Rightarrow> rbind (set_event e c FDEVENT_OUT p1) (\<lambda>p2. consume_push e c \<lparr>rp_proxy = p2, rp_kafka = ks, rp_count = 1\<rparr>))"

definition recover_start :: "env \<Rightarrow> kmessage list \<Rightarrow> proxy \<Rightarrow> (rp_run \<times> replayer) res" where
  "recover_start e ks p =
     rbind (recover_open e (e_conns e) (dumb_map p) None (p\<lparr>fdes := Fdevents_new\<rparr>)) (\<lambda>(r, p1).
     case r of
       None \<Rightarrow> Inl Uninitialised
     | Some c \<Rightarrow> rbind (set_event e c FDEVENT_OUT p1) (\<lambda>p2. recover_push e c \<lparr>rp_proxy = p2, rp_kafka = ks, rp_count = 1\<rparr>))"

definition consume_kafka :: "env \<Rightarrow> kmessage list \<Rightarrow> (ep_result \<times> (nat \<Rightarrow> env)) list \<Rightarrow> proxy \<Rightarrow> (rp_run \<times> replayer) res" where
  "consume_kafka e ks rounds p =
     rbind (consume_start e ks p) (\<lambda>(r, s). if r = Running then replay_loop consume_in rounds s else Inr (r, s))"

definition recover_kafka :: "env \<Rightarrow> kmessage list \<Rightarrow> (ep_result \<times> (nat \<Rightarrow> env)) list \<Rightarrow> proxy \<Rightarrow> (rp_run \<times> replayer) res" where
  "recover_kafka e ks rounds p =
     rbind (recover_start e ks p) (\<lambda>(r, s). if r = Running then replay_loop recover_in rounds s else Inr (r, s))"

text \<open>
  batch_loop_eventual: here the request that was sent moves to omsg_q and every response removes
  one. The messages come from other connections, so there is nothing to fetch.
\<close>

definition eventual_in :: "env \<Rightarrow> lid \<Rightarrow> proxy \<Rightarrow> proxy res" where
  "eventual_in e c p =
     rbind (read_msg e c p) (\<lambda>(r, p1).
     if r = None then Inr (upd_link c mark_error p1)
     else rbind (get_link p1 c) (\<lambda>l. CHECK (l_omsg_q l \<noteq> []) (Inr (upd_link c (\<lambda>l. l\<lparr>l_omsg_q := tl (l_omsg_q l)\<rparr>) p1))))"

definition eventual_send :: "env \<Rightarrow> lid \<Rightarrow> mid \<Rightarrow> proxy \<Rightarrow> (rp_run \<times> proxy) res" where
  "eventual_send e c m p =
     rbind (get_link p c) (\<lambda>l. rbind (get_msg p m) (\<lambda>x.
     rbind (msg_send (l_noblock l) (e_wr e) (m_buf x)) (\<lambda>(len, b, out, ws).
     let p1 = put_wire c out (upd_msg m (\<lambda>x. x\<lparr>m_buf := b\<rparr>) p) in
     if len \<le> 0 then Inr (Returned CO_ERR, upd_link c mark_error p1)
     else rbind (set_event e c FDEVENT_IN (push_omsg c m p1)) (\<lambda>p2. Inr (Running, p2)))))"

definition eventual_event :: "env \<Rightarrow> Fdevent \<Rightarrow> proxy \<Rightarrow> (rp_run \<times> proxy) res" where
  "eventual_event e fde p =
     (if fe_events fde AND FDEVENT_IN \<noteq> 0 then
        rbind (deref (data_ptr fde)) (\<lambda>c. rbind (eventual_in e c p) (\<lambda>p1. Inr (Running, p1)))
      else if fe_events fde AND FDEVENT_OUT \<noteq> 0 then
        rbind (deref (data_ptr fde)) (\<lambda>c. rbind (get_link p c) (\<lambda>l.
        case l_imsg_q l of
          [] \<Rightarrow> rbind (idle_out e c p) (\<lambda>(st, p1). Inr (Running, p1))
        | m # ms \<Rightarrow> eventual_send e c m (upd_link c (\<lambda>l. l\<lparr>l_imsg_q := ms\<rparr>) p)))
      else Inr (Running, p))"

fun eventual_events :: "(nat \<Rightarrow> env) \<Rightarrow> nat \<Rightarrow> int list \<Rightarrow> proxy \<Rightarrow> (rp_run \<times> proxy) res" where
  "eventual_events envs i [] p = Inr (Running, p)"
| "eventual_events envs i (fd # fds) p =
     (let evs = ep_events (fdes p) in
      if fd < 0 \<or> int (length evs) \<le> fd then Inl Out_of_bounds
      else rbind (eventual_event (envs i) (evs ! nat fd) p) (\<lambda>(r, p1).
        if r = Running then eventual_events envs (Suc i) fds p1 else Inr (r, p1)))"

fun batch_loop_eventual :: "(ep_result \<times> (nat \<Rightarrow> env)) list \<Rightarrow> proxy \<Rightarrow> (rp_run \<times> proxy) res" where
  "batch_loop_eventual [] p = Inr (Running, p)"
| "batch_loop_eventual ((r, envs) # rs) p =
     rbind (fdes_wait r (fdes p)) (\<lambda>(evs, f).
     case evs of
       None \<Rightarrow> Inr (Returned CO_ERR, p\<lparr>fdes := f\<rparr>)
     | Some fs \<Rightarrow>
         rbind (eventual_events envs 0 (map fe_fd fs) (p\<lparr>fdes := f\<rparr>)) (\<lambda>(x, p1).
         if x = Running then batch_loop_eventual rs p1 else Inr (x, p1)))"

text \<open>The threads batch_loop starts before its own loop.\<close>

datatype thread_kind = Lazy_consumer | Fault_handler

definition batch_loop_threads :: "proxy \<Rightarrow> thread_kind list" where
  "batch_loop_threads p =
     (if (consistency_model p = Eventual \<and> topology p = Slave) \<or> (consistency_model p = Eventual \<and> topology p = Aa) then
        (if \<not> is_master_proxy p then [Lazy_consumer] else []) @
        (if is_master_proxy p \<and> consistency_model p = Eventual \<and> topology p = Aa then [Lazy_consumer] else [])
      else []) @
     (if recovery p then
        (if topology p = Ms \<or> topology p = Slave then
           (if consistency_model p = Strong then
              (if is_master_proxy p then [Fault_handler] else []) @ (if \<not> is_master_proxy p then [Fault_handler] else [])
            else []) @
           (if consistency_model p = Eventual then (if is_master_proxy p then [Fault_handler] else []) else [])
         else []) @
        (if topology p = Aa then [Fault_handler] else [])
      else [])"

section \<open>The registry of a thread\<close>

definition owns :: "lid \<Rightarrow> Fdevents \<Rightarrow> bool" where
  "owns c f \<longleftrightarrow> (\<forall>x\<in>set (ep_events f). data_ptr x = None \<or> data_ptr x = Some c)"

lemma owns_new [simp]: "owns c Fdevents_new"
  by (simp add: owns_def Fdevents_new_def)

lemma owns_update: "owns c f \<Longrightarrow> data_ptr x = None \<or> data_ptr x = Some c \<Longrightarrow> owns c (f\<lparr>ep_events := (ep_events f)[i := x]\<rparr>)"
  unfolding owns_def using set_update_subset_insert [of "ep_events f" i x] by auto

lemma get_fde_owns:
  assumes "owns c f" "get_fde (ep_events f) fd = Inr (x, evs)"
  shows "(data_ptr x = None \<or> data_ptr x = Some c) \<and> owns c (f\<lparr>ep_events := evs\<rparr>)"
proof -
  have fd: "\<not> fd < 0" and e: "evs = ep_events f @ map fde_new [length (ep_events f) ..< nat fd + 1]" "x = evs ! nat fd"
    using assms(2) by (auto simp: get_fde_def Let_def split: if_splits)
  have o: "owns c (f\<lparr>ep_events := evs\<rparr>)" using assms(1) e(1) by (auto simp: owns_def fde_new_def)
  moreover have "x \<in> set evs" unfolding e using get_fde_nth [OF fd] .
  ultimately show ?thesis by (auto simp: owns_def)
qed

lemma owns_changed:
  assumes "owns c f" "get_fde (ep_events f) fd = Inr (x, evs)" "ep_events g = evs \<or> ep_events g = evs[i := y]"
    "data_ptr y = data_ptr x \<or> data_ptr y = Some c"
  shows "owns c g"
proof -
  have o: "data_ptr x = None \<or> data_ptr x = Some c" "owns c (f\<lparr>ep_events := evs\<rparr>)" using get_fde_owns [OF assms(1,2)] by auto
  have "owns c (f\<lparr>ep_events := evs[i := y]\<rparr>)" using owns_update [OF o(2), of y i] o(1) assms(4) by auto
  then show ?thesis using o(2) assms(3) by (auto simp: owns_def)
qed

lemma fdes_set_owns:
  assumes "owns c f" "fdes_set kok fd flags num (Some c) f = Inr (r, g)"
  shows "owns c g"
proof -
  obtain x evs where x: "get_fde (ep_events f) fd = Inr (x, evs)" using assms(2) by (auto simp: fdes_set_def rbind_eq_Inr)
  have "ep_events g = evs \<or> ep_events g = evs[nat fd := x\<lparr>s_flags := s_flags x OR flags, data_num := num, data_ptr := Some c\<rparr>]"
    using assms(2) x by (auto simp: fdes_set_def Let_def split: if_splits option.splits)
  then show ?thesis using owns_changed [OF assms(1) x] by simp
qed

lemma fdes_clr_owns:
  assumes "owns c f" "fdes_clr kok fd flags f = Inr (r, g)"
  shows "owns c g"
proof -
  obtain x evs where x: "get_fde (ep_events f) fd = Inr (x, evs)" using assms(2) by (auto simp: fdes_clr_def rbind_eq_Inr)
  have "ep_events g = evs \<or> ep_events g = evs[nat fd := x\<lparr>s_flags := s_flags x AND NOT flags\<rparr>]"
    using assms(2) x by (auto simp: fdes_clr_def Let_def split: if_splits option.splits)
  then show ?thesis using owns_changed [OF assms(1) x] by simp
qed

lemma mark_ready_owns:
  assumes "owns c f" "mark_ready x f = Inr (y, g)"
  shows "owns c g"
proof -
  obtain fd ev where x: "x = (fd, ev)" by fastforce
  have b: "\<not> (fd < 0 \<or> int (length (ep_events f)) \<le> fd)" and
    g: "g = f\<lparr>ep_events := (ep_events f)[nat fd := (ep_events f ! nat fd)\<lparr>fe_events := ready_flags ev\<rparr>]\<rparr>"
    using assms(2) by (auto simp: mark_ready_def x Let_def split: if_splits)
  have "ep_events f ! nat fd \<in> set (ep_events f)" using b by (intro nth_mem) linarith
  then show ?thesis unfolding g using assms(1) by (intro owns_update) (auto simp: owns_def)
qed

lemma mark_all_ready_owns: "owns c f \<Longrightarrow> mark_all_ready xs f = Inr (ys, g) \<Longrightarrow> owns c g"
  by (induction xs arbitrary: f ys) (auto simp: rbind_eq_Inr dest: mark_ready_owns)

lemma fdes_wait_owns: "owns c f \<Longrightarrow> fdes_wait r f = Inr (evs, g) \<Longrightarrow> owns c g"
  by (auto simp: fdes_wait_def rbind_eq_Inr split: ep_result.splits dest: mark_all_ready_owns)

lemma event_owns:
  "owns c (fdes p) \<Longrightarrow> set_event e c flag p = Inr q \<Longrightarrow> owns c (fdes q)"
  "owns c (fdes p) \<Longrightarrow> clr_event e c flag p = Inr q \<Longrightarrow> owns c (fdes q)"
  by (auto simp: set_event_def clr_event_def rbind_eq_Inr dest: fdes_set_owns fdes_clr_owns)

section \<open>What the datalet is fed\<close>

text \<open>A request that waits to be sent, and the requests ss that were sent on the connection c or wait there.\<close>

definition pending :: "message \<Rightarrow> bool" where
  "pending y \<longleftrightarrow> b_inv (m_buf y) \<and> b_data (m_buf y) = 0 \<and> b_contents (m_buf y) \<noteq> []"

definition feeds :: "lid \<Rightarrow> proxy \<Rightarrow> string list \<Rightarrow> bool" where
  "feeds c p ss \<longleftrightarrow> links p c \<noteq> None \<and> owns c (fdes p) \<and>
     (\<forall>m\<in>set (imsg p c). m < next_mid p \<and> (\<exists>y. msgs p m = Some y \<and> pending y)) \<and>
     sent p c @ map (content p) (imsg p c) = ss"

lemma feeds_quiet: "feeds c p ss \<Longrightarrow> quiet p q \<Longrightarrow> owns c (fdes q) \<Longrightarrow> feeds c q ss"
  by (simp add: feeds_def view_quiet [of p q]) (simp add: quiet_def content_def [abs_def])

lemma feeds_error: "feeds c p ss \<Longrightarrow> feeds c (upd_link c mark_error p) ss"
  by (simp add: feeds_def) (auto simp: upd_link_def content_def [abs_def])

lemma content_add_msg:
  assumes "add_msg x p = (m, q)"
  shows "m = next_mid p" "k < next_mid p \<Longrightarrow> content q k = content p k" "content q m = b_contents (m_buf x)" "imsg q = imsg p" "sent q = sent p" "links q = links p"
    "msgs q = (msgs p)(m \<mapsto> x)" "fdes q = fdes p" "next_mid q = Suc (next_mid p)"
  using assms by (auto simp: add_msg_def content_def imsg_def sent_def fun_eq_iff)

lemma feeds_add_msg:
  assumes "feeds c p ss" "add_msg x p = (m, q)"
  shows "feeds c q ss"
proof -
  note a = content_add_msg [OF assms(2)]
  have "map (content q) (imsg p c) = map (content p) (imsg p c)"
    using assms(1) by (intro map_cong refl a(2)) (auto simp: feeds_def)
  then show ?thesis using assms(1) by (auto simp: feeds_def a)
qed

lemma feeds_read:
  assumes "feeds c p ss" "read_msg e c p = Inr (r, q)"
  shows "feeds c q ss"
proof -
  have "q = p \<or> (\<exists>b. q = with_msg b p)" using read_msg_effect [OF assms(2)] by blast
  moreover have "feeds c (with_msg b p) ss" for b using feeds_add_msg [OF assms(1)] by (simp add: add_msg_def with_msg_def)
  ultimately show ?thesis using assms(1) by blast
qed

lemma feeds_enqueue:
  assumes "feeds c p ss" "pending (message_new b)" "enqueue e c b p = Inr q"
  shows "feeds c q (ss @ [b_contents b])"
proof -
  obtain m p1 where a: "add_msg (message_new b) p = (m, p1)" by fastforce
  note v = content_add_msg [OF a]
  obtain p2 where p2: "notify_out e c p1 = Inr p2" "q = push_imsg c m p2" using assms(3) a by (auto simp: enqueue_def forward_def rbind_eq_Inr)
  obtain l where l: "links p c = Some l" using assms(1) by (auto simp: feeds_def)
  have f1: "feeds c p1 ss" using feeds_add_msg [OF assms(1) a] .
  have q: "quiet p1 p2" using notify_out_effect [OF p2(1)] .
  have o: "owns c (fdes p1)" using f1 by (simp add: feeds_def)
  have o2: "owns c (fdes p2)" using p2(1) o by (auto simp: notify_out_def rbind_eq_Inr dest: event_owns(1) split: if_splits)
  have f2: "feeds c p2 ss" using feeds_quiet [OF f1 q o2] .
  have l2: "links p2 c = Some l" "msgs p2 m = Some (message_new b)" "next_mid p2 = Suc (next_mid p)" using q l v by (simp_all add: quiet_def)
  have "content p2 m = b_contents b" using l2(2) by (simp add: content_def message_new_def)
  moreover have "content (push_imsg c m p2) = content p2" "fdes (push_imsg c m p2) = fdes p2" "next_mid (push_imsg c m p2) = next_mid p2"
    by (simp_all add: push_imsg_def upd_link_def content_def fun_eq_iff)
  ultimately show ?thesis
    using f2 l2 assms(2) v(1) unfolding p2(2) feeds_def by (auto simp: view_push(1) [OF l2(1)] view_push(5,7)) (simp_all add: push_imsg_def upd_link_def)
qed

lemma feeds_send:
  assumes "feeds c p ss" "imsg p c = m # ms" "full_write e"
    "replay_send e c m (upd_link c (\<lambda>l. l\<lparr>l_imsg_q := ms\<rparr>) p) = Inr (r, q)"
  shows "r = Running \<and> feeds c q ss"
proof -
  let ?p1 = "upd_link c (\<lambda>l. l\<lparr>l_imsg_q := ms\<rparr>) p"
  obtain l where l: "links p c = Some l" using assms(1) by (auto simp: feeds_def)
  obtain y where y: "msgs p m = Some y" "pending y" using assms(1,2) by (auto simp: feeds_def)
  obtain n where n: "e_wr e = [Wr_take n]" "2 ^ 31 \<le> n" using assms(3) unfolding full_write_def by blast
  have g: "get_link ?p1 c = Inr (l\<lparr>l_imsg_q := ms\<rparr>)" "get_msg ?p1 m = Inr y"
    using l y by (simp_all add: get_link_def get_msg_def upd_link_def)
  obtain len b out ws where s: "msg_send (l_noblock l) [Wr_take n] (m_buf y) = Inr (len, b, out, ws)" and
    r: "(let p1 = put_wire c out (upd_msg m (\<lambda>x. x\<lparr>m_buf := b\<rparr>) ?p1) in
      if len \<le> 0 then Inr (Returned CO_ERR, upd_link c mark_error p1)
      else rbind (set_event e c FDEVENT_IN p1) (\<lambda>p2. Inr (Running, p2))) = Inr (r, q)"
    using assms(4) unfolding replay_send_def g n(1) by (auto simp: rbind_eq_Inr)
  have full: "len > 0" "out = b_contents (m_buf y)" "b_inv b" "b_data b = 0" "b_contents b = b_contents (m_buf y)"
    using msg_send_full [OF _ _ _ n(2) s] y(2) by (auto simp: pending_def)
  let ?r = "put_wire c out (upd_msg m (\<lambda>x. x\<lparr>m_buf := b\<rparr>) ?p1)"
  have e: "set_event e c FDEVENT_IN ?r = Inr q" "r = Running" using r full(1) by (auto simp: Let_def rbind_eq_Inr)
  have ct: "content ?r k = content p k" for k using y(1) full(5) by (auto simp: content_def upd_link_def)
  have fd: "fdes ?r = fdes p" "next_mid ?r = next_mid p" by (simp_all add: put_wire_def upd_msg_def upd_link_def)
  have "feeds c ?r ss" using assms(1,2) l y full unfolding feeds_def fd ct [abs_def]
    by (auto simp: imsg_link [OF l] view_upd_link links_upd_link pending_def) (auto simp: content_def)
  moreover have "owns c (fdes q)" using event_owns(1) [OF _ e(1)] assms(1) fd by (simp add: feeds_def)
  ultimately show ?thesis using feeds_quiet event_effect(1) [OF e(1)] e(2) by blast
qed

lemma feeds_out:
  assumes "feeds c p ss" "full_write e" "replay_out e c p = Inr (r, q)"
  shows "r = Running \<and> feeds c q ss"
proof -
  obtain l where l: "links p c = Some l" using assms(1) by (auto simp: feeds_def)
  show ?thesis
  proof (cases "l_imsg_q l")
    case Nil
    then obtain st p1 where p1: "idle_out e c p = Inr (st, p1)" "r = Running" "q = p1"
      using assms(3) l by (auto simp: replay_out_def get_link_def rbind_eq_Inr)
    have "owns c (fdes q)" using p1(1,3) assms(1) by (auto simp: idle_out_def rbind_eq_Inr feeds_def dest: event_owns(2))
    then show ?thesis using feeds_quiet [OF assms(1) idle_out_effect [OF p1(1)]] p1 by blast
  next
    case (Cons m ms)
    then show ?thesis using feeds_send [OF assms(1) _ assms(2), of m ms] assms(3) l imsg_link [OF l] by (simp add: replay_out_def get_link_def)
  qed
qed

text \<open>
  The invariant of a thread that feeds the connection c from the log: the messages used so far, and
  only these, were sent or wait to be sent, apart from those without payload. ok restricts what may
  have been used. A recovery that ended may have left the last requests unsent.
\<close>

definition payloads :: "kmessage list \<Rightarrow> string list" where
  "payloads ks = map km_payload ks"

definition replayed :: "(string list \<Rightarrow> bool) \<Rightarrow> lid \<Rightarrow> kmessage list \<Rightarrow> replayer \<Rightarrow> bool" where
  "replayed ok c log s \<longleftrightarrow>
     (\<exists>used. log = used @ rp_kafka s \<and> ok (payloads used) \<and> feeds c (rp_proxy s) (filter (\<lambda>x. x \<noteq> []) (payloads used)))"

definition recovered :: "lid \<Rightarrow> kmessage list \<Rightarrow> replayer \<Rightarrow> bool" where
  "recovered c log s \<longleftrightarrow> prefix (sent (rp_proxy s) c) (takeWhile (\<lambda>x. x \<noteq> []) (payloads log)) \<and>
     (\<exists>k\<in>set log. km_payload k = [])"

definition small :: "kmessage list \<Rightarrow> bool" where
  "small ks \<longleftrightarrow> (\<forall>k\<in>set ks. length (km_payload k) < 2 ^ 31)"

lemma payloads_simps [simp]:
  "payloads [] = []" "payloads (k # ks) = km_payload k # payloads ks" "payloads (ks @ ls) = payloads ks @ payloads ls"
  by (simp_all add: payloads_def)

lemma small_append [simp]: "small (ks @ ls) \<longleftrightarrow> small ks \<and> small ls" "small (k # ks) \<longleftrightarrow> length (km_payload k) < 2 ^ 31 \<and> small ks"
  by (auto simp: small_def)

lemma replayed_fdes:
  assumes "replayed ok c log s" "owns c f"
  shows "replayed ok c log (s\<lparr>rp_proxy := (rp_proxy s)\<lparr>fdes := f\<rparr>\<rparr>)"
proof -
  have "feeds c ((rp_proxy s)\<lparr>fdes := f\<rparr>) ss" if "feeds c (rp_proxy s) ss" for ss
    by (rule feeds_quiet [OF that]) (simp_all add: quiet_def assms(2))
  then show ?thesis using assms(1) unfolding replayed_def by simp blast
qed

lemma kafka_request_pending:
  assumes "length (km_payload k) < 2 ^ 31" "kafka_request e k = Inr b"
  shows "b_contents b = km_payload k" "km_payload k \<noteq> [] \<Longrightarrow> pending (message_new b)"
  using append_exact [OF assms(1), of "e_ok e"] assms(2) by (auto simp: kafka_request_def pending_def message_new_def rbind_eq_Inr)

lemma consume_next_skips:
  "small ks \<Longrightarrow> consume_next e ks = Inr (Some (b, ks')) \<Longrightarrow>
     \<exists>used k. ks = used @ k # ks' \<and> (\<forall>u\<in>set used. km_payload u = []) \<and> km_payload k \<noteq> [] \<and> b_contents b = km_payload k \<and> pending (message_new b)"
proof (induction ks)
  case (Cons a ks)
  obtain b0 where b0: "kafka_request e a = Inr b0" using Cons.prems(2) by (auto simp: rbind_eq_Inr)
  show ?case
  proof (cases "km_payload a = []")
    case True
    then obtain used k where "ks = used @ k # ks'" "\<forall>u\<in>set used. km_payload u = []" "km_payload k \<noteq> []" "b_contents b = km_payload k" "pending (message_new b)"
      using Cons b0 by auto
    then show ?thesis using True by (intro exI [of _ "a # used"] exI [of _ k]) simp
  next
    case False
    then have "b = b0" "ks' = ks" using Cons.prems(2) b0 by auto
    then show ?thesis using False kafka_request_pending [OF _ b0] Cons.prems(1) by (intro exI [of _ "[]"] exI [of _ a]) simp
  qed
qed simp

lemma consume_next_none: "consume_next e ks = Inr None \<Longrightarrow> \<forall>k\<in>set ks. km_payload k = []"
  by (induction ks) (auto simp: rbind_eq_Inr split: if_splits)

lemma filter_ne_empty: "\<forall>u\<in>set used. km_payload u = [] \<Longrightarrow> filter (\<lambda>x. x \<noteq> []) (payloads used) = []"
  by (auto simp: payloads_def filter_empty_conv)

lemma consume_push_step:
  assumes "replayed (\<lambda>_. True) c log s" "small log" "consume_push e c s = Inr (r, s')"
  shows "r \<noteq> Returned CO_OK \<and> replayed (\<lambda>_. True) c log s'"
proof -
  obtain used where u: "log = used @ rp_kafka s" "feeds c (rp_proxy s) (filter (\<lambda>x. x \<noteq> []) (payloads used))"
    using assms(1) by (auto simp: replayed_def)
  have sm: "small (rp_kafka s)" using assms(2) u(1) by simp
  obtain o' where o: "consume_next e (rp_kafka s) = Inr o'" using assms(3) by (auto simp: consume_push_def rbind_eq_Inr)
  show ?thesis
  proof (cases o')
    case None
    then have "r = Waiting" "s' = s\<lparr>rp_kafka := []\<rparr>" using assms(3) o by (auto simp: consume_push_def)
    then show ?thesis using u consume_next_none [of e "rp_kafka s"] o None
      by (auto simp: replayed_def filter_ne_empty intro!: exI [of _ "used @ rp_kafka s"])
  next
    case (Some x)
    obtain b ks where x: "x = (b, ks)" by fastforce
    obtain sk k where k: "rp_kafka s = sk @ k # ks" "\<forall>u\<in>set sk. km_payload u = []" "km_payload k \<noteq> []" "b_contents b = km_payload k" "pending (message_new b)"
      using consume_next_skips [OF sm] o Some x by blast
    obtain p where p: "enqueue e c b (rp_proxy s) = Inr p" "r = Running" "s' = s\<lparr>rp_proxy := p, rp_kafka := ks\<rparr>"
      using assms(3) o Some x by (auto simp: consume_push_def rbind_eq_Inr)
    have "feeds c p (filter (\<lambda>x. x \<noteq> []) (payloads (used @ sk @ [k])))"
      using feeds_enqueue [OF u(2) k(5) p(1)] k by (simp add: filter_ne_empty)
    then show ?thesis using u(1) k(1) p(2,3) by (auto simp: replayed_def intro!: exI [of _ "used @ sk @ [k]"])
  qed
qed

abbreviation nonempty :: "string list \<Rightarrow> bool" where
  "nonempty xs \<equiv> [] \<notin> set xs"

lemma filter_nonempty: "nonempty xs \<Longrightarrow> filter (\<lambda>x. x \<noteq> []) xs = xs"
  by (rule filter_True) auto

lemma takeWhile_nonempty: "nonempty xs \<Longrightarrow> takeWhile (\<lambda>x. x \<noteq> []) (xs @ [] # ys) = xs"
  by (rule takeWhile_append_stop) auto

lemma recover_push_step:
  assumes "replayed nonempty c log s" "small log" "recover_push e c s = Inr (r, s')"
  shows "if r = Returned CO_OK then recovered c log s' else replayed nonempty c log s'"
proof (cases "rp_kafka s")
  case Nil
  then show ?thesis using assms(1,3) by (simp add: recover_push_def)
next
  case (Cons k ks)
  obtain used where u: "log = used @ k # ks" "nonempty (payloads used)" "feeds c (rp_proxy s) (payloads used)"
    using assms(1) Cons by (auto simp: replayed_def filter_nonempty)
  have k: "length (km_payload k) < 2 ^ 31" using assms(2) u(1) by simp
  obtain b where b: "kafka_request e k = Inr b" using assms(3) Cons by (auto simp: recover_push_def rbind_eq_Inr)
  show ?thesis
  proof (cases "km_payload k = []")
    case True
    then have r: "r = Returned CO_OK" "sent (rp_proxy s') c = sent (rp_proxy s) c" using assms(3) Cons b by (auto simp: recover_push_def sent_def)
    have "prefix (sent (rp_proxy s) c) (payloads used)" using u(3) unfolding feeds_def prefix_def by metis
    then show ?thesis using r u(1) True takeWhile_nonempty [OF u(2)] by (simp add: recovered_def)
  next
    case False
    then obtain p where p: "enqueue e c b (rp_proxy s) = Inr p" "r = Running" "s' = s\<lparr>rp_proxy := p, rp_kafka := ks\<rparr>"
      using assms(3) Cons b by (auto simp: recover_push_def rbind_eq_Inr)
    have "feeds c p (payloads (used @ [k]))" using feeds_enqueue [OF u(3) kafka_request_pending(2) [OF k b False] p(1)] kafka_request_pending(1) [OF k b] by simp
    then show ?thesis using u(1,2) False p(2,3) by (auto simp: replayed_def filter_nonempty intro!: exI [of _ "used @ [k]"])
  qed
qed

section \<open>Runs\<close>

text \<open>What both threads rely on: the handling of a readable connection keeps the invariant.\<close>

locale replay_input =
  fixes inp :: "env \<Rightarrow> lid \<Rightarrow> replayer \<Rightarrow> (rp_run \<times> replayer) res" and ok :: "string list \<Rightarrow> bool"
  assumes inp_step: "replayed ok c log s \<Longrightarrow> small log \<Longrightarrow> inp e c s = Inr (r, s') \<Longrightarrow>
    if r = Returned CO_OK then recovered c log s' else replayed ok c log s'"
begin

lemma event_step:
  assumes "replayed ok c log s" "small log" "full_write e" "data_ptr fde = None \<or> data_ptr fde = Some c" "replay_event inp e fde s = Inr (r, s')"
  shows "if r = Returned CO_OK then recovered c log s' else replayed ok c log s'"
proof (cases "fe_events fde AND FDEVENT_IN \<noteq> 0")
  case True
  then have "inp e c s = Inr (r, s')" using assms(4,5) by (auto simp: replay_event_def)
  then show ?thesis by (rule inp_step [OF assms(1,2)])
next
  case IN: False
  show ?thesis
  proof (cases "fe_events fde AND FDEVENT_OUT \<noteq> 0")
    case True
    then obtain p where p: "replay_out e c (rp_proxy s) = Inr (r, p)" "s' = s\<lparr>rp_proxy := p\<rparr>"
      using assms(4,5) IN by (auto simp: replay_event_def rbind_eq_Inr)
    have "r = Running" using assms(1) feeds_out [OF _ assms(3) p(1)] unfolding replayed_def by blast
    moreover have "replayed ok c log s'" using assms(1) feeds_out [OF _ assms(3) p(1)] unfolding replayed_def p(2) by simp blast
    ultimately show ?thesis by simp
  qed (use assms(1,5) IN in \<open>simp add: replay_event_def\<close>)
qed

lemma events_step:
  "replayed ok c log s \<Longrightarrow> small log \<Longrightarrow> \<forall>i. full_write (envs i) \<Longrightarrow> replay_events inp envs i fds s = Inr (r, s') \<Longrightarrow>
     if r = Returned CO_OK then recovered c log s' else replayed ok c log s'"
proof (induction fds arbitrary: i s)
  case (Cons fd fds)
  let ?evs = "ep_events (fdes (rp_proxy s))"
  have fd: "\<not> (fd < 0 \<or> int (length ?evs) \<le> fd)" using Cons.prems(4) by (auto simp: Let_def split: if_splits)
  obtain r1 s1 where r1: "replay_event inp (envs i) (?evs ! nat fd) s = Inr (r1, s1)"
    "(if r1 = Running then replay_events inp envs (Suc i) fds s1 else Inr (r1, s1)) = Inr (r, s')"
    using Cons.prems(4) fd by (auto simp: Let_def rbind_eq_Inr)
  have "?evs ! nat fd \<in> set ?evs" using fd by (intro nth_mem) linarith
  then have "data_ptr (?evs ! nat fd) = None \<or> data_ptr (?evs ! nat fd) = Some c"
    using Cons.prems(1) by (auto simp: replayed_def feeds_def owns_def)
  then have "if r1 = Returned CO_OK then recovered c log s1 else replayed ok c log s1"
    using event_step [OF Cons.prems(1,2) _ _ r1(1)] Cons.prems(3) by blast
  then show ?case using r1(2) Cons.IH [OF _ Cons.prems(2,3), of s1 "Suc i"] by (cases "r1 = Running") auto
qed simp

lemma round_step:
  assumes "replayed ok c log s" "small log" "\<forall>i. full_write (envs i)" "replay_round inp x envs s = Inr (r, s')"
  shows "if r = Returned CO_OK then recovered c log s' else replayed ok c log s'"
proof -
  obtain evs f where w: "fdes_wait x (fdes (rp_proxy s)) = Inr (evs, f)" using assms(4) by (auto simp: replay_round_def rbind_eq_Inr)
  let ?s = "s\<lparr>rp_proxy := (rp_proxy s)\<lparr>fdes := f\<rparr>\<rparr>"
  have "owns c f" using fdes_wait_owns [OF _ w] assms(1) unfolding replayed_def feeds_def by blast
  then have s: "replayed ok c log ?s" using replayed_fdes [OF assms(1)] by blast
  show ?thesis
  proof (cases evs)
    case None
    then show ?thesis using assms(4) w s by (auto simp: replay_round_def)
  next
    case (Some fs)
    then have "replay_events inp envs 0 (map fe_fd fs) ?s = Inr (r, s')" using assms(4) w by (simp add: replay_round_def)
    then show ?thesis by (rule events_step [OF s assms(2,3)])
  qed
qed

lemma loop_step:
  "replayed ok c log s \<Longrightarrow> small log \<Longrightarrow> \<forall>(x, envs)\<in>set rounds. \<forall>i. full_write (envs i) \<Longrightarrow> replay_loop inp rounds s = Inr (r, s') \<Longrightarrow>
     if r = Returned CO_OK then recovered c log s' else replayed ok c log s'"
proof (induction rounds arbitrary: s)
  case (Cons y rounds)
  obtain x envs where y: "y = (x, envs)" by fastforce
  obtain r1 s1 where r1: "replay_round inp x envs s = Inr (r1, s1)" "(if r1 = Running then replay_loop inp rounds s1 else Inr (r1, s1)) = Inr (r, s')"
    using Cons.prems(4) y by (auto simp: rbind_eq_Inr)
  have "if r1 = Returned CO_OK then recovered c log s1 else replayed ok c log s1"
    using round_step [OF Cons.prems(1,2) _ r1(1)] Cons.prems(3) y by auto
  then show ?case using r1(2) Cons.IH [OF _ Cons.prems(2), of s1] Cons.prems(3) by (cases "r1 = Running") auto
qed simp

end

interpretation consumer: replay_input consume_in "\<lambda>_. True"
proof unfold_locales
  fix c log s e r s'
  assume h: "replayed (\<lambda>_. True) c log s" "small log" "consume_in e c s = Inr (r, s')"
  obtain m p1 where m: "read_msg e c (rp_proxy s) = Inr (m, p1)" using h(3) by (auto simp: consume_in_def rbind_eq_Inr)
  have k: "replayed (\<lambda>_. True) c log (s\<lparr>rp_proxy := p1\<rparr>)" "replayed (\<lambda>_. True) c log (s\<lparr>rp_proxy := upd_link c mark_error p1, rp_count := n\<rparr>)" for n
    using h(1) feeds_read [OF _ m] feeds_error by (fastforce simp: replayed_def)+
  show "if r = Returned CO_OK then recovered c log s' else replayed (\<lambda>_. True) c log s'"
    using h(3) m k consume_push_step [OF k(1) h(2)] by (cases m) (auto simp: consume_in_def Let_def CHECK_eq_Inr)
qed

interpretation recoverer: replay_input recover_in nonempty
proof unfold_locales
  fix c log s e r s'
  assume h: "replayed nonempty c log s" "small log" "recover_in e c s = Inr (r, s')"
  obtain m p1 where m: "read_msg e c (rp_proxy s) = Inr (m, p1)" using h(3) by (auto simp: recover_in_def rbind_eq_Inr)
  have k: "replayed nonempty c log (s\<lparr>rp_proxy := p1\<rparr>)" "replayed nonempty c log (s\<lparr>rp_proxy := upd_link c mark_error p1, rp_count := n\<rparr>)" for n
    using h(1) feeds_read [OF _ m] feeds_error by (fastforce simp: replayed_def)+
  show "if r = Returned CO_OK then recovered c log s' else replayed nonempty c log s'"
    using h(3) m k recover_push_step [OF k(1) h(2)] by (cases m) (auto simp: recover_in_def)
qed

section \<open>The start of a thread\<close>

definition unused :: "lid \<Rightarrow> lid option \<Rightarrow> proxy \<Rightarrow> bool" where
  "unused n sc p \<longleftrightarrow> fdes p = Fdevents_new \<and> n \<le> next_lid p \<and> wire_ok (next_lid p) (wire p) \<and>
     (\<forall>c. sc = Some c \<longrightarrow> n \<le> c \<and> links p c \<noteq> None \<and> imsg p c = [] \<and> sent p c = [])"

lemma replay_conn_effect:
  assumes "replay_conn e a node p = Inr (c, q)"
  shows "c = next_lid p \<and> fdes q = fdes p \<and> next_lid q = Suc (next_lid p) \<and> next_mid q = next_mid p \<and> wire q = wire p \<and>
     (\<exists>fd. a = Some fd \<and> links q = (links p)(c \<mapsto> (Link_new False (e_new e c))\<lparr>l_is_server := True, l_sock := fd, l_noblock := True\<rparr>))"
  using assms by (cases a) (auto simp: replay_conn_def get_conn_def add_link_def connect_conn_def get_link_def link_connect_def upd_link_def)

lemma replay_conn_unused:
  assumes "replay_conn e a node p = Inr (c, q)" "unused n sc p"
  shows "unused n (Some c) q"
proof -
  note q = replay_conn_effect [OF assms(1)]
  have "sent q c = []" using assms(2) q by (auto simp: unused_def wire_ok_def sent_def filter_empty_conv)
  moreover have "imsg q c = []" using q by (auto simp: imsg_def Link_new_def)
  moreover have "wire_ok (Suc (next_lid p)) (wire p)" using assms(2) by (auto simp: unused_def wire_ok_def)
  moreover have "links q c \<noteq> None" using q by auto
  ultimately show ?thesis using assms(2) q by (simp add: unused_def)
qed

lemma consume_open_wire: "consume_open e as nodes sc p = Inr (x, q) \<Longrightarrow> wire q = wire p"
proof (induction nodes arbitrary: as sc p)
  case (Cons it nodes)
  show ?case
  proof (cases "topology p = Slave \<or> topology p = Aa")
    case True
    then obtain c p1 where c: "replay_conn e (fst (next_conn as)) (snd it) p = Inr (c, p1)" "consume_open e (snd (next_conn as)) nodes (Some c) p1 = Inr (x, q)"
      using Cons.prems by (cases "next_conn as") (auto simp: rbind_eq_Inr)
    then show ?thesis using Cons.IH replay_conn_effect by metis
  qed (use Cons.prems in auto)
qed simp

lemma open_unused:
  "recover_open e as nodes sc p = Inr (c, q) \<Longrightarrow> unused n sc p \<Longrightarrow> unused n c q"
  "consume_open e as nodes sc p = Inr (Some c, q) \<Longrightarrow> unused n sc p \<Longrightarrow> unused n c q"
proof -
  show "recover_open e as nodes sc p = Inr (c, q) \<Longrightarrow> unused n sc p \<Longrightarrow> unused n c q"
    by (induction nodes arbitrary: as sc p) (auto simp: rbind_eq_Inr split: if_splits prod.splits dest: replay_conn_unused)
  show "consume_open e as nodes sc p = Inr (Some c, q) \<Longrightarrow> unused n sc p \<Longrightarrow> unused n c q"
    by (induction nodes arbitrary: as sc p) (auto simp: rbind_eq_Inr split: if_splits prod.splits dest: replay_conn_unused)
qed

lemma unused_new: "proxy_wf p \<Longrightarrow> unused (next_lid p) None (p\<lparr>fdes := Fdevents_new\<rparr>)"
  by (simp add: unused_def proxy_wf_def)

lemma unused_feeds: "unused n (Some c) p \<Longrightarrow> set_event e c FDEVENT_OUT p = Inr q \<Longrightarrow> n \<le> c \<and> feeds c q []"
proof -
  assume h: "unused n (Some c) p" "set_event e c FDEVENT_OUT p = Inr q"
  have "feeds c p []" using h(1) by (simp add: unused_def feeds_def)
  moreover have "owns c (fdes q)" using event_owns(1) [OF _ h(2)] h(1) by (simp add: unused_def)
  ultimately show ?thesis using feeds_quiet event_effect(1) [OF h(2)] h(1) by (auto simp: unused_def)
qed

lemma recover_start_step:
  assumes "proxy_wf p" "small ks" "recover_start e ks p = Inr (r, s)"
  shows "\<exists>c\<ge>next_lid p. if r = Returned CO_OK then recovered c ks s else replayed nonempty c ks s"
proof -
  obtain c p1 p2 where o: "recover_open e (e_conns e) (dumb_map p) None (p\<lparr>fdes := Fdevents_new\<rparr>) = Inr (Some c, p1)"
    "set_event e c FDEVENT_OUT p1 = Inr p2" "recover_push e c \<lparr>rp_proxy = p2, rp_kafka = ks, rp_count = 1\<rparr> = Inr (r, s)"
    using assms(3) by (auto simp: recover_start_def rbind_eq_Inr split: option.splits)
  have u: "next_lid p \<le> c" "feeds c p2 []" using unused_feeds [OF open_unused(1) [OF o(1) unused_new [OF assms(1)]] o(2)] by auto
  then have "replayed nonempty c ks \<lparr>rp_proxy = p2, rp_kafka = ks, rp_count = 1\<rparr>" by (auto simp: replayed_def)
  then show ?thesis using recover_push_step [OF _ assms(2) o(3)] u(1) by blast
qed

lemma consume_start_step:
  assumes "proxy_wf p" "small ks" "consume_start e ks p = Inr (r, s)"
  shows "r = Returned CO_ERR \<and> wire (rp_proxy s) = wire p \<or> (\<exists>c\<ge>next_lid p. r \<noteq> Returned CO_OK \<and> replayed (\<lambda>_. True) c ks s)"
proof -
  obtain x p1 where x: "consume_open e (e_conns e) (dumb_map p) None (p\<lparr>fdes := Fdevents_new\<rparr>) = Inr (x, p1)" "x \<noteq> Some None"
    using assms(3) by (auto simp: consume_start_def rbind_eq_Inr split: option.splits)
  show ?thesis
  proof (cases x)
    case None
    then show ?thesis using assms(3) x consume_open_wire [OF x(1)] by (auto simp: consume_start_def)
  next
    case (Some y)
    then obtain c p2 where c: "x = Some (Some c)" "set_event e c FDEVENT_OUT p1 = Inr p2"
      "consume_push e c \<lparr>rp_proxy = p2, rp_kafka = ks, rp_count = 1\<rparr> = Inr (r, s)"
      using assms(3) x by (auto simp: consume_start_def rbind_eq_Inr)
    have u: "next_lid p \<le> c" "feeds c p2 []" using unused_feeds [OF open_unused(2) [OF x(1) [unfolded c(1)] unused_new [OF assms(1)]] c(2)] by auto
    then have "replayed (\<lambda>_. True) c ks \<lparr>rp_proxy = p2, rp_kafka = ks, rp_count = 1\<rparr>" by (auto simp: replayed_def intro!: exI [of _ "[]"])
    then show ?thesis using consume_push_step [OF _ assms(2) c(3)] u(1) by blast
  qed
qed

section \<open>Progress\<close>

text \<open>The connection c has the socket fd, and an event on fd leads to c.\<close>

definition entry :: "lid \<Rightarrow> int \<Rightarrow> Fdevents \<Rightarrow> bool" where
  "entry c fd f \<longleftrightarrow> nat fd < length (ep_events f) \<and> data_ptr (ep_events f ! nat fd) = Some c \<and> fe_fd (ep_events f ! nat fd) = fd"

definition wired :: "lid \<Rightarrow> int \<Rightarrow> proxy \<Rightarrow> bool" where
  "wired c fd p \<longleftrightarrow> 0 \<le> fd \<and> has_link p c (\<lambda>l. l_sock l = fd) \<and> entry c fd (fdes p)"

lemma get_fde_entry: "0 \<le> fd \<Longrightarrow> entry c fd f \<Longrightarrow> get_fde (ep_events f) fd = Inr (ep_events f ! nat fd, ep_events f)"
  by (auto simp: get_fde_def entry_def Let_def)

lemma fdes_set_entry:
  assumes "0 \<le> fd" "entry c fd f"
  shows "\<exists>r g. fdes_set kok fd flags num (Some c) f = Inr (r, g) \<and> entry c fd g"
  using assms by (auto simp: fdes_set_def get_fde_entry Let_def entry_def split: option.split)

lemma fdes_set_first:
  assumes "0 \<le> fd"
  shows "\<exists>r g. fdes_set kok fd flags num (Some c) Fdevents_new = Inr (r, g) \<and> entry c fd g"
  using assms by (auto simp: fdes_set_def get_fde_def Let_def entry_def Fdevents_new_def fde_new_def FDEVENT_NONE_def nth_list_update simp del: upt_Suc split: option.split)

lemma set_event_wired:
  assumes "wired c fd p"
  shows "\<exists>q. set_event e c flag p = Inr q \<and> wired c fd q"
proof -
  obtain l where l: "links p c = Some l" "l_sock l = fd" "0 \<le> fd" "entry c fd (fdes p)" using assms by (auto simp: wired_def has_link_def)
  obtain r g where g: "fdes_set (e_kok e) fd flag 1 (Some c) (fdes p) = Inr (r, g)" "entry c fd g" using fdes_set_entry l by blast
  then show ?thesis using l by (auto simp: set_event_def get_link_def wired_def has_link_def)
qed

lemma set_event_first:
  assumes "has_link p c (\<lambda>l. l_sock l = fd)" "0 \<le> fd" "fdes p = Fdevents_new"
  shows "\<exists>q. set_event e c flag p = Inr q \<and> wired c fd q"
proof -
  obtain l where l: "links p c = Some l" "l_sock l = fd" using assms(1) by (auto simp: has_link_def)
  obtain r g where g: "fdes_set (e_kok e) fd flag 1 (Some c) Fdevents_new = Inr (r, g)" "entry c fd g" using fdes_set_first assms(2) by blast
  then show ?thesis using l assms by (auto simp: set_event_def get_link_def wired_def has_link_def)
qed

lemma wired_same: "wired c fd p \<Longrightarrow> fdes q = fdes p \<Longrightarrow> has_link q c (\<lambda>l. l_sock l = fd) \<Longrightarrow> wired c fd q"
  by (simp add: wired_def)

lemma wait_wired:
  assumes "wired c fd p"
  shows "\<exists>fde f. fdes_wait (Ep_Ready [(fd, ev)]) (fdes p) = Inr (Some [fde], f) \<and> fe_fd fde = fd \<and> wired c fd (p\<lparr>fdes := f\<rparr>) \<and>
     fe_events (ep_events f ! nat fd) = ready_flags ev"
  using assms by (auto simp: wired_def entry_def has_link_def fdes_wait_def mark_ready_def Let_def)

text \<open>A round in which the one event ev is ready on fd is the handling of this event.\<close>

lemma round_event:
  assumes "wired c fd (rp_proxy s)"
  shows "\<exists>f fde. wired c fd ((rp_proxy s)\<lparr>fdes := f\<rparr>) \<and> data_ptr fde = Some c \<and> fe_events fde = ready_flags ev \<and>
     (owns c (fdes (rp_proxy s)) \<longrightarrow> owns c f) \<and>
     replay_round inp (Ep_Ready [(fd, ev)]) (\<lambda>_. e) s = replay_event inp e fde (s\<lparr>rp_proxy := (rp_proxy s)\<lparr>fdes := f\<rparr>\<rparr>)"
proof -
  obtain x f where w: "fdes_wait (Ep_Ready [(fd, ev)]) (fdes (rp_proxy s)) = Inr (Some [x], f)" "fe_fd x = fd" "wired c fd ((rp_proxy s)\<lparr>fdes := f\<rparr>)"
    "fe_events (ep_events f ! nat fd) = ready_flags ev"
    using wait_wired [OF assms] by blast
  let ?s = "s\<lparr>rp_proxy := (rp_proxy s)\<lparr>fdes := f\<rparr>\<rparr>" and ?fde = "ep_events f ! nat fd"
  have e: "0 \<le> fd" "nat fd < length (ep_events f)" "data_ptr ?fde = Some c" using w(3) by (auto simp: wired_def entry_def)
  have "replay_events inp (\<lambda>_. e) 0 [fd] ?s = replay_event inp e ?fde ?s"
    using e by (auto simp: Let_def rbind_def split: sum.split if_splits prod.split)
  then have "replay_round inp (Ep_Ready [(fd, ev)]) (\<lambda>_. e) s = replay_event inp e ?fde ?s" using w by (simp add: replay_round_def)
  then show ?thesis using w e fdes_wait_owns [OF _ w(1), of c] by blast
qed

text \<open>A system that takes every write whole and has a response ready whenever the connection is readable.\<close>

definition well_served :: "env \<Rightarrow> bool" where
  "well_served e \<longleftrightarrow> full_write e \<and> (\<forall>nb. \<exists>b rs. msg_read (e_ok e) nb (e_rd e) = Inr (Some b, rs))"

lemma send_progress:
  assumes "wired c fd p" "feeds c p ss" "imsg p c = m # ms" "full_write e"
  shows "\<exists>q. replay_out e c p = Inr (Running, q) \<and> wired c fd q \<and> imsg q c = ms"
proof -
  let ?p1 = "upd_link c (\<lambda>l. l\<lparr>l_imsg_q := ms\<rparr>) p"
  obtain l where l: "links p c = Some l" "l_imsg_q l = m # ms" "l_sock l = fd" using assms(1,3) by (auto simp: wired_def has_link_def imsg_def)
  obtain y where y: "msgs p m = Some y" "pending y" using assms(2,3) by (auto simp: feeds_def)
  obtain n where n: "e_wr e = [Wr_take n]" "2 ^ 31 \<le> n" using assms(4) unfolding full_write_def by blast
  have "brep (m_buf y) (b_contents (m_buf y))" using y(2) by (simp add: pending_def b_inv_def)
  then obtain len b out ws where s: "msg_send (l_noblock l) [Wr_take n] (m_buf y) = Inr (len, b, out, ws)"
    using msg_send_rep y(2) unfolding pending_def by blast
  have len: "len > 0" using msg_send_full [OF _ _ _ n(2) s] y(2) by (auto simp: pending_def)
  let ?r = "put_wire c out (upd_msg m (\<lambda>x. x\<lparr>m_buf := b\<rparr>) ?p1)"
  have "wired c fd ?r" using assms(1) l by (intro wired_same [OF assms(1)]) (simp_all add: put_wire_def upd_msg_def upd_link_def has_link_def)
  then obtain q where q: "set_event e c FDEVENT_IN ?r = Inr q" "wired c fd q" using set_event_wired by blast
  have "imsg q c = ms" using view_quiet(1) [OF event_effect(1) [OF q(1)]] l(1) by (simp add: imsg_def upd_link_def)
  moreover have "replay_out e c p = Inr (Running, q)"
    using l y(1) s n(1) len q(1) by (simp add: replay_out_def replay_send_def get_link_def get_msg_def upd_link_def Let_def)
  ultimately show ?thesis using q(2) by blast
qed

lemma read_progress:
  assumes "wired c fd p" "well_served e"
  shows "\<exists>m q. read_msg e c p = Inr (Some m, q) \<and> wired c fd q \<and> imsg q c = imsg p c \<and> sent q c = sent p c"
proof -
  obtain l where l: "links p c = Some l" using assms(1) by (auto simp: wired_def has_link_def)
  obtain b rs where b: "msg_read (e_ok e) (l_noblock l) (e_rd e) = Inr (Some b, rs)" using assms(2) unfolding well_served_def by blast
  obtain m q where q: "add_msg (message_new b) p = (m, q)" by fastforce
  note v = content_add_msg [OF q]
  have "wired c fd q" using wired_same [OF assms(1) v(8)] assms(1) v(6) by (simp add: wired_def has_link_def)
  then show ?thesis using l b q v by (simp add: read_msg_def get_link_def)
qed

lemma enqueue_progress:
  assumes "wired c fd p"
  shows "\<exists>q m. enqueue e c b p = Inr q \<and> wired c fd q \<and> imsg q c = imsg p c @ [m]"
proof -
  obtain m p1 where a: "add_msg (message_new b) p = (m, p1)" by fastforce
  note v = content_add_msg [OF a]
  have w: "wired c fd p1" using wired_same [OF assms v(8)] assms v(6) by (simp add: wired_def has_link_def)
  obtain l1 where l1: "links p1 c = Some l1" using w by (auto simp: wired_def has_link_def)
  obtain p0 where "set_event e c FDEVENT_OUT p1 = Inr p0" "wired c fd p0" using set_event_wired [OF w] by blast
  then obtain p2 where p2: "notify_out e c p1 = Inr p2" "wired c fd p2"
    using w l1 by (cases "l_imsg_q l1 = []") (auto simp: notify_out_def get_link_def wired_def has_link_def)
  obtain l where l: "links p2 c = Some l" using p2(2) by (auto simp: wired_def has_link_def)
  have "imsg p2 c = imsg p c" using view_quiet(1) [OF notify_out_effect [OF p2(1)]] v(4) by simp
  moreover have "wired c fd (push_imsg c m p2)"
    using wired_same [OF p2(2), of "push_imsg c m p2"] p2(2) l by (simp add: push_imsg_def upd_link_def wired_def has_link_def)
  ultimately show ?thesis using a p2(1) view_push(1) [OF l, of m c] by (auto simp: enqueue_def forward_def)
qed

lemma kafka_request_ok: "length (km_payload k) < 2 ^ 31 \<Longrightarrow> \<exists>b. kafka_request e k = Inr b"
  using append_exact [of "km_payload k" "e_ok e"] by (auto simp: kafka_request_def)

lemma recover_push_progress:
  assumes "wired c fd p" "length (km_payload k) < 2 ^ 31"
  shows "km_payload k \<noteq> [] \<Longrightarrow> \<exists>q m. recover_push e c \<lparr>rp_proxy = p, rp_kafka = k # ks, rp_count = n\<rparr> = Inr (Running, \<lparr>rp_proxy = q, rp_kafka = ks, rp_count = n\<rparr>) \<and>
      wired c fd q \<and> imsg q c = imsg p c @ [m] \<and> (\<forall>ss. feeds c p ss \<longrightarrow> feeds c q (ss @ [km_payload k]))"
    "km_payload k = [] \<Longrightarrow> \<exists>s. recover_push e c \<lparr>rp_proxy = p, rp_kafka = k # ks, rp_count = n\<rparr> = Inr (Returned CO_OK, s) \<and> sent (rp_proxy s) c = sent p c"
proof -
  obtain b where b: "kafka_request e k = Inr b" using kafka_request_ok assms(2) by blast
  show "\<exists>q m. recover_push e c \<lparr>rp_proxy = p, rp_kafka = k # ks, rp_count = n\<rparr> = Inr (Running, \<lparr>rp_proxy = q, rp_kafka = ks, rp_count = n\<rparr>) \<and>
      wired c fd q \<and> imsg q c = imsg p c @ [m] \<and> (\<forall>ss. feeds c p ss \<longrightarrow> feeds c q (ss @ [km_payload k]))" if ne: "km_payload k \<noteq> []"
  proof -
    obtain q m where q: "enqueue e c b p = Inr q" "wired c fd q" "imsg q c = imsg p c @ [m]" using enqueue_progress [OF assms(1)] by blast
    have "feeds c q (ss @ [km_payload k])" if "feeds c p ss" for ss
      using feeds_enqueue [OF that kafka_request_pending(2) [OF assms(2) b ne] q(1)] kafka_request_pending(1) [OF assms(2) b] by simp
    then show ?thesis using ne b q by (simp add: recover_push_def)
  qed
  show "\<exists>s. recover_push e c \<lparr>rp_proxy = p, rp_kafka = k # ks, rp_count = n\<rparr> = Inr (Returned CO_OK, s) \<and> sent (rp_proxy s) c = sent p c" if "km_payload k = []"
    using that b by (auto simp: recover_push_def sent_def)
qed

text \<open>The schedule in which the datalet answers every request after it was sent.\<close>

fun serve :: "int \<Rightarrow> env \<Rightarrow> nat \<Rightarrow> (ep_result \<times> (nat \<Rightarrow> env)) list" where
  "serve fd e 0 = []"
| "serve fd e (Suc n) = (Ep_Ready [(fd, EPOLLOUT)], \<lambda>_. e) # (Ep_Ready [(fd, EPOLLIN)], \<lambda>_. e) # serve fd e n"

lemma ready_flags_simps [simp]: "ready_flags EPOLLOUT = FDEVENT_OUT" "ready_flags EPOLLIN = FDEVENT_IN"
  by (simp_all add: ready_flags_def epoll_defs fdevent_defs)

lemma flags_IN_OUT [simp]: "FDEVENT_OUT AND FDEVENT_IN = 0" "FDEVENT_OUT AND FDEVENT_OUT = FDEVENT_OUT" "FDEVENT_IN AND FDEVENT_IN = FDEVENT_IN"
  "FDEVENT_IN \<noteq> 0" "FDEVENT_OUT \<noteq> 0"
  by (simp_all add: fdevent_defs)

text \<open>The connection is readable: the response is read and the next message fetched, whatever waits to be sent.\<close>

lemma response:
  assumes "wired c fd p" "feeds c p ss" "well_served e" "ready_flags ev AND FDEVENT_IN \<noteq> 0"
  shows "\<exists>q. replay_round recover_in (Ep_Ready [(fd, ev)]) (\<lambda>_. e) \<lparr>rp_proxy = p, rp_kafka = ks, rp_count = n\<rparr> =
     recover_push e c \<lparr>rp_proxy = q, rp_kafka = ks, rp_count = n\<rparr> \<and> wired c fd q \<and> feeds c q ss \<and> imsg q c = imsg p c \<and> sent q c = sent p c"
proof -
  obtain g gde where g: "wired c fd (p\<lparr>fdes := g\<rparr>)" "data_ptr gde = Some c" "fe_events gde = ready_flags ev" "owns c g"
    "replay_round recover_in (Ep_Ready [(fd, ev)]) (\<lambda>_. e) \<lparr>rp_proxy = p, rp_kafka = ks, rp_count = n\<rparr> =
       replay_event recover_in e gde \<lparr>rp_proxy = p\<lparr>fdes := g\<rparr>, rp_kafka = ks, rp_count = n\<rparr>"
    using round_event [of c fd "\<lparr>rp_proxy = p, rp_kafka = ks, rp_count = n\<rparr>" ev recover_in e] assms(1,2) by (auto simp: feeds_def)
  have f: "feeds c (p\<lparr>fdes := g\<rparr>) ss" by (rule feeds_quiet [OF assms(2)]) (simp_all add: quiet_def g(4))
  obtain k q where q: "read_msg e c (p\<lparr>fdes := g\<rparr>) = Inr (Some k, q)" "wired c fd q" "imsg q c = imsg p c" "sent q c = sent p c"
    using read_progress [OF g(1) assms(3)] by (auto simp: imsg_def sent_def)
  have "replay_event recover_in e gde \<lparr>rp_proxy = p\<lparr>fdes := g\<rparr>, rp_kafka = ks, rp_count = n\<rparr> = recover_push e c \<lparr>rp_proxy = q, rp_kafka = ks, rp_count = n\<rparr>"
    using g(2,3) q(1) assms(4) by (simp add: replay_event_def recover_in_def)
  then show ?thesis using g(5) q feeds_read [OF f q(1)] by metis
qed

text \<open>One exchange: the request is sent, the response read and the next message fetched.\<close>

lemma exchange:
  assumes "wired c fd p" "feeds c p ss" "imsg p c = [m]" "well_served e"
  shows "\<exists>p1 q. replay_round recover_in (Ep_Ready [(fd, EPOLLOUT)]) (\<lambda>_. e) \<lparr>rp_proxy = p, rp_kafka = ks, rp_count = n\<rparr> =
        Inr (Running, \<lparr>rp_proxy = p1, rp_kafka = ks, rp_count = n\<rparr>) \<and>
     replay_round recover_in (Ep_Ready [(fd, EPOLLIN)]) (\<lambda>_. e) \<lparr>rp_proxy = p1, rp_kafka = ks, rp_count = n\<rparr> =
        recover_push e c \<lparr>rp_proxy = q, rp_kafka = ks, rp_count = n\<rparr> \<and> wired c fd q \<and> feeds c q ss \<and> imsg q c = []"
proof -
  have fw: "full_write e" using assms(4) by (simp add: well_served_def)
  obtain f fde where r: "wired c fd (p\<lparr>fdes := f\<rparr>)" "data_ptr fde = Some c" "fe_events fde = FDEVENT_OUT" "owns c f"
    "replay_round recover_in (Ep_Ready [(fd, EPOLLOUT)]) (\<lambda>_. e) \<lparr>rp_proxy = p, rp_kafka = ks, rp_count = n\<rparr> =
       replay_event recover_in e fde \<lparr>rp_proxy = p\<lparr>fdes := f\<rparr>, rp_kafka = ks, rp_count = n\<rparr>"
    using round_event [of c fd "\<lparr>rp_proxy = p, rp_kafka = ks, rp_count = n\<rparr>" EPOLLOUT recover_in e] assms(1,2) by (auto simp: feeds_def)
  have f1: "feeds c (p\<lparr>fdes := f\<rparr>) ss" by (rule feeds_quiet [OF assms(2)]) (simp_all add: quiet_def r(4))
  have i1: "imsg (p\<lparr>fdes := f\<rparr>) c = [m]" using assms(3) by (simp add: imsg_def)
  obtain p1 where p1: "replay_out e c (p\<lparr>fdes := f\<rparr>) = Inr (Running, p1)" "wired c fd p1" "imsg p1 c = []" using send_progress [OF r(1) f1 i1 fw] by blast
  have f2: "feeds c p1 ss" using feeds_out [OF f1 fw p1(1)] by simp
  have o: "replay_round recover_in (Ep_Ready [(fd, EPOLLOUT)]) (\<lambda>_. e) \<lparr>rp_proxy = p, rp_kafka = ks, rp_count = n\<rparr> =
        Inr (Running, \<lparr>rp_proxy = p1, rp_kafka = ks, rp_count = n\<rparr>)"
    unfolding r(5) using r(2,3) p1(1) by (simp add: replay_event_def)
  then show ?thesis using response [OF p1(2) f2 assms(4), of EPOLLIN ks n] p1(3) by auto
qed

lemma serve_completes:
  assumes "well_served e" "km_payload k = []"
  shows "wired c fd p \<Longrightarrow> feeds c p ss \<Longrightarrow> imsg p c = [m] \<Longrightarrow> small ks \<Longrightarrow> nonempty (payloads ks) \<Longrightarrow>
     \<exists>s. replay_loop recover_in (serve fd e (Suc (length ks))) \<lparr>rp_proxy = p, rp_kafka = ks @ k # rest, rp_count = n\<rparr> = Inr (Returned CO_OK, s) \<and>
       sent (rp_proxy s) c = ss @ payloads ks"
proof (induction ks arbitrary: p ss m)
  case Nil
  obtain p1 q where x: "replay_round recover_in (Ep_Ready [(fd, EPOLLOUT)]) (\<lambda>_. e) \<lparr>rp_proxy = p, rp_kafka = k # rest, rp_count = n\<rparr> = Inr (Running, \<lparr>rp_proxy = p1, rp_kafka = k # rest, rp_count = n\<rparr>)"
    "replay_round recover_in (Ep_Ready [(fd, EPOLLIN)]) (\<lambda>_. e) \<lparr>rp_proxy = p1, rp_kafka = k # rest, rp_count = n\<rparr> = recover_push e c \<lparr>rp_proxy = q, rp_kafka = k # rest, rp_count = n\<rparr>"
    "wired c fd q" "feeds c q ss" "imsg q c = []"
    using exchange [OF Nil.prems(1-3) assms(1)] by metis
  then show ?case using recover_push_progress(2) [OF x(3), of k e rest n] assms(2) by (auto simp: feeds_def)
next
  case (Cons a ks)
  let ?ks = "ks @ k # rest"
  obtain p1 q where x: "replay_round recover_in (Ep_Ready [(fd, EPOLLOUT)]) (\<lambda>_. e) \<lparr>rp_proxy = p, rp_kafka = a # ?ks, rp_count = n\<rparr> = Inr (Running, \<lparr>rp_proxy = p1, rp_kafka = a # ?ks, rp_count = n\<rparr>)"
    "replay_round recover_in (Ep_Ready [(fd, EPOLLIN)]) (\<lambda>_. e) \<lparr>rp_proxy = p1, rp_kafka = a # ?ks, rp_count = n\<rparr> = recover_push e c \<lparr>rp_proxy = q, rp_kafka = a # ?ks, rp_count = n\<rparr>"
    "wired c fd q" "feeds c q ss" "imsg q c = []"
    using exchange [OF Cons.prems(1-3) assms(1)] by metis
  have a: "length (km_payload a) < 2 ^ 31" "km_payload a \<noteq> []" using Cons.prems(4,5) by auto
  obtain q1 m1 where p: "recover_push e c \<lparr>rp_proxy = q, rp_kafka = a # ?ks, rp_count = n\<rparr> = Inr (Running, \<lparr>rp_proxy = q1, rp_kafka = ?ks, rp_count = n\<rparr>)"
    and q1: "wired c fd q1" "imsg q1 c = [m1]" "\<forall>ss. feeds c q ss \<longrightarrow> feeds c q1 (ss @ [km_payload a])"
    using recover_push_progress(1) [OF x(3) a, of e ?ks n] x(5) by auto
  have sm: "small ks" "nonempty (payloads ks)" using Cons.prems(4,5) by auto
  have f: "feeds c q1 (ss @ [km_payload a])" using q1(3) x(4) by blast
  obtain s where s: "replay_loop recover_in (serve fd e (Suc (length ks))) \<lparr>rp_proxy = q1, rp_kafka = ?ks, rp_count = n\<rparr> = Inr (Returned CO_OK, s)"
    "sent (rp_proxy s) c = (ss @ [km_payload a]) @ payloads ks"
    using Cons.IH [OF q1(1) f q1(2) sm] by blast
  have "replay_loop recover_in (serve fd e (Suc (Suc (length ks)))) \<lparr>rp_proxy = p, rp_kafka = a # ?ks, rp_count = n\<rparr> = Inr (Returned CO_OK, s)"
    using x(1,2) p s(1) by simp
  then show ?case using s(2) by simp
qed

lemma recover_first:
  assumes "proxy_wf p" "recover_open e (e_conns e) (dumb_map p) None (p\<lparr>fdes := Fdevents_new\<rparr>) = Inr (Some c, p1)"
    "has_link p1 c (\<lambda>l. l_sock l = fd)" "0 \<le> fd" "length (km_payload a) < 2 ^ 31" "km_payload a \<noteq> []"
  shows "\<exists>q m. recover_start e (a # ks) p = Inr (Running, \<lparr>rp_proxy = q, rp_kafka = ks, rp_count = 1\<rparr>) \<and> wired c fd q \<and>
     feeds c q [km_payload a] \<and> imsg q c = [m]"
proof -
  have u: "unused (next_lid p) (Some c) p1" using open_unused(1) [OF assms(2) unused_new [OF assms(1)]] .
  then obtain p2 where p2: "set_event e c FDEVENT_OUT p1 = Inr p2" "wired c fd p2" using set_event_first [OF assms(3,4)] by (auto simp: unused_def)
  have f: "feeds c p2 []" using unused_feeds [OF u p2(1)] by simp
  then have i: "imsg p2 c = []" by (simp add: feeds_def)
  obtain q m where "recover_push e c \<lparr>rp_proxy = p2, rp_kafka = a # ks, rp_count = 1\<rparr> = Inr (Running, \<lparr>rp_proxy = q, rp_kafka = ks, rp_count = 1\<rparr>)"
    "wired c fd q" "imsg q c = [m]" "\<forall>ss. feeds c p2 ss \<longrightarrow> feeds c q (ss @ [km_payload a])"
    using recover_push_progress(1) [OF p2(2) assms(5,6), of e ks 1] i by auto
  then show ?thesis using assms(2) p2(1) f by (fastforce simp: recover_start_def)
qed

lemma recover_serve:
  assumes "proxy_wf p" "recover_open e (e_conns e) (dumb_map p) None (p\<lparr>fdes := Fdevents_new\<rparr>) = Inr (Some c, p1)"
    "has_link p1 c (\<lambda>l. l_sock l = fd)" "0 \<le> fd" "well_served e" "small ks" "nonempty (payloads ks)" "km_payload k = []" "ks \<noteq> []"
  shows "\<exists>s. recover_kafka e (ks @ k # rest) (serve fd e (length ks)) p = Inr (Returned CO_OK, s) \<and> sent (rp_proxy s) c = payloads ks"
proof -
  obtain a bs where ks: "ks = a # bs" using assms(9) by (cases ks) auto
  obtain q m where q: "recover_start e (a # bs @ k # rest) p = Inr (Running, \<lparr>rp_proxy = q, rp_kafka = bs @ k # rest, rp_count = 1\<rparr>)"
    "wired c fd q" "feeds c q [km_payload a]" "imsg q c = [m]"
    using recover_first [OF assms(1-4), of a "bs @ k # rest"] assms(6,7) ks by auto
  have sm: "small bs" "nonempty (payloads bs)" using assms(6,7) ks by auto
  obtain s where "replay_loop recover_in (serve fd e (Suc (length bs))) \<lparr>rp_proxy = q, rp_kafka = bs @ k # rest, rp_count = 1\<rparr> = Inr (Returned CO_OK, s)"
    "sent (rp_proxy s) c = [km_payload a] @ payloads bs"
    using serve_completes [OF assms(5,8) q(2-4) sm] by blast
  then show ?thesis using q(1) ks by (simp add: recover_kafka_def del: serve.simps)
qed

lemma read_some:
  assumes "x \<noteq> []"
  shows "\<exists>b rs. msg_read ok nb [Rd_data x] = Inr (Some b, rs)"
proof -
  have d: "\<exists>n. e = Rd_done n" if "read_loop nb [Rd_data x] 0 b = Inr (e, b', rs)" for e rs and b b' :: buffer
    using that assms by (auto simp: Let_def rbind_eq_Inr split: if_splits)
  obtain r rs where r: "msg_read ok nb [Rd_data x] = Inr (r, rs)" using msg_read_stream [of ok nb "[Rd_data x]"] by blast
  then obtain b b' e where l: "read_loop nb [Rd_data x] 0 b = Inr (e, b', rs)" "r = (case e of Rd_done n \<Rightarrow> Some b' | Rd_closed \<Rightarrow> None | Rd_failed \<Rightarrow> None)"
    unfolding msg_read_def by (auto simp: rbind_eq_Inr simp del: read_loop.simps)
  then show ?thesis using r d [OF l(1)] by auto
qed

lemma recover_run:
  assumes "proxy_wf p" "small ks" "\<forall>(x, envs)\<in>set rounds. \<forall>i. full_write (envs i)" "recover_kafka e ks rounds p = Inr (r, s)"
  shows "\<exists>c\<ge>next_lid p. if r = Returned CO_OK then recovered c ks s else replayed nonempty c ks s"
proof -
  obtain r1 s1 where r1: "recover_start e ks p = Inr (r1, s1)" "(if r1 = Running then replay_loop recover_in rounds s1 else Inr (r1, s1)) = Inr (r, s)"
    using assms(4) by (auto simp: recover_kafka_def rbind_eq_Inr)
  obtain c where c: "next_lid p \<le> c" "if r1 = Returned CO_OK then recovered c ks s1 else replayed nonempty c ks s1"
    using recover_start_step [OF assms(1,2) r1(1)] by blast
  show ?thesis
  proof (cases "r1 = Running")
    case True
    then have "replayed nonempty c ks s1" "replay_loop recover_in rounds s1 = Inr (r, s)" using c(2) r1(2) by auto
    then show ?thesis using recoverer.loop_step [OF _ assms(2,3)] c(1) by blast
  qed (use c r1(2) in auto)
qed

lemma replayed_prefix:
  assumes "replayed nonempty c ks s"
  shows "prefix (sent (rp_proxy s) c) (takeWhile (\<lambda>x. x \<noteq> []) (payloads ks))"
proof -
  obtain used where u: "ks = used @ rp_kafka s" "nonempty (payloads used)" "feeds c (rp_proxy s) (payloads used)"
    using assms by (auto simp: replayed_def filter_nonempty)
  have "prefix (sent (rp_proxy s) c) (payloads used)" using u(3) unfolding feeds_def prefix_def by metis
  moreover have "prefix (payloads used) (takeWhile (\<lambda>x. x \<noteq> []) (payloads ks))"
    unfolding u(1) payloads_simps by (subst takeWhile_append2) (use u(2) in auto)
  ultimately show ?thesis using prefix_order.trans by blast
qed

lemma recover_run_prefix:
  assumes "proxy_wf p" "small ks" "\<forall>(x, envs)\<in>set rounds. \<forall>i. full_write (envs i)" "recover_kafka e ks rounds p = Inr (r, s)"
  shows "\<exists>c\<ge>next_lid p. prefix (sent (rp_proxy s) c) (takeWhile (\<lambda>x. x \<noteq> []) (payloads ks)) \<and> (r = Returned CO_OK \<longrightarrow> [] \<in> set (payloads ks))"
proof -
  obtain c where c: "next_lid p \<le> c" "if r = Returned CO_OK then recovered c ks s else replayed nonempty c ks s" using recover_run [OF assms] by blast
  have "[] \<in> set (payloads ks)" if "recovered c ks s" using that unfolding recovered_def payloads_def by force
  then show ?thesis using c replayed_prefix [of c ks s] by (intro exI [of _ c]) (auto simp: recovered_def split: if_splits)
qed

section \<open>Properties\<close>

text \<open>A datalet to recover, and a system that serves it.\<close>

definition replay_proxy :: proxy where
  "replay_proxy = blank_proxy\<lparr>links := [0 \<mapsto> blank_link], next_lid := 1, recovery := True,
     dumb_map := [(''m'', \<lparr>n_addr = ''127.0.0.1'', n_port = 12346, n_weight = 1, n_role = Master_t\<rparr>)]\<rparr>"

definition replay_env :: env where
  "replay_env = calm_env\<lparr>e_conns := [Some 4], e_rd := [Rd_data ''ok''], e_wr := [Wr_take (2 ^ 31)]\<rparr>"

abbreviation km :: "string \<Rightarrow> kmessage" where
  "km x \<equiv> \<lparr>km_err = False, km_payload = x\<rparr>"

lemma replay_example:
  "proxy_wf replay_proxy" "well_served replay_env"
  "\<exists>p1. recover_open replay_env (e_conns replay_env) (dumb_map replay_proxy) None (replay_proxy\<lparr>fdes := Fdevents_new\<rparr>) = Inr (Some 1, p1) \<and>
     has_link p1 1 (\<lambda>l. l_sock l = 4)"
proof -
  show "proxy_wf replay_proxy"
    by (auto simp: proxy_wf_def replay_proxy_def blank_proxy_def link_ok_def fdes_ok_def evs_ok_def Fdevents_new_def wire_ok_def blank_link_def split: if_splits)
  show "well_served replay_env" using read_some [of "''ok''"] by (auto simp: well_served_def replay_env_def full_write_def)
  show "\<exists>p1. recover_open replay_env (e_conns replay_env) (dumb_map replay_proxy) None (replay_proxy\<lparr>fdes := Fdevents_new\<rparr>) = Inr (Some 1, p1) \<and>
     has_link p1 1 (\<lambda>l. l_sock l = 4)"
    by (simp add: replay_env_def calm_env_def replay_proxy_def blank_proxy_def replay_conn_def get_conn_def add_link_def connect_conn_def get_link_def
        link_connect_def upd_link_def next_conn_def has_link_def)
qed

lemma example_log:
  "small [km ''set a'', km ''set b'']" "nonempty (payloads [km ''set a'', km ''set b''])" "km_payload (km []) = []" "[km ''set a'', km ''set b''] \<noteq> []"
  by (simp_all add: small_def)

lemma serve_full: "well_served e \<Longrightarrow> \<forall>(x, envs)\<in>set (serve fd e n). \<forall>i. full_write (envs i)"
  by (induction n) (auto simp: well_served_def)



text \<open>C15: Recovery completes: when the datalet can be reached and answers every request after it was sent,
  recover_kafka returns CO_OK after one exchange per message, and exactly the messages of the log up to the
  first one without payload have been sent to the datalet, in order.\<close>

theorem recovery_completes:
  assumes "proxy_wf p" "recover_open e (e_conns e) (dumb_map p) None (p\<lparr>fdes := Fdevents_new\<rparr>) = Inr (Some c, p1)"
    "has_link p1 c (\<lambda>l. l_sock l = fd)" "0 \<le> fd" "well_served e" "small ks" "nonempty (payloads ks)" "km_payload k = []" "ks \<noteq> []"
  shows "\<exists>s. recover_kafka e (ks @ k # rest) (serve fd e (length ks)) p = Inr (Returned CO_OK, s) \<and> sent (rp_proxy s) c = payloads ks"
  using assms by (rule recover_serve)

theorem recovery_completes_witness:
  "\<exists>s. recover_kafka replay_env [km ''set a'', km ''set b'', km []] (serve 4 replay_env 2) replay_proxy = Inr (Returned CO_OK, s) \<and>
     sent (rp_proxy s) 1 = [''set a'', ''set b'']"
proof -
  obtain p1 where p1: "recover_open replay_env (e_conns replay_env) (dumb_map replay_proxy) None (replay_proxy\<lparr>fdes := Fdevents_new\<rparr>) = Inr (Some 1, p1)"
    "has_link p1 1 (\<lambda>l. l_sock l = 4)" using replay_example(3) by blast
  show ?thesis
    using recovery_completes [OF replay_example(1) p1 _ replay_example(2) example_log, of "[]"] by (simp add: numeral_2_eq_2 del: serve.simps)
qed

text \<open>C38: Recovery can end too early: when the response to a request arrives in two pieces, the second piece makes
  recover_kafka fetch another message before the queued one was sent; if that was the end of the log it
  returns CO_OK, and the queued write never reaches the datalet.\<close>

theorem recovery_drops_request:
  assumes "proxy_wf p" "recover_open e (e_conns e) (dumb_map p) None (p\<lparr>fdes := Fdevents_new\<rparr>) = Inr (Some c, p1)"
    "has_link p1 c (\<lambda>l. l_sock l = fd)" "0 \<le> fd" "well_served e" "small [a, b]" "nonempty (payloads [a, b])" "km_payload k = []"
  shows "\<exists>s. recover_kafka e (a # b # k # rest)
      [(Ep_Ready [(fd, EPOLLOUT)], \<lambda>_. e), (Ep_Ready [(fd, EPOLLIN)], \<lambda>_. e), (Ep_Ready [(fd, EPOLLIN OR EPOLLOUT)], \<lambda>_. e)] p = Inr (Returned CO_OK, s) \<and>
      sent (rp_proxy s) c = [km_payload a]"
proof -
  have ab: "length (km_payload a) < 2 ^ 31" "km_payload a \<noteq> []" "length (km_payload b) < 2 ^ 31" "km_payload b \<noteq> []"
    using assms(6,7) by (auto simp: small_def)
  obtain q m where q: "recover_start e (a # b # k # rest) p = Inr (Running, \<lparr>rp_proxy = q, rp_kafka = b # k # rest, rp_count = 1\<rparr>)"
    "wired c fd q" "feeds c q [km_payload a]" "imsg q c = [m]"
    using recover_first [OF assms(1-4) ab(1,2)] by blast
  obtain p2 q2 where x: "replay_round recover_in (Ep_Ready [(fd, EPOLLOUT)]) (\<lambda>_. e) \<lparr>rp_proxy = q, rp_kafka = b # k # rest, rp_count = 1\<rparr> = Inr (Running, \<lparr>rp_proxy = p2, rp_kafka = b # k # rest, rp_count = 1\<rparr>)"
    "replay_round recover_in (Ep_Ready [(fd, EPOLLIN)]) (\<lambda>_. e) \<lparr>rp_proxy = p2, rp_kafka = b # k # rest, rp_count = 1\<rparr> = recover_push e c \<lparr>rp_proxy = q2, rp_kafka = b # k # rest, rp_count = 1\<rparr>"
    "wired c fd q2" "feeds c q2 [km_payload a]" "imsg q2 c = []"
    using exchange [OF q(2-4) assms(5)] by metis
  obtain q3 m3 where q3: "recover_push e c \<lparr>rp_proxy = q2, rp_kafka = b # k # rest, rp_count = 1\<rparr> = Inr (Running, \<lparr>rp_proxy = q3, rp_kafka = k # rest, rp_count = 1\<rparr>)"
    "wired c fd q3" "imsg q3 c = [m3]" "feeds c q3 ([km_payload a] @ [km_payload b])"
    using recover_push_progress(1) [OF x(3) ab(3,4), of e "k # rest" 1] x(4,5) by auto
  have s3: "sent q3 c = [km_payload a]" using q3(3,4) by (simp add: feeds_def)
  have "ready_flags (EPOLLIN OR EPOLLOUT) AND FDEVENT_IN \<noteq> 0" by (simp add: ready_flags_def epoll_defs fdevent_defs)
  then obtain q4 where q4: "replay_round recover_in (Ep_Ready [(fd, EPOLLIN OR EPOLLOUT)]) (\<lambda>_. e) \<lparr>rp_proxy = q3, rp_kafka = k # rest, rp_count = 1\<rparr> =
     recover_push e c \<lparr>rp_proxy = q4, rp_kafka = k # rest, rp_count = 1\<rparr>" "wired c fd q4" "sent q4 c = sent q3 c"
    using response [OF q3(2,4) assms(5)] by blast
  obtain s where s: "recover_push e c \<lparr>rp_proxy = q4, rp_kafka = k # rest, rp_count = 1\<rparr> = Inr (Returned CO_OK, s)" "sent (rp_proxy s) c = sent q4 c"
    using recover_push_progress(2) [OF q4(2) _ assms(8)] assms(8) by force
  show ?thesis using q(1) x(1,2) q3(1) q4(1,3) s s3 by (simp add: recover_kafka_def)
qed

theorem recovery_drops_request_witness:
  "\<exists>s rounds. recover_kafka replay_env [km ''set a'', km ''set b'', km []] rounds replay_proxy = Inr (Returned CO_OK, s) \<and>
     sent (rp_proxy s) 1 = [''set a'']"
proof -
  obtain p1 where p1: "recover_open replay_env (e_conns replay_env) (dumb_map replay_proxy) None (replay_proxy\<lparr>fdes := Fdevents_new\<rparr>) = Inr (Some 1, p1)"
    "has_link p1 1 (\<lambda>l. l_sock l = 4)" using replay_example(3) by blast
  show ?thesis using recovery_drops_request [OF replay_example(1) p1 _ replay_example(2) example_log(1-3), of "[]"] by auto
qed

lemma consume_example:
  "\<exists>s. consume_kafka replay_env [km [], km ''set a''] [] (replay_proxy\<lparr>topology := Slave\<rparr>) = Inr (Running, s)"
proof -
  let ?p = "replay_proxy\<lparr>topology := Slave\<rparr>" and ?e = replay_env
  obtain p1 where o: "consume_open ?e (e_conns ?e) (dumb_map ?p) None (?p\<lparr>fdes := Fdevents_new\<rparr>) = Inr (Some (Some 1), p1)" "has_link p1 1 (\<lambda>l. l_sock l = 4)"
      "fdes p1 = Fdevents_new"
    by (simp add: replay_env_def calm_env_def replay_proxy_def blank_proxy_def replay_conn_def get_conn_def add_link_def connect_conn_def get_link_def
        link_connect_def upd_link_def next_conn_def has_link_def)
  obtain p2 where p2: "set_event ?e 1 FDEVENT_OUT p1 = Inr p2" "wired 1 4 p2" using set_event_first [OF o(2) _ o(3)] by auto
  obtain b0 b where b: "kafka_request ?e (km []) = Inr b0" "kafka_request ?e (km ''set a'') = Inr b"
    using kafka_request_ok [of "km []" ?e] kafka_request_ok [of "km ''set a''" ?e] by auto
  obtain q m where "enqueue ?e 1 b p2 = Inr q" using enqueue_progress [OF p2(2)] by blast
  then show ?thesis using o(1) p2(1) b by (simp add: consume_kafka_def consume_start_def consume_push_def)
qed



end
