(* ===== verification/Sorted_Set.thy ===== *)
theory Sorted_Set
  imports Bespokv_Prelude "HOL-Library.List_Lexorder" "HOL-Library.Char_ord" "HOL-Library.Product_Lexorder"
begin

text \<open>
  The class SortedSet of src/src/util/sorted_set.h and sorted_set.cpp: keys with scores, ordered by
  score and then by key. A std::set holds the items in order and a std::map leads from a key to the
  iterator of its item; an iterator whose item was erased must not be followed. The class is shown
  to implement a finite map from keys to scores with access to its least and greatest entry.
\<close>

section \<open>The class\<close>

datatype Item = Item (i_key: string) (i_score: int)

text \<open>Item::operator< on the score and then on the key.\<close>

definition Item_lt :: "Item \<Rightarrow> Item \<Rightarrow> bool" where
  "Item_lt a b \<longleftrightarrow> i_score a < i_score b \<or> (i_score a = i_score b \<and> i_key a < i_key b)"

instantiation Item :: linorder
begin

definition less_Item :: "Item \<Rightarrow> Item \<Rightarrow> bool" where
  "less_Item = Item_lt"

definition less_eq_Item :: "Item \<Rightarrow> Item \<Rightarrow> bool" where
  "less_eq_Item a b \<longleftrightarrow> Item_lt a b \<or> a = b"

instance
  by standard (auto simp: less_Item_def less_eq_Item_def Item_lt_def intro: Item.expand)

end

text \<open>An iterator of the set is named by its item, since no two items of a set are equal.\<close>

record SortedSet =
  existed :: "string \<rightharpoonup> Item"
  sorted_set :: "Item list"

definition SortedSet_new :: SortedSet where
  "SortedSet_new = \<lparr>existed = Map.empty, sorted_set = []\<rparr>"

text \<open>std::set: following, inserting and erasing.\<close>

definition set_at :: "Item \<Rightarrow> Item list \<Rightarrow> Item res" where
  "set_at it xs = (if it \<in> set xs then Inr it else Inl Dangling)"

definition set_insert :: "Item \<Rightarrow> Item list \<Rightarrow> Item list" where
  "set_insert x xs = (if x \<in> set xs then xs else takeWhile (\<lambda>y. y < x) xs @ [x] @ dropWhile (\<lambda>y. y < x) xs)"

definition set_erase :: "Item \<Rightarrow> Item list \<Rightarrow> Item list res" where
  "set_erase it xs = (if it \<in> set xs then Inr (remove1 it xs) else Inl Dangling)"

definition ss_size :: "SortedSet \<Rightarrow> int" where
  "ss_size s = int (length (sorted_set s))"

definition ss_add :: "string \<Rightarrow> int \<Rightarrow> SortedSet \<Rightarrow> (int \<times> SortedSet) res" where
  "ss_add key score s =
     (let ins = (\<lambda>ret xs. Inr (ret, \<lparr>existed = (existed s)(key \<mapsto> Item key score), sorted_set = set_insert (Item key score) xs\<rparr>)) in
      case existed s key of
        None \<Rightarrow> ins 1 (sorted_set s)
      | Some it2 \<Rightarrow>
          rbind (set_at it2 (sorted_set s)) (\<lambda>item.
          if i_score item = score then Inr (0, s)
          else rbind (set_erase it2 (sorted_set s)) (ins 0)))"

definition ss_del :: "string \<Rightarrow> SortedSet \<Rightarrow> (int \<times> SortedSet) res" where
  "ss_del key s =
     (case existed s key of
        None \<Rightarrow> Inr (0, s)
      | Some it2 \<Rightarrow> rbind (set_erase it2 (sorted_set s)) (\<lambda>xs. Inr (1, \<lparr>existed = (existed s)(key := None), sorted_set = xs\<rparr>)))"

text \<open>front and back: None where they return 0 and leave the arguments alone.\<close>

definition ss_front :: "SortedSet \<Rightarrow> (string \<times> int) option" where
  "ss_front s = (case sorted_set s of [] \<Rightarrow> None | item # _ \<Rightarrow> Some (i_key item, i_score item))"

definition ss_back :: "SortedSet \<Rightarrow> (string \<times> int) option" where
  "ss_back s = (if sorted_set s = [] then None else let item = last (sorted_set s) in Some (i_key item, i_score item))"

definition ss_max_score :: "SortedSet \<Rightarrow> int" where
  "ss_max_score s = (case ss_back s of None \<Rightarrow> 0 | Some (key, score) \<Rightarrow> score)"

definition ss_pop_front :: "SortedSet \<Rightarrow> int \<times> SortedSet" where
  "ss_pop_front s =
     (case sorted_set s of
        [] \<Rightarrow> (0, s)
      | item # xs \<Rightarrow> (1, \<lparr>existed = (existed s)(i_key item := None), sorted_set = xs\<rparr>))"

definition ss_pop_back :: "SortedSet \<Rightarrow> int \<times> SortedSet" where
  "ss_pop_back s =
     (if sorted_set s = [] then (0, s)
      else (1, \<lparr>existed = (existed s)(i_key (last (sorted_set s)) := None), sorted_set = butlast (sorted_set s)\<rparr>))"

section \<open>The map it stands for\<close>

definition ss_inv :: "SortedSet \<Rightarrow> bool" where
  "ss_inv s \<longleftrightarrow> sorted_wrt (<) (sorted_set s) \<and> (\<forall>k it. existed s k = Some it \<longleftrightarrow> it \<in> set (sorted_set s) \<and> i_key it = k)"

definition ss_abs :: "SortedSet \<Rightarrow> (string \<rightharpoonup> int)" where
  "ss_abs s = (\<lambda>k. map_option i_score (existed s k))"

text \<open>The entries of a map, and the least and the greatest of them.\<close>

definition entries :: "(string \<rightharpoonup> int) \<Rightarrow> (int \<times> string) set" where
  "entries m = {(v, k). m k = Some v}"

definition least :: "(string \<rightharpoonup> int) \<Rightarrow> (string \<times> int) option" where
  "least m = (if entries m = {} then None else Some (prod.swap (Min (entries m))))"

definition greatest :: "(string \<rightharpoonup> int) \<Rightarrow> (string \<times> int) option" where
  "greatest m = (if entries m = {} then None else Some (prod.swap (Max (entries m))))"

lemma insert_sorted:
  "sorted_wrt (<) xs \<Longrightarrow> x \<notin> set xs \<Longrightarrow> sorted_wrt (<) (takeWhile (\<lambda>y. y < x) xs @ [x] @ dropWhile (\<lambda>y. y < x) xs)" for x :: "'a :: linorder"
proof (induction xs)
  case (Cons a xs)
  show ?case
  proof (cases "a < x")
    case True
    moreover have "\<forall>y\<in>set (takeWhile (\<lambda>y. y < x) xs @ [x] @ dropWhile (\<lambda>y. y < x) xs). a < y"
      using Cons.prems(1) True by (auto dest: set_takeWhileD set_dropWhileD)
    ultimately show ?thesis using Cons by simp
  next
    case False
    then have "x < a" using Cons.prems(2) by auto
    then show ?thesis using Cons.prems(1) False by (auto dest: less_trans)
  qed
qed simp

lemma set_insert_props:
  assumes "sorted_wrt (<) xs"
  shows "sorted_wrt (<) (set_insert x xs)" "set (set_insert x xs) = insert x (set xs)"
proof -
  show "sorted_wrt (<) (set_insert x xs)" using insert_sorted assms by (auto simp: set_insert_def)
  have "set (takeWhile P xs) \<union> set (dropWhile P xs) = set xs" for P by (metis set_append takeWhile_dropWhile_id)
  then show "set (set_insert x xs) = insert x (set xs)" by (auto simp: set_insert_def)
qed

lemma sorted_distinct: "sorted_wrt (<) xs \<Longrightarrow> distinct (xs :: Item list)"
  by (induction xs) auto

lemma sorted_remove1:
  assumes "sorted_wrt (<) (xs :: Item list)"
  shows "sorted_wrt (<) (remove1 x xs)" "set (remove1 x xs) = set xs - {x}"
proof -
  show "sorted_wrt (<) (remove1 x xs)" using assms by (induction xs) (use set_remove1_subset in fastforce)+
  show "set (remove1 x xs) = set xs - {x}" using sorted_distinct [OF assms] by (rule set_remove1_eq)
qed

lemma ss_inv_key: "ss_inv s \<Longrightarrow> it \<in> set (sorted_set s) \<Longrightarrow> jt \<in> set (sorted_set s) \<Longrightarrow> i_key it = i_key jt \<Longrightarrow> it = jt"
  unfolding ss_inv_def by (metis option.inject)

lemma entries_abs: "ss_inv s \<Longrightarrow> entries (ss_abs s) = (\<lambda>it. (i_score it, i_key it)) ` set (sorted_set s)"
  by (auto simp: entries_def ss_abs_def ss_inv_def image_iff)

lemma pair_less: "(i_score a, i_key a) \<le> (i_score b, i_key b) \<longleftrightarrow> a \<le> b"
  by (auto simp: less_eq_prod_def less_eq_Item_def Item_lt_def intro: Item.expand)

lemma front_least:
  assumes "ss_inv s"
  shows "ss_front s = least (ss_abs s)"
proof (cases "sorted_set s")
  case Nil
  then show ?thesis using entries_abs [OF assms] by (simp add: ss_front_def least_def)
next
  case (Cons x xs)
  have "x \<le> y" if "y \<in> set (x # xs)" for y using assms Cons that by (auto simp: ss_inv_def less_imp_le)
  then have "Min (entries (ss_abs s)) = (i_score x, i_key x)"
    unfolding entries_abs [OF assms] Cons by (intro Min_eqI) (auto simp del: less_eq_prod_simp simp: pair_less)
  then show ?thesis using entries_abs [OF assms] Cons by (simp add: ss_front_def least_def)
qed

lemma back_greatest:
  assumes "ss_inv s"
  shows "ss_back s = greatest (ss_abs s)"
proof (cases "sorted_set s" rule: rev_cases)
  case Nil
  then show ?thesis using entries_abs [OF assms] by (simp add: ss_back_def greatest_def)
next
  case (snoc xs x)
  have "y \<le> x" if "y \<in> set (xs @ [x])" for y using assms snoc that by (auto simp: ss_inv_def sorted_wrt_append less_imp_le)
  then have "Max (entries (ss_abs s)) = (i_score x, i_key x)"
    unfolding entries_abs [OF assms] snoc by (intro Max_eqI) (auto simp del: less_eq_prod_simp simp: pair_less)
  then show ?thesis using entries_abs [OF assms] snoc by (simp add: ss_back_def greatest_def)
qed

lemma size_card:
  assumes "ss_inv s"
  shows "ss_size s = int (card (dom (ss_abs s)))"
proof -
  have "dom (ss_abs s) = i_key ` set (sorted_set s)" using assms by (auto simp: ss_abs_def ss_inv_def dom_def image_iff)
  moreover have "inj_on i_key (set (sorted_set s))" using ss_inv_key [OF assms] by (auto simp: inj_on_def)
  ultimately show ?thesis using assms sorted_distinct by (simp add: ss_size_def card_image distinct_card ss_inv_def)
qed

text \<open>Replacing the item of a key, and removing an item.\<close>

lemma ss_inv_insert:
  assumes "ss_inv s" "sorted_wrt (<) xs" "set xs = set (sorted_set s) - {it. i_key it = k}"
  shows "ss_inv \<lparr>existed = (existed s)(k \<mapsto> Item k v), sorted_set = set_insert (Item k v) xs\<rparr>"
  using assms set_insert_props [OF assms(2)] by (auto simp: ss_inv_def)

lemma ss_inv_remove:
  assumes "ss_inv s" "sorted_wrt (<) xs" "set xs = set (sorted_set s) - {it. i_key it = k}"
  shows "ss_inv \<lparr>existed = (existed s)(k := None), sorted_set = xs\<rparr>"
  using assms by (auto simp: ss_inv_def)

lemma minus_key:
  assumes "ss_inv s" "it \<in> set (sorted_set s)"
  shows "set (sorted_set s) - {it} = set (sorted_set s) - {jt. i_key jt = i_key it}"
  using ss_inv_key [OF assms(1)] assms(2) by blast

lemma no_key:
  assumes "ss_inv s" "existed s k = None"
  shows "set (sorted_set s) = set (sorted_set s) - {jt. i_key jt = k}"
proof -
  have "i_key jt \<noteq> k" if "jt \<in> set (sorted_set s)" for jt
  proof
    assume "i_key jt = k"
    then have "existed s k = Some jt" using assms(1) that unfolding ss_inv_def by blast
    then show False using assms(2) by simp
  qed
  then show ?thesis by auto
qed

section \<open>Operations\<close>

text \<open>The calls a client can make and their results: the return value and what is written through the pointers.\<close>

datatype ss_op = Op_add string int | Op_del string | Op_front | Op_back | Op_pop_front | Op_pop_back | Op_size | Op_max_score

type_synonym ss_out = "int \<times> (string \<times> int) option"

definition found :: "(string \<times> int) option \<Rightarrow> ss_out" where
  "found r = (if r = None then 0 else 1, r)"

fun ss_exec :: "ss_op \<Rightarrow> SortedSet \<Rightarrow> (ss_out \<times> SortedSet) res" where
  "ss_exec (Op_add k v) s = rbind (ss_add k v s) (\<lambda>(r, s'). Inr ((r, None), s'))"
| "ss_exec (Op_del k) s = rbind (ss_del k s) (\<lambda>(r, s'). Inr ((r, None), s'))"
| "ss_exec Op_front s = Inr (found (ss_front s), s)"
| "ss_exec Op_back s = Inr (found (ss_back s), s)"
| "ss_exec Op_pop_front s = (case ss_pop_front s of (r, s') \<Rightarrow> Inr ((r, None), s'))"
| "ss_exec Op_pop_back s = (case ss_pop_back s of (r, s') \<Rightarrow> Inr ((r, None), s'))"
| "ss_exec Op_size s = Inr ((ss_size s, None), s)"
| "ss_exec Op_max_score s = Inr ((ss_max_score s, None), s)"

fun ss_spec :: "ss_op \<Rightarrow> (string \<rightharpoonup> int) \<Rightarrow> ss_out \<times> (string \<rightharpoonup> int)" where
  "ss_spec (Op_add k v) m = ((if m k = None then 1 else 0, None), m(k \<mapsto> v))"
| "ss_spec (Op_del k) m = ((if m k = None then 0 else 1, None), m(k := None))"
| "ss_spec Op_front m = (found (least m), m)"
| "ss_spec Op_back m = (found (greatest m), m)"
| "ss_spec Op_pop_front m = (case least m of None \<Rightarrow> ((0, None), m) | Some (k, v) \<Rightarrow> ((1, None), m(k := None)))"
| "ss_spec Op_pop_back m = (case greatest m of None \<Rightarrow> ((0, None), m) | Some (k, v) \<Rightarrow> ((1, None), m(k := None)))"
| "ss_spec Op_size m = ((int (card (dom m)), None), m)"
| "ss_spec Op_max_score m = ((case greatest m of None \<Rightarrow> 0 | Some (k, v) \<Rightarrow> v, None), m)"

fun ss_run :: "(ss_op \<Rightarrow> 's \<Rightarrow> (ss_out \<times> 's) res) \<Rightarrow> ss_op list \<Rightarrow> 's \<Rightarrow> (ss_out list \<times> 's) res" where
  "ss_run exec [] s = Inr ([], s)"
| "ss_run exec (x # xs) s = rbind (exec x s) (\<lambda>(r, s1). rbind (ss_run exec xs s1) (\<lambda>(rs, s2). Inr (r # rs, s2)))"

fun ss_spec_run :: "ss_op list \<Rightarrow> (string \<rightharpoonup> int) \<Rightarrow> ss_out list \<times> (string \<rightharpoonup> int)" where
  "ss_spec_run [] m = ([], m)"
| "ss_spec_run (x # xs) m = (case ss_spec x m of (r, m1) \<Rightarrow> case ss_spec_run xs m1 of (rs, m2) \<Rightarrow> (r # rs, m2))"

text \<open>What an implementation of a scored map promises, and what follows for a sequence of calls.\<close>

locale scored_map =
  fixes exec :: "ss_op \<Rightarrow> 's \<Rightarrow> (ss_out \<times> 's) res" and inv :: "'s \<Rightarrow> bool" and abs :: "'s \<Rightarrow> (string \<rightharpoonup> int)"
  assumes simulates: "inv s \<Longrightarrow> \<exists>r s'. exec x s = Inr (r, s') \<and> inv s' \<and> ss_spec x (abs s) = (r, abs s')"
begin

lemma run_simulates: "inv s \<Longrightarrow> \<exists>rs s'. ss_run exec xs s = Inr (rs, s') \<and> inv s' \<and> ss_spec_run xs (abs s) = (rs, abs s')"
proof (induction xs arbitrary: s)
  case (Cons x xs)
  obtain r s1 where s1: "exec x s = Inr (r, s1)" "inv s1" "ss_spec x (abs s) = (r, abs s1)" using simulates [OF Cons.prems] by blast
  then show ?case using Cons.IH [OF s1(2)] by auto
qed simp

end

lemma abs_update: "(\<lambda>k. map_option i_score (((existed s)(k0 \<mapsto> Item k0 v)) k)) = (ss_abs s)(k0 \<mapsto> v)"
  "(\<lambda>k. map_option i_score (((existed s)(k0 := None)) k)) = (ss_abs s)(k0 := None)"
  by (auto simp: ss_abs_def fun_eq_iff)

lemma abs_remove: "ss_abs \<lparr>existed = (existed s)(k := None), sorted_set = xs\<rparr> = (ss_abs s)(k := None)"
  by (auto simp: ss_abs_def fun_eq_iff)

lemma add_simulates:
  assumes "ss_inv s"
  shows "\<exists>r s'. ss_exec (Op_add k v) s = Inr (r, s') \<and> ss_inv s' \<and> ss_spec (Op_add k v) (ss_abs s) = (r, ss_abs s')"
proof (cases "existed s k")
  case None
  have "sorted_wrt (<) (sorted_set s)" using assms by (simp add: ss_inv_def)
  then show ?thesis using ss_inv_insert [OF assms _ no_key [OF assms None], of v] None abs_update(1) [of s k v] by (simp add: ss_add_def ss_abs_def)
next
  case (Some it)
  then have it: "it \<in> set (sorted_set s)" "i_key it = k" "sorted_wrt (<) (sorted_set s)" using assms by (auto simp: ss_inv_def)
  show ?thesis
  proof (cases "i_score it = v")
    case True
    then show ?thesis using assms Some it by (auto simp: ss_add_def set_at_def ss_abs_def fun_eq_iff)
  next
    case False
    note r = sorted_remove1 [OF it(3), of it]
    have "set (remove1 it (sorted_set s)) = set (sorted_set s) - {jt. i_key jt = k}" using r(2) minus_key [OF assms it(1)] it(2) by simp
    then show ?thesis using ss_inv_insert [OF assms r(1), of k v] Some it(1) False abs_update(1) [of s k v]
      by (simp add: ss_add_def set_at_def set_erase_def ss_abs_def)
  qed
qed

lemma del_simulates:
  assumes "ss_inv s"
  shows "\<exists>r s'. ss_exec (Op_del k) s = Inr (r, s') \<and> ss_inv s' \<and> ss_spec (Op_del k) (ss_abs s) = (r, ss_abs s')"
proof (cases "existed s k")
  case None
  then show ?thesis using assms by (auto simp: ss_del_def ss_abs_def fun_eq_iff)
next
  case (Some it)
  then have it: "it \<in> set (sorted_set s)" "i_key it = k" "sorted_wrt (<) (sorted_set s)" using assms by (auto simp: ss_inv_def)
  note r = sorted_remove1 [OF it(3), of it]
  have "set (remove1 it (sorted_set s)) = set (sorted_set s) - {jt. i_key jt = k}" using r(2) minus_key [OF assms it(1)] it(2) by simp
  then show ?thesis using ss_inv_remove [OF assms r(1), of k] Some it(1) abs_remove by (simp add: ss_del_def set_erase_def) (simp add: ss_abs_def)
qed

lemma pop_simulates:
  assumes "ss_inv s"
  shows "\<exists>r s'. ss_exec Op_pop_front s = Inr (r, s') \<and> ss_inv s' \<and> ss_spec Op_pop_front (ss_abs s) = (r, ss_abs s')"
    "\<exists>r s'. ss_exec Op_pop_back s = Inr (r, s') \<and> ss_inv s' \<and> ss_spec Op_pop_back (ss_abs s) = (r, ss_abs s')"
proof -
  have st: "sorted_wrt (<) (sorted_set s)" using assms by (simp add: ss_inv_def)
  have d: "distinct (sorted_set s)" using sorted_distinct [OF st] .
  show "\<exists>r s'. ss_exec Op_pop_front s = Inr (r, s') \<and> ss_inv s' \<and> ss_spec Op_pop_front (ss_abs s) = (r, ss_abs s')"
  proof (cases "sorted_set s")
    case (Cons x xs)
    have "set xs = set (sorted_set s) - {jt. i_key jt = i_key x}" using minus_key [OF assms, of x] d Cons by auto
    then have "ss_inv \<lparr>existed = (existed s)(i_key x := None), sorted_set = xs\<rparr>" using ss_inv_remove [OF assms] st Cons by simp
    moreover have "least (ss_abs s) = Some (i_key x, i_score x)" using front_least [OF assms] Cons by (simp add: ss_front_def)
    ultimately show ?thesis using Cons abs_remove by (simp add: ss_pop_front_def)
  qed (use assms front_least [OF assms] in \<open>simp add: ss_pop_front_def ss_front_def\<close>)
  show "\<exists>r s'. ss_exec Op_pop_back s = Inr (r, s') \<and> ss_inv s' \<and> ss_spec Op_pop_back (ss_abs s) = (r, ss_abs s')"
  proof (cases "sorted_set s" rule: rev_cases)
    case (snoc xs x)
    have "set xs = set (sorted_set s) - {jt. i_key jt = i_key x}" using minus_key [OF assms, of x] d snoc by auto
    then have "ss_inv \<lparr>existed = (existed s)(i_key x := None), sorted_set = xs\<rparr>" using ss_inv_remove [OF assms] st snoc by (simp add: sorted_wrt_append)
    moreover have "greatest (ss_abs s) = Some (i_key x, i_score x)" using back_greatest [OF assms] snoc by (simp add: ss_back_def)
    ultimately show ?thesis using snoc abs_remove by (simp add: ss_pop_back_def)
  qed (use assms back_greatest [OF assms] in \<open>simp add: ss_pop_back_def ss_back_def\<close>)
qed

interpretation ss: scored_map ss_exec ss_inv ss_abs
proof unfold_locales
  fix s x
  assume "ss_inv s"
  then show "\<exists>r s'. ss_exec x s = Inr (r, s') \<and> ss_inv s' \<and> ss_spec x (ss_abs s) = (r, ss_abs s')"
    by (cases x) (simp_all only: add_simulates del_simulates pop_simulates, simp_all add: front_least back_greatest size_card ss_max_score_def)
qed

section \<open>Properties\<close>

text \<open>C32: SortedSet implements a map from keys to scores: for every sequence of add, del, front, back, pop_front,
  pop_back, size and max_score on a new set, no call follows an iterator of an erased item, and the
  results are those of the map, where front and back are its least and greatest entry by score and key.\<close>

theorem sorted_set_refines_map:
  "\<exists>rs s. ss_run ss_exec xs SortedSet_new = Inr (rs, s) \<and> ss_inv s \<and> ss_spec_run xs Map.empty = (rs, ss_abs s)"
proof -
  have "ss_inv SortedSet_new" "ss_abs SortedSet_new = Map.empty" by (simp_all add: ss_inv_def ss_abs_def SortedSet_new_def)
  then show ?thesis using ss.run_simulates [of SortedSet_new xs] by simp
qed

end
