(* ===== verification/Linked_List.thy ===== *)
theory Linked_List
  imports Bespokv_Prelude
begin

text \<open>
  The intrusive doubly linked list LinkedList of src/src/util/list.h. The elements are objects of the
  client with members prev and next, so the operations are written on an explicit heap. The class is
  shown to implement a queue from which any element can be removed in place.
\<close>

section \<open>The class\<close>

record lnode =
  ln_prev :: "nat option"
  ln_next :: "nat option"

type_synonym lheap = "nat \<rightharpoonup> lnode"

record LinkedList =
  ll_size :: int
  ll_head :: "nat option"
  ll_tail :: "nat option"

definition LinkedList_new :: LinkedList where
  "LinkedList_new = \<lparr>ll_size = 0, ll_head = None, ll_tail = None\<rparr>"

definition node_at :: "lheap \<Rightarrow> nat option \<Rightarrow> (nat \<times> lnode) res" where
  "node_at h t = rbind (deref t) (\<lambda>a. case h a of None \<Rightarrow> Inl Dangling | Some x \<Rightarrow> Inr (a, x))"

definition set_next :: "nat option \<Rightarrow> nat option \<Rightarrow> lheap \<Rightarrow> lheap res" where
  "set_next t v h = rbind (node_at h t) (\<lambda>(a, x). Inr (h(a \<mapsto> x\<lparr>ln_next := v\<rparr>)))"

definition set_prev :: "nat option \<Rightarrow> nat option \<Rightarrow> lheap \<Rightarrow> lheap res" where
  "set_prev t v h = rbind (node_at h t) (\<lambda>(a, x). Inr (h(a \<mapsto> x\<lparr>ln_prev := v\<rparr>)))"

definition ll_empty :: "LinkedList \<Rightarrow> bool" where
  "ll_empty l \<longleftrightarrow> ll_size l = 0"

text \<open>The members of t are read again after every store, as the source does.\<close>

definition ll_remove :: "nat option \<Rightarrow> lheap \<times> LinkedList \<Rightarrow> (lheap \<times> LinkedList) res" where
  "ll_remove t s =
     (case s of (h, l) \<Rightarrow>
      rbind (node_at h t) (\<lambda>(a, x).
      rbind (if ln_prev x \<noteq> None then set_next (ln_prev x) (ln_next x) h else Inr h) (\<lambda>h1.
      rbind (node_at h1 t) (\<lambda>(a, x1).
      rbind (if ln_next x1 \<noteq> None then set_prev (ln_next x1) (ln_prev x1) h1 else Inr h1) (\<lambda>h2.
      rbind (node_at h2 t) (\<lambda>(a, x2).
      let l1 = l\<lparr>ll_size := ll_size l - 1\<rparr>;
          l2 = (if ll_head l1 = t then l1\<lparr>ll_head := ln_next x2\<rparr> else l1);
          l3 = (if ll_tail l2 = t then l2\<lparr>ll_tail := ln_prev x2\<rparr> else l2)
      in Inr (h2, l3)))))))"

definition ll_pop_front :: "lheap \<times> LinkedList \<Rightarrow> (nat option \<times> lheap \<times> LinkedList) res" where
  "ll_pop_front s = (let t = ll_head (snd s) in rbind (ll_remove t s) (\<lambda>s'. Inr (t, s')))"

definition ll_push_back :: "nat option \<Rightarrow> lheap \<times> LinkedList \<Rightarrow> (lheap \<times> LinkedList) res" where
  "ll_push_back t s =
     (case s of (h, l) \<Rightarrow>
      rbind (set_prev t (ll_tail l) h) (\<lambda>h1.
      rbind (set_next t None h1) (\<lambda>h2.
      let l1 = l\<lparr>ll_size := ll_size l + 1\<rparr> in
      if ll_tail l \<noteq> None then rbind (set_next (ll_tail l) t h2) (\<lambda>h3. Inr (h3, l1\<lparr>ll_tail := t\<rparr>))
      else Inr (h2, l1\<lparr>ll_head := t, ll_tail := t\<rparr>))))"

text \<open>Iterator::next: the element and the iterator after it.\<close>

definition iter_next :: "lheap \<Rightarrow> nat option \<Rightarrow> (nat option \<times> nat option) res" where
  "iter_next h p = (if p = None then Inr (None, None) else rbind (node_at h p) (\<lambda>(a, x). Inr (p, ln_next x)))"

text \<open>Walking n steps from an iterator, until it is null.\<close>

fun iterate :: "nat \<Rightarrow> lheap \<Rightarrow> nat option \<Rightarrow> nat list res" where
  "iterate 0 h p = Inr []"
| "iterate (Suc n) h p =
     rbind (iter_next h p) (\<lambda>(r, p1). case r of None \<Rightarrow> Inr [] | Some a \<Rightarrow> rbind (iterate n h p1) (\<lambda>as. Inr (a # as)))"

section \<open>Segments\<close>

text \<open>The addresses xs are linked in this order, between the neighbours p and n.\<close>

definition first :: "nat list \<Rightarrow> nat option \<Rightarrow> nat option" where
  "first xs n = (case xs of [] \<Rightarrow> n | x # _ \<Rightarrow> Some x)"

definition final :: "nat option \<Rightarrow> nat list \<Rightarrow> nat option" where
  "final p xs = (if xs = [] then p else Some (last xs))"

fun seg :: "lheap \<Rightarrow> nat option \<Rightarrow> nat list \<Rightarrow> nat option \<Rightarrow> bool" where
  "seg h p [] n \<longleftrightarrow> True"
| "seg h p (x # xs) n \<longleftrightarrow> h x = Some \<lparr>ln_prev = p, ln_next = first xs n\<rparr> \<and> seg h (Some x) xs n"

lemma first_simps [simp]: "first [] n = n" "first (x # xs) n = Some x" "first (xs @ ys) n = first xs (first ys n)"
  by (simp_all add: first_def split: list.split)

lemma final_simps [simp]: "final p [] = p" "final p (xs @ [x]) = Some x" "final (Some x) xs = Some (last (x # xs))"
  by (simp_all add: final_def)

lemma final_Cons [simp]: "final p (x # xs) = final (Some x) xs"
  by (simp add: final_def)

lemma seg_append: "seg h p (ys @ zs) n \<longleftrightarrow> seg h p ys (first zs n) \<and> seg h (final p ys) zs n"
  by (induction ys arbitrary: p) auto

lemma seg_other [simp]: "a \<notin> set xs \<Longrightarrow> seg (h(a \<mapsto> v)) p xs n = seg h p xs n"
  by (induction xs arbitrary: p) auto

definition ll_rep :: "lheap \<times> LinkedList \<Rightarrow> nat list \<Rightarrow> bool" where
  "ll_rep s xs \<longleftrightarrow> distinct xs \<and> seg (fst s) None xs None \<and>
     snd s = \<lparr>ll_size = int (length xs), ll_head = first xs None, ll_tail = final None xs\<rparr>"

text \<open>Redirecting the pointer that leaves a segment at its end, or enters it at its beginning.\<close>

lemma seg_set_next:
  assumes "seg h p (xs @ [x]) n" "distinct (xs @ [x])"
  shows "\<exists>h'. set_next (Some x) m h = Inr h' \<and> seg h' p (xs @ [x]) m \<and> (\<forall>a. a \<noteq> x \<longrightarrow> h' a = h a)"
  using assms by (auto simp: set_next_def node_at_def seg_append)

lemma seg_set_prev:
  assumes "seg h p (x # xs) n" "distinct (x # xs)"
  shows "\<exists>h'. set_prev (Some x) q h = Inr h' \<and> seg h' q (x # xs) n \<and> (\<forall>a. a \<noteq> x \<longrightarrow> h' a = h a)"
  using assms by (auto simp: set_prev_def node_at_def)

lemma seg_cong: "(\<And>a. a \<in> set xs \<Longrightarrow> h' a = h a) \<Longrightarrow> seg h' p xs n = seg h p xs n"
  by (induction xs arbitrary: p) auto

lemma push_back_rep:
  assumes "ll_rep s xs" "t \<notin> set xs" "fst s t \<noteq> None"
  shows "\<exists>s'. ll_push_back (Some t) s = Inr s' \<and> ll_rep s' (xs @ [t])"
proof -
  obtain h l where s: "s = (h, l)" by fastforce
  obtain x where x: "h t = Some x" using assms(3) s by auto
  have l: "l = \<lparr>ll_size = int (length xs), ll_head = first xs None, ll_tail = final None xs\<rparr>" "seg h None xs None" "distinct xs"
    using assms(1) s by (auto simp: ll_rep_def)
  let ?h2 = "h(t \<mapsto> \<lparr>ln_prev = final None xs, ln_next = None\<rparr>)"
  have h2: "rbind (set_prev (Some t) (final None xs) h) (set_next (Some t) None) = Inr ?h2" using x by (cases x) (simp add: set_prev_def set_next_def node_at_def)
  have seg2: "seg ?h2 None xs None" using l(2) assms(2) by simp
  show ?thesis
  proof (cases xs rule: rev_cases)
    case Nil
    then show ?thesis using h2 s l(1) x by (cases x) (simp add: ll_push_back_def ll_rep_def set_prev_def set_next_def node_at_def)
  next
    case (snoc ys y)
    obtain h3 where h3: "set_next (Some y) (Some t) ?h2 = Inr h3" "seg h3 None (ys @ [y]) (Some t)" "\<forall>a. a \<noteq> y \<longrightarrow> h3 a = ?h2 a"
      using seg_set_next [of ?h2 None ys y None "Some t"] seg2 l(3) snoc by auto
    have "h3 t = Some \<lparr>ln_prev = Some y, ln_next = None\<rparr>" using h3(3) assms(2) snoc by auto
    then have "seg h3 None ((ys @ [y]) @ [t]) None" using h3(2) by (subst seg_append) simp
    then have "ll_rep (h3, \<lparr>ll_size = int (length xs) + 1, ll_head = first xs None, ll_tail = Some t\<rparr>) (xs @ [t])"
      using snoc l(3) assms(2) by (cases ys) (auto simp: ll_rep_def)
    moreover have "ll_push_back (Some t) s = Inr (h3, \<lparr>ll_size = int (length xs) + 1, ll_head = first xs None, ll_tail = Some t\<rparr>)"
      using h2 h3(1) s l(1) snoc by (auto simp: ll_push_back_def rbind_eq_Inr)
    ultimately show ?thesis by blast
  qed
qed

text \<open>Closing the gap before and after a removed element.\<close>

lemma close_before:
  assumes "seg h None ys m" "distinct ys"
  shows "\<exists>h1. (if final None ys \<noteq> None then set_next (final None ys) n h else Inr h) = Inr h1 \<and> seg h1 None ys n \<and> (\<forall>a. a \<notin> set ys \<longrightarrow> h1 a = h a)"
proof (cases ys rule: rev_cases)
  case (snoc us u)
  then show ?thesis using seg_set_next [of h None us u m n] assms by auto
qed simp

lemma close_after:
  assumes "seg h m zs None" "distinct zs"
  shows "\<exists>h2. (if first zs None \<noteq> None then set_prev (first zs None) p h else Inr h) = Inr h2 \<and> seg h2 p zs None \<and> (\<forall>a. a \<notin> set zs \<longrightarrow> h2 a = h a)"
proof (cases zs)
  case (Cons z ws)
  then show ?thesis using seg_set_prev [of h m z ws None p] assms by auto
qed simp

lemma ll_remove_eq:
  assumes "h a = Some \<lparr>ln_prev = p, ln_next = n\<rparr>" "(if p \<noteq> None then set_next p n h else Inr h) = Inr h1" "h1 a = Some \<lparr>ln_prev = p, ln_next = n\<rparr>"
    "(if n \<noteq> None then set_prev n p h1 else Inr h1) = Inr h2" "h2 a = Some \<lparr>ln_prev = p, ln_next = n\<rparr>"
  shows "ll_remove (Some a) (h, \<lparr>ll_size = k, ll_head = b, ll_tail = c\<rparr>) =
     Inr (h2, \<lparr>ll_size = k - 1, ll_head = (if b = Some a then n else b), ll_tail = (if c = Some a then p else c)\<rparr>)"
  using assms by (cases p; cases n) (simp_all add: ll_remove_def node_at_def Let_def)

lemma remove_rep:
  assumes "ll_rep s (ys @ x # zs)"
  shows "\<exists>s'. ll_remove (Some x) s = Inr s' \<and> ll_rep s' (ys @ zs) \<and> fst s' x = fst s x"
proof -
  obtain h l where s: "s = (h, l)" by fastforce
  have d: "distinct ys" "distinct zs" "x \<notin> set ys" "x \<notin> set zs" "set ys \<inter> set zs = {}" using assms by (auto simp: ll_rep_def)
  have g: "seg h None ys (Some x)" "h x = Some \<lparr>ln_prev = final None ys, ln_next = first zs None\<rparr>" "seg h (Some x) zs None"
    using assms s by (auto simp: ll_rep_def seg_append)
  have l: "l = \<lparr>ll_size = int (length (ys @ zs)) + 1, ll_head = first ys (Some x), ll_tail = final None (x # zs)\<rparr>"
    using assms s by (auto simp: ll_rep_def final_def)
  obtain h1 where h1: "(if final None ys \<noteq> None then set_next (final None ys) (first zs None) h else Inr h) = Inr h1"
    "seg h1 None ys (first zs None)" "\<forall>a. a \<notin> set ys \<longrightarrow> h1 a = h a"
    using close_before [OF g(1) d(1)] by blast
  have x1: "h1 x = Some \<lparr>ln_prev = final None ys, ln_next = first zs None\<rparr>" using h1(3) d(3) g(2) by simp
  have "seg h1 (Some x) zs None" using g(3) h1(3) d(5) by (subst seg_cong [of _ _ h]) auto
  then obtain h2 where h2: "(if first zs None \<noteq> None then set_prev (first zs None) (final None ys) h1 else Inr h1) = Inr h2"
    "seg h2 (final None ys) zs None" "\<forall>a. a \<notin> set zs \<longrightarrow> h2 a = h1 a"
    using close_after [OF _ d(2)] by blast
  have x2: "h2 x = Some \<lparr>ln_prev = final None ys, ln_next = first zs None\<rparr>" using h2(3) d(4) x1 by simp
  have "seg h2 None ys (first zs None)" using h1(2) h2(3) d(5) by (subst seg_cong [of _ _ h1]) auto
  then have sg: "seg h2 None (ys @ zs) None" using h2(2) by (simp add: seg_append)
  let ?l = "\<lparr>ll_size = int (length (ys @ zs)), ll_head = first (ys @ zs) None, ll_tail = final None (ys @ zs)\<rparr>"
  have hd: "(if first ys (Some x) = Some x then first zs None else first ys (Some x)) = first (ys @ zs) None"
    using d(3) by (cases ys) auto
  have tl: "(if final None (x # zs) = Some x then final None ys else final None (x # zs)) = final None (ys @ zs)"
    using d(4) by (cases zs rule: rev_cases) (auto simp: final_def)
  have "ll_remove (Some x) s = Inr (h2, ?l)"
    unfolding s l ll_remove_eq [OF g(2) h1(1) x1 h2(1) x2] hd tl by simp
  then show ?thesis using sg d s g(2) x2 by (auto simp: ll_rep_def)
qed

lemma pop_front_rep:
  "ll_rep s (x # xs) \<Longrightarrow> \<exists>s'. ll_pop_front s = Inr (Some x, s') \<and> ll_rep s' xs"
  using remove_rep [of s "[]" x xs] by (auto simp: ll_pop_front_def ll_rep_def)

lemma iterate_seg: "seg h p xs None \<Longrightarrow> length xs \<le> n \<Longrightarrow> iterate n h (first xs None) = Inr xs"
proof (induction xs arbitrary: p n)
  case Nil
  then show ?case by (cases n) (auto simp: iter_next_def)
next
  case (Cons x xs)
  then obtain m where "n = Suc m" "length xs \<le> m" by (cases n) auto
  then show ?case using Cons.IH [of "Some x" m] Cons.prems by (simp add: iter_next_def node_at_def)
qed

section \<open>The interface\<close>

text \<open>
  A queue with removal in place: elements outside of the queue can be appended, the first element is
  taken out, any element of the queue is removed, and iteration yields the queue in order.
\<close>

locale intrusive_queue =
  fixes rep :: "'s \<Rightarrow> nat list \<Rightarrow> bool" and node :: "'s \<Rightarrow> nat \<Rightarrow> bool"
    and push :: "nat \<Rightarrow> 's \<Rightarrow> 's res" and pop :: "'s \<Rightarrow> (nat \<times> 's) res" and remove :: "nat \<Rightarrow> 's \<Rightarrow> 's res"
  assumes push_law: "rep s xs \<Longrightarrow> x \<notin> set xs \<Longrightarrow> node s x \<Longrightarrow> \<exists>s'. push x s = Inr s' \<and> rep s' (xs @ [x])"
    and pop_law: "rep s (x # xs) \<Longrightarrow> \<exists>s'. pop s = Inr (x, s') \<and> rep s' xs \<and> node s' x"
    and remove_law: "rep s (ys @ x # zs) \<Longrightarrow> \<exists>s'. remove x s = Inr s' \<and> rep s' (ys @ zs) \<and> node s' x"
begin

text \<open>Moving an element to the end of the queue, and rotating it.\<close>

lemma touch: "rep s (ys @ x # zs) \<Longrightarrow> x \<notin> set (ys @ zs) \<Longrightarrow> \<exists>s'. rbind (remove x s) (push x) = Inr s' \<and> rep s' (ys @ zs @ [x])"
  using remove_law push_law by (metis append_assoc rbind_Inr)

lemma rotate: "rep s (x # xs) \<Longrightarrow> x \<notin> set xs \<Longrightarrow> \<exists>s'. rbind (pop s) (\<lambda>(y, s1). push y s1) = Inr s' \<and> rep s' (xs @ [x])"
  using pop_law push_law by (metis case_prod_conv rbind_Inr)

end

definition ll_node :: "lheap \<times> LinkedList \<Rightarrow> nat \<Rightarrow> bool" where
  "ll_node s a \<longleftrightarrow> fst s a \<noteq> None"

interpretation ll: intrusive_queue ll_rep ll_node "\<lambda>x. ll_push_back (Some x)"
  "\<lambda>s. rbind (ll_pop_front s) (\<lambda>(t, s'). rbind (deref t) (\<lambda>x. Inr (x, s')))" "\<lambda>x. ll_remove (Some x)"
proof unfold_locales
  show "\<exists>s'. ll_push_back (Some x) s = Inr s' \<and> ll_rep s' (xs @ [x])" if "ll_rep s xs" "x \<notin> set xs" "ll_node s x" for s xs x
    using push_back_rep that by (simp add: ll_node_def)
  have r: "\<exists>s'. ll_remove (Some x) s = Inr s' \<and> ll_rep s' (ys @ zs) \<and> ll_node s' x" if "ll_rep s (ys @ x # zs)" for s ys x zs
  proof -
    have "fst s x \<noteq> None" using that by (auto simp: ll_rep_def seg_append)
    then show ?thesis using remove_rep [OF that] by (auto simp: ll_node_def)
  qed
  then show "\<exists>s'. ll_remove (Some x) s = Inr s' \<and> ll_rep s' (ys @ zs) \<and> ll_node s' x" if "ll_rep s (ys @ x # zs)" for s ys x zs
    using that by blast
  show "\<exists>s'. rbind (ll_pop_front s) (\<lambda>(t, s'). rbind (deref t) (\<lambda>x. Inr (x, s'))) = Inr (x, s') \<and> ll_rep s' xs \<and> ll_node s' x" if "ll_rep s (x # xs)" for s x xs
    using r [of s "[]" x xs] that by (auto simp: ll_pop_front_def ll_rep_def)
qed

section \<open>Properties\<close>

text \<open>LinkedList is a queue with removal in place: in a list that represents ys, x and zs, removing x links its
  neighbours and leaves ys and zs; appending x again puts it at the end; an iterator then yields every element
  once, in order, and the size is their number.\<close>

theorem linked_list_touch:
  assumes "ll_rep s (ys @ x # zs)" "length (ys @ zs) < n"
  shows "\<exists>s'. rbind (ll_remove (Some x) s) (ll_push_back (Some x)) = Inr s' \<and>
     iterate n (fst s') (ll_head (snd s')) = Inr (ys @ zs @ [x]) \<and> ll_size (snd s') = int (length (ys @ x # zs))"
proof -
  have "x \<notin> set (ys @ zs)" using assms(1) by (auto simp: ll_rep_def)
  then obtain s' where s': "rbind (ll_remove (Some x) s) (ll_push_back (Some x)) = Inr s'" "ll_rep s' (ys @ zs @ [x])"
    using ll.touch [OF assms(1)] by blast
  then have "iterate n (fst s') (first (ys @ zs @ [x]) None) = Inr (ys @ zs @ [x])"
    using iterate_seg [of "fst s'" None "ys @ zs @ [x]" n] assms(2) unfolding ll_rep_def by simp
  then show ?thesis using s' by (auto simp: ll_rep_def)
qed

theorem linked_list_touch_witness:
  "\<exists>s s'. rbind (ll_push_back (Some 7) ([5 \<mapsto> \<lparr>ln_prev = None, ln_next = None\<rparr>, 7 \<mapsto> \<lparr>ln_prev = None, ln_next = None\<rparr>], LinkedList_new)) (ll_push_back (Some 5)) = Inr s \<and>
     rbind (ll_remove (Some 7) s) (ll_push_back (Some 7)) = Inr s' \<and> iterate 3 (fst s') (ll_head (snd s')) = Inr [5, 7] \<and> ll_size (snd s') = 2"
proof -
  let ?h = "[5 \<mapsto> \<lparr>ln_prev = None, ln_next = None\<rparr>, 7 \<mapsto> \<lparr>ln_prev = None, ln_next = None\<rparr>] :: lheap"
  let ?h' = "[5 \<mapsto> \<lparr>ln_prev = Some 7, ln_next = None\<rparr>, 7 \<mapsto> \<lparr>ln_prev = None, ln_next = Some 5\<rparr>] :: lheap"
  let ?s = "(?h', \<lparr>ll_size = 2, ll_head = Some 7, ll_tail = Some 5\<rparr>)"
  have "rbind (ll_push_back (Some 7) (?h, LinkedList_new)) (ll_push_back (Some 5)) = Inr ?s"
    by (simp add: ll_push_back_def set_prev_def set_next_def node_at_def LinkedList_new_def fun_eq_iff)
  moreover have "ll_rep ?s ([] @ 7 # [5])" by (simp add: ll_rep_def)
  ultimately show ?thesis using linked_list_touch [of ?s "[]" 7 "[5]" 3] by auto
qed

end
