(* ===== verification/Ip_Filter.thy ===== *)
theory Ip_Filter
  imports Bespokv_Prelude "HOL-Library.List_Lexorder" "HOL-Library.Char_ord" "HOL-Library.Sublist"
begin

text \<open>
  The class IpFilter of src/src/util/ip_filter.h: rules that allow or deny addresses by prefix, kept
  in two std::set objects and looked up with upper_bound. The lookup is shown to decide whether a rule
  matches when no rule is a prefix of another one, and to miss a rule otherwise.
\<close>

section \<open>The class\<close>

record IpFilter =
  deny_all :: bool
  allow_all :: bool
  ip_empty :: bool
  deny :: "string list"
  allow :: "string list"

definition IpFilter_new :: IpFilter where
  "IpFilter_new = \<lparr>deny_all = False, allow_all = False, ip_empty = True, deny = [], allow = []\<rparr>"

text \<open>std::set<std::string> as the list of its elements in order.\<close>

definition strset_insert :: "string \<Rightarrow> string list \<Rightarrow> string list" where
  "strset_insert x xs = (if x \<in> set xs then xs else insort x xs)"

definition upper_bound :: "string list \<Rightarrow> string \<Rightarrow> string option" where
  "upper_bound m x = find (\<lambda>y. x < y) m"

definition check_hit :: "string list \<Rightarrow> string \<Rightarrow> bool" where
  "check_hit m ip =
     (if m = [] then False
      else case upper_bound m ip of
        None \<Rightarrow> False
      | Some pre \<Rightarrow>
          let len = length pre - 1 in
          if pre ! len = CHR ''='' then take len pre = ip
          else if length ip > len then take len ip = take len pre
          else False)"

definition is_full_ip :: "string \<Rightarrow> bool" where
  "is_full_ip ip_prefix \<longleftrightarrow> length (filter (\<lambda>c. c = CHR ''.'') ip_prefix) = 3"

definition is_any :: "string \<Rightarrow> bool" where
  "is_any ip_prefix \<longleftrightarrow> ip_prefix = ''all'' \<or> ip_prefix = ''*''"

definition ip_entry :: "string \<Rightarrow> string" where
  "ip_entry ip_prefix = ip_prefix @ (if is_full_ip ip_prefix then ''='' else ''@'')"

definition add_allow :: "string \<Rightarrow> IpFilter \<Rightarrow> IpFilter" where
  "add_allow r f =
     (if is_any r then f\<lparr>allow_all := True, ip_empty := False\<rparr>
      else f\<lparr>allow := strset_insert (ip_entry r) (allow f), ip_empty := False\<rparr>)"

definition add_deny :: "string \<Rightarrow> IpFilter \<Rightarrow> IpFilter" where
  "add_deny r f =
     (if is_any r then f\<lparr>deny_all := True, ip_empty := False\<rparr>
      else f\<lparr>deny := strset_insert (ip_entry r) (deny f), ip_empty := False\<rparr>)"

definition check_pass :: "IpFilter \<Rightarrow> string \<Rightarrow> bool" where
  "check_pass f ip =
     (if ip_empty f then True
      else if check_hit (allow f) ip then True
      else if check_hit (deny f) ip then False
      else if deny_all f then False
      else if allow_all f then True
      else False)"

section \<open>Matching\<close>

text \<open>A full address matches itself, a shorter rule every longer address that it begins.\<close>

definition ip_matches :: "string \<Rightarrow> string \<Rightarrow> bool" where
  "ip_matches r ip \<longleftrightarrow> (if is_full_ip r then ip = r else strict_prefix r ip)"

definition ip_chars :: "string \<Rightarrow> bool" where
  "ip_chars s \<longleftrightarrow> (\<forall>c\<in>set s. c < CHR ''='')"

definition antichain :: "string set \<Rightarrow> bool" where
  "antichain R \<longleftrightarrow> (\<forall>r\<in>R. \<forall>r'\<in>R. prefix r r' \<longrightarrow> r = r')"

lemma between_prefix: "r @ x < e \<Longrightarrow> e < r @ [c] \<Longrightarrow> prefix r e" for r :: string
proof (induction r arbitrary: e)
  case (Cons a r)
  then obtain b e' where e: "e = b # e'" by (cases e) auto
  then have "a = b" using Cons.prems by auto
  then show ?case using Cons e by auto
qed simp

lemma entry_last [simp]: "ip_entry r = r @ [if is_full_ip r then CHR ''='' else CHR ''@'']"
  by (simp add: ip_entry_def)

lemma less_snoc: "r < r @ [c]" for r :: string
  by (induction r) auto

lemma matches_below:
  assumes "ip_matches r ip" "ip_chars ip"
  shows "\<exists>x. ip = r @ x \<and> ip < ip_entry r"
proof -
  obtain x where x: "ip = r @ x" using assms(1) by (auto simp: ip_matches_def prefix_def strict_prefix_def split: if_splits)
  show ?thesis
  proof (cases "is_full_ip r")
    case True
    then show ?thesis using assms(1) x by (simp add: ip_matches_def less_snoc)
  next
    case False
    then obtain c y where c: "x = c # y" using assms(1) x by (cases x) (auto simp: ip_matches_def)
    then have "c < CHR ''=''" using assms(2) x by (simp add: ip_chars_def)
    then have "c < CHR ''@''" by (simp add: less_char_def)
    then have "r @ c # y < r @ ''@''" by (induction r) auto
    then show ?thesis using x c False by simp
  qed
qed

lemma find_sorted:
  assumes "sorted m" "e \<in> set m" "ip < e"
  shows "\<exists>e'. find (\<lambda>y. ip < y) m = Some e' \<and> e' \<in> set m \<and> ip < e' \<and> e' \<le> e"
  using assms by (induction m) auto

lemma hit_entry: "(let len = length (ip_entry r) - 1 in
     if ip_entry r ! len = CHR ''='' then take len (ip_entry r) = ip
     else if length ip > len then take len ip = take len (ip_entry r) else False) \<longleftrightarrow> ip_matches r ip"
  by (auto simp: ip_matches_def nth_append strict_prefix_def prefix_def Let_def) (metis append_take_drop_id append_eq_conv_conj)+

lemma check_hit_iff:
  assumes "sorted m" "set m = ip_entry ` R" "antichain R" "\<forall>r\<in>R. ip_chars r" "ip_chars ip"
  shows "check_hit m ip \<longleftrightarrow> (\<exists>r\<in>R. ip_matches r ip)"
proof
  assume h: "check_hit m ip"
  then obtain e where e: "upper_bound m ip = Some e" by (auto simp: check_hit_def split: if_splits option.splits)
  then have "e \<in> set m" by (auto simp: upper_bound_def find_Some_iff)
  then obtain r where r: "r \<in> R" "e = ip_entry r" using assms(2) by auto
  then show "\<exists>r\<in>R. ip_matches r ip" using h e hit_entry [of r ip] by (auto simp: check_hit_def split: if_splits)
next
  assume "\<exists>r\<in>R. ip_matches r ip"
  then obtain r x where r: "r \<in> R" "ip_matches r ip" "ip = r @ x" "ip < ip_entry r" using matches_below assms(5) by blast
  have "ip_entry r \<in> set m" using assms(2) r(1) by blast
  then obtain e where e: "find (\<lambda>y. ip < y) m = Some e" "e \<in> set m" "ip < e" "e \<le> ip_entry r" using find_sorted [OF assms(1) _ r(4)] by blast
  then obtain r' where r': "r' \<in> R" "e = ip_entry r'" using assms(2) by auto
  have "r' = r"
  proof (rule ccontr)
    assume ne: "r' \<noteq> r"
    then have "e < ip_entry r" using e(4) r' by (auto simp: le_less)
    then have "prefix r (r' @ [if is_full_ip r' then CHR ''='' else CHR ''@''])" using between_prefix [of r x e] e(3) r(3) r'(2) by simp
    moreover have "\<not> prefix r r'" using assms(3) r(1) r'(1) ne by (auto simp: antichain_def)
    ultimately have "r = r' @ [if is_full_ip r' then CHR ''='' else CHR ''@'']" by simp
    then have "(if is_full_ip r' then CHR ''='' else CHR ''@'') < CHR ''=''" using assms(4) r(1) by (metis ip_chars_def in_set_conv_decomp)
    then show False by (simp add: less_char_def split: if_splits)
  qed
  then show "check_hit m ip" using e(1,2) r'(2) hit_entry [of r ip] r(2) by (cases "is_full_ip r") (auto simp: check_hit_def upper_bound_def Let_def split: if_splits)
qed

lemma strset_insert_props: "sorted xs \<Longrightarrow> sorted (strset_insert x xs)" "set (strset_insert x xs) = insert x (set xs)"
  by (auto simp: strset_insert_def set_insort_key sorted_insort)

definition named :: "string list \<Rightarrow> string set" where
  "named rs = {r \<in> set rs. \<not> is_any r}"

lemma fold_allow:
  "sorted (allow f) \<Longrightarrow> (let g = fold add_allow rs f in sorted (allow g) \<and> set (allow g) = set (allow f) \<union> ip_entry ` named rs \<and>
     (allow_all g \<longleftrightarrow> allow_all f \<or> (\<exists>r\<in>set rs. is_any r)) \<and> (ip_empty g \<longleftrightarrow> ip_empty f \<and> rs = []) \<and> deny g = deny f \<and> deny_all g = deny_all f)"
  by (induction rs arbitrary: f) (auto simp: add_allow_def named_def Let_def strset_insert_props)

lemma fold_deny:
  "sorted (deny f) \<Longrightarrow> (let g = fold add_deny rs f in sorted (deny g) \<and> set (deny g) = set (deny f) \<union> ip_entry ` named rs \<and>
     (deny_all g \<longleftrightarrow> deny_all f \<or> (\<exists>r\<in>set rs. is_any r)) \<and> (ip_empty g \<longleftrightarrow> ip_empty f \<and> rs = []) \<and> allow g = allow f \<and> allow_all g = allow_all f)"
  by (induction rs arbitrary: f) (auto simp: add_deny_def named_def Let_def strset_insert_props)

text \<open>A longer rule hides a shorter one: the address begins with an allowed prefix, and is refused.\<close>

lemma nested_rule_missed:
  "ip_matches ''10.'' ''10.0.0.1'' \<and> \<not> check_pass (fold add_allow [''10.'', ''10.0.0.2''] IpFilter_new) ''10.0.0.1''"
  by code_simp

section \<open>Properties\<close>

text \<open>IpFilter decides as its rules say, when the rules consist of digits and dots and none is a prefix of another:
  without rules every address passes; otherwise an allowed address passes, then a denied one does not,
  and the rest passes only when all are allowed and not all are denied.\<close>

theorem ip_filter_decides:
  assumes "antichain (named allows)" "antichain (named denies)" "\<forall>r\<in>named allows \<union> named denies. ip_chars r" "ip_chars ip"
  shows "check_pass (fold add_deny denies (fold add_allow allows IpFilter_new)) ip \<longleftrightarrow>
     (allows = [] \<and> denies = []) \<or> (\<exists>r\<in>named allows. ip_matches r ip) \<or>
     (\<not> (\<exists>r\<in>named denies. ip_matches r ip) \<and> \<not> (\<exists>r\<in>set denies. is_any r) \<and> (\<exists>r\<in>set allows. is_any r))"
proof -
  let ?f = "fold add_allow allows IpFilter_new" and ?g = "fold add_deny denies (fold add_allow allows IpFilter_new)"
  have f: "sorted (allow ?f)" "set (allow ?f) = ip_entry ` named allows" "allow_all ?f \<longleftrightarrow> (\<exists>r\<in>set allows. is_any r)" "ip_empty ?f \<longleftrightarrow> allows = []"
    "deny ?f = []" "\<not> deny_all ?f"
    using fold_allow [of IpFilter_new allows] by (auto simp: Let_def IpFilter_new_def)
  have g: "sorted (deny ?g)" "set (deny ?g) = ip_entry ` named denies" "deny_all ?g \<longleftrightarrow> (\<exists>r\<in>set denies. is_any r)"
    "ip_empty ?g \<longleftrightarrow> allows = [] \<and> denies = []" "allow ?g = allow ?f" "allow_all ?g = allow_all ?f"
    using fold_deny [of ?f denies] f by (auto simp: Let_def)
  have "check_hit (allow ?g) ip \<longleftrightarrow> (\<exists>r\<in>named allows. ip_matches r ip)" using check_hit_iff [OF f(1,2) assms(1) _ assms(4)] assms(3) g(5) by auto
  moreover have "check_hit (deny ?g) ip \<longleftrightarrow> (\<exists>r\<in>named denies. ip_matches r ip)" using check_hit_iff [OF g(1,2) assms(2) _ assms(4)] assms(3) by auto
  ultimately show ?thesis using f(3) g(3,4,6) by (auto simp: check_pass_def)
qed

theorem ip_filter_decides_witness:
  "check_pass (fold add_deny [''10.1.''] (fold add_allow [''all'', ''10.2.0.1''] IpFilter_new)) ''10.2.0.1'' \<and>
   \<not> check_pass (fold add_deny [''10.1.''] (fold add_allow [''all'', ''10.2.0.1''] IpFilter_new)) ''10.1.0.1''"
proof -
  have n: "named [''all'', ''10.2.0.1''] = {''10.2.0.1''}" "named [''10.1.''] = {''10.1.''}" by (auto simp: named_def is_any_def)
  have m: "ip_matches ''10.2.0.1'' ''10.2.0.1''" "ip_matches ''10.1.'' ''10.1.0.1''" "\<not> ip_matches ''10.2.0.1'' ''10.1.0.1''"
    by (simp_all add: ip_matches_def is_full_ip_def strict_prefix_def)
  have c: "ip_chars ''10.2.0.1''" "ip_chars ''10.1.0.1''" "ip_chars ''10.1.''" by (simp_all add: ip_chars_def less_char_def)
  have a: "antichain {''10.2.0.1''}" "antichain {''10.1.''}" by (simp_all add: antichain_def)
  show ?thesis
    using ip_filter_decides [of "[''all'', ''10.2.0.1'']" "[''10.1.'']" "''10.2.0.1''"] ip_filter_decides [of "[''all'', ''10.2.0.1'']" "[''10.1.'']" "''10.1.0.1''"]
    unfolding n using m c a by simp
qed

end
