(* ===== verification/C_Float.thy ===== *)
theory C_Float
  imports Complex_Main
begin

text \<open>
  Floating point numbers of C as far as the sources compute with them: a number is (m, e) for
  m * 2 ^ e, and the result of an operation is rounded to the nearest number whose mantissa has a
  given number of bits, ties to even. The exponents that occur are far from the bounds of the types.
\<close>

section \<open>Rounding\<close>

type_synonym dbl = "int \<times> int"

function bits :: "int \<Rightarrow> int" where
  "bits n = (if n \<le> 0 then 0 else 1 + bits (n div 2))"
  by pat_completeness auto
termination by (relation "measure nat") auto

declare bits.simps [simp del]

definition round_even :: "int \<Rightarrow> int \<Rightarrow> int" where
  "round_even a b = (let q = a div b; r = a mod b in if 2 * r < b \<or> (2 * r = b \<and> even q) then q else q + 1)"

text \<open>Rounding to p bits: 24 for float, 53 for double.\<close>

definition fround :: "nat \<Rightarrow> dbl \<Rightarrow> dbl" where
  "fround p x = (case x of (m, e) \<Rightarrow>
     let k = bits \<bar>m\<bar> - int p in if k \<le> 0 then (m, e) else (sgn m * round_even \<bar>m\<bar> (2 ^ nat k), e + k))"

definition ftimes :: "nat \<Rightarrow> dbl \<Rightarrow> dbl \<Rightarrow> dbl" where
  "ftimes p x y = fround p (fst x * fst y, snd x + snd y)"

definition fplus :: "nat \<Rightarrow> dbl \<Rightarrow> dbl \<Rightarrow> dbl" where
  "fplus p x y = (let e = min (snd x) (snd y) in fround p (fst x * 2 ^ nat (snd x - e) + fst y * 2 ^ nat (snd y - e), e))"

text \<open>The conversion to an integer drops the fraction.\<close>

definition ftrunc :: "dbl \<Rightarrow> int" where
  "ftrunc x = (case x of (m, e) \<Rightarrow> if e < 0 then sgn m * (\<bar>m\<bar> div 2 ^ nat (- e)) else m * 2 ^ nat e)"

definition dval :: "dbl \<Rightarrow> real" where
  "dval x = of_int (fst x) * 2 powi snd x"

lemma bits_0: "bits 0 = 0"
  by (subst bits.simps) simp

lemma bits_bound: "0 < n \<Longrightarrow> 0 < bits n \<and> 2 ^ nat (bits n - 1) \<le> n \<and> n < 2 ^ nat (bits n)"
proof (induction n rule: bits.induct)
  case (1 n)
  have b: "bits n = 1 + bits (n div 2)" using "1.prems" by (subst bits.simps) simp
  show ?case
  proof (cases "n = 1")
    case True
    then show ?thesis using b by (simp add: bits_0)
  next
    case False
    then have ih: "0 < bits (n div 2)" "2 ^ nat (bits (n div 2) - 1) \<le> n div 2" "n div 2 < 2 ^ nat (bits (n div 2))" using 1 by auto
    then have "nat (bits n - 1) = Suc (nat (bits (n div 2) - 1))" "nat (bits n) = Suc (nat (bits (n div 2)))" unfolding b by arith+
    moreover have "2 * 2 ^ nat (bits (n div 2) - 1) \<le> n" "n < 2 * 2 ^ nat (bits (n div 2))" using ih(2,3) by linarith+
    ultimately show ?thesis using ih(1) b by (simp only: power_Suc) simp
  qed
qed

lemma bits_powi: "0 < n \<Longrightarrow> 2 powi (bits n - 1) \<le> real_of_int n \<and> real_of_int n < 2 powi bits n"
proof -
  assume n: "0 < n"
  have "real_of_int (2 ^ nat (bits n - 1)) \<le> real_of_int n" "real_of_int n < real_of_int (2 ^ nat (bits n))"
    using bits_bound [OF n] by (simp_all only: of_int_le_iff of_int_less_iff)
  then show ?thesis using bits_bound [OF n] by (simp add: power_int_def)
qed

lemma round_even_near:
  assumes "0 < b"
  shows "\<bar>real_of_int (round_even a b) - real_of_int a / real_of_int b\<bar> \<le> 1 / 2"
proof -
  have q: "real_of_int a / real_of_int b = real_of_int (a div b) + real_of_int (a mod b) / real_of_int b" 
  proof -
    have "real_of_int (a div b * b + a mod b) = real_of_int a" by (simp only: div_mult_mod_eq)
    then have "real_of_int a = real_of_int (a div b) * real_of_int b + real_of_int (a mod b)" by (simp only: of_int_add of_int_mult)
    then show ?thesis using assms by (simp add: field_simps)
  qed
  have r: "0 \<le> real_of_int (a mod b)" "real_of_int (a mod b) < real_of_int b" using assms by simp_all
  have "(round_even a b = a div b \<and> 2 * (a mod b) \<le> b) \<or> (round_even a b = a div b + 1 \<and> b \<le> 2 * (a mod b))"
    unfolding round_even_def Let_def by auto
  then consider "round_even a b = a div b" "2 * (a mod b) \<le> b" | "round_even a b = a div b + 1" "b \<le> 2 * (a mod b)" by blast
  then show ?thesis
  proof cases
    case 1
    then have "real_of_int (a mod b) / real_of_int b \<le> 1 / 2" using assms by (simp add: field_simps)
    then show ?thesis unfolding q 1(1) using r assms by simp
  next
    case 2
    then have "1 / 2 \<le> real_of_int (a mod b) / real_of_int b" using assms by (simp add: field_simps)
    moreover have "real_of_int (a mod b) / real_of_int b \<le> 1" using r assms by (subst divide_le_eq_1_pos) (simp, linarith)
    ultimately show ?thesis unfolding q 2(1) by simp
  qed
qed

section \<open>Bounds on non-negative numbers\<close>

lemma round_even_le: "0 < b \<Longrightarrow> b \<le> a \<Longrightarrow> 0 \<le> round_even a b \<and> real_of_int (round_even a b) \<le> 2 * (real_of_int a / real_of_int b)"
proof -
  assume b: "0 < b" "b \<le> a"
  have "1 \<le> real_of_int a / real_of_int b" using b by (simp add: le_divide_eq_1_pos)
  then have "real_of_int (round_even a b) \<le> 2 * (real_of_int a / real_of_int b)" "0 \<le> real_of_int (round_even a b)" using round_even_near [OF b(1), of a] by linarith+
  then show ?thesis by simp
qed

lemma fround_bounds:
  assumes "0 \<le> m" "0 < p"
  shows "0 \<le> fst (fround p (m, e)) \<and> dval (fround p (m, e)) \<le> 2 * dval (m, e)"
proof (cases "bits \<bar>m\<bar> - int p \<le> 0")
  case True
  then show ?thesis using assms(1) by (simp add: fround_def dval_def)
next
  case False
  let ?k = "bits m - int p"
  have k: "0 < ?k" "0 < m" using False assms by (auto simp: bits_0 intro: order.not_eq_order_implies_strict)
  have "2 ^ nat ?k \<le> m"
  proof -
    have "nat ?k \<le> nat (bits m - 1)" using assms(2) by simp
    then have "(2::int) ^ nat ?k \<le> 2 ^ nat (bits m - 1)" by (intro power_increasing) auto
    then show ?thesis using bits_bound [OF k(2)] by linarith
  qed
  then have r: "0 \<le> round_even m (2 ^ nat ?k)" "real_of_int (round_even m (2 ^ nat ?k)) \<le> 2 * (real_of_int m / 2 ^ nat ?k)"
    using round_even_le [of "2 ^ nat ?k" m] by simp_all
  have "2 powi (e + ?k) = (2 powi e * 2 powi ?k :: real)" by (rule power_int_add) simp
  then have e: "2 powi (e + ?k) = (2 powi e * 2 ^ nat ?k :: real)" using k(1) by (simp add: power_int_def)
  have "real_of_int (round_even m (2 ^ nat ?k)) * 2 powi (e + ?k) \<le> 2 * (real_of_int m / 2 ^ nat ?k) * 2 powi (e + ?k)"
    by (rule mult_right_mono [OF r(2)]) simp
  also have "\<dots> = 2 * (real_of_int m * 2 powi e)" unfolding e by simp
  finally show ?thesis using r(1) False k(2) assms(1) by (simp add: fround_def dval_def Let_def)
qed

lemma ftrunc_le: "0 \<le> m \<Longrightarrow> 0 \<le> ftrunc (m, e) \<and> real_of_int (ftrunc (m, e)) \<le> dval (m, e)"
proof (cases "e < 0")
  case True
  assume m: "0 \<le> m"
  have "real_of_int (m div 2 ^ nat (- e)) \<le> real_of_int m / 2 ^ nat (- e)" using floor_divide_of_int_eq [of m "2 ^ nat (- e)"] by (metis of_int_floor_le of_int_numeral of_int_power)
  then show ?thesis using True m by (auto simp: ftrunc_def dval_def power_int_def field_simps sgn_if pos_imp_zdiv_nonneg_iff)
qed (simp add: ftrunc_def dval_def power_int_def)

lemma le_divI: "0 < (b :: int) \<Longrightarrow> a * b \<le> m \<Longrightarrow> a \<le> m div b"
  using zdiv_mono1 [of "a * b" m b] by simp

text \<open>A number of at least 2 is not rounded below 2.\<close>

lemma fround_ge_2:
  assumes "e \<le> 0" "2 * 2 ^ nat (- e) \<le> m" "2 \<le> p"
  shows "2 \<le> ftrunc (fround p (m, e))"
proof (cases "bits m - int p \<le> 0")
  case True
  have "0 < m" using assms(2) zero_less_power [of "2 :: int" "nat (- e)"] by linarith
  then show ?thesis using True assms le_divI [of "2 ^ nat (- e)" 2 m] by (cases "e = 0") (auto simp: fround_def ftrunc_def Let_def)
next
  case False
  let ?k = "bits m - int p" and ?r = "round_even m (2 ^ nat (bits m - int p))"
  have m: "0 < m" using assms(2) zero_less_power [of "2 :: int" "nat (- e)"] by linarith
  have b: "2 ^ nat (bits m - 1) \<le> m" "m < 2 ^ nat (bits m)" "0 < bits m" using bits_bound [OF m] by simp_all
  have "nat (bits m - 1) = (p - 1) + nat ?k" using False assms(3) by linarith
  then have "(2::int) ^ nat (bits m - 1) = 2 ^ (p - 1) * 2 ^ nat ?k" by (simp only: power_add)
  then have "2 ^ (p - 1) \<le> m div 2 ^ nat ?k" using b(1) by (intro le_divI) simp_all
  moreover have "m div 2 ^ nat ?k \<le> ?r" by (simp add: round_even_def Let_def)
  ultimately have r: "2 ^ (p - 1) \<le> ?r" by linarith
  have "(2::int) ^ Suc (nat (- e)) < 2 ^ nat (bits m)" using assms(2) b(2) unfolding power_Suc by linarith
  then have "Suc (nat (- e)) < nat (bits m)" by (simp only: power_strict_increasing_iff)
  then have e: "2 - int p \<le> e + ?k" using assms(1) by linarith
  have two: "(2::int) \<le> 2 ^ (p - 1)" using power_increasing [of 1 "p - 1" "2 :: int"] assms(3) by simp
  have f: "fround p (m, e) = (?r, e + ?k)" using False m by (simp add: fround_def Let_def)
  show ?thesis
  proof (cases "e + ?k < 0")
    case True
    have "Suc (nat (- (e + ?k))) \<le> p - 1" using e True by linarith
    then have "(2::int) ^ Suc (nat (- (e + ?k))) \<le> 2 ^ (p - 1)" by (intro power_increasing) auto
    then have "2 * 2 ^ nat (- (e + ?k)) \<le> ?r" using r unfolding power_Suc by linarith
    then have "2 \<le> ?r div 2 ^ nat (- (e + ?k))" by (intro le_divI) simp_all
    then show ?thesis using True r two unfolding f by (simp add: ftrunc_def)
  next
    case ge: False
    have "?r * 1 \<le> ?r * 2 ^ nat (e + ?k)" using r two by (intro mult_left_mono) simp_all
    then have "2 \<le> ?r * 2 ^ nat (e + ?k)" using r two by linarith
    then show ?thesis using ge unfolding f by (simp add: ftrunc_def)
  qed
qed

end
