(* ===== verification/Md5.thy ===== *)
theory Md5
  imports Bespokv_Prelude
begin

text \<open>
  The MD5 package src/src/md5.c that the consistent hash ring uses: md5_init, md5_append and
  md5_finish on 32-bit words, with the state that buffers a partial block and counts the bits in two
  words. It is shown to compute, for any way to split a message into calls of md5_append, the digest
  of the padded message.
\<close>

unbundle bit_operations_syntax

section \<open>Blocks\<close>

type_synonym md5_word = "32 word"
type_synonym md5_byte = "8 word"

definition T_mask :: md5_word where "T_mask = - 1"

definition ROTATE_LEFT :: "md5_word \<Rightarrow> nat \<Rightarrow> md5_word" where
  "ROTATE_LEFT x n = push_bit n x OR drop_bit (32 - n) x"

definition F :: "md5_word \<Rightarrow> md5_word \<Rightarrow> md5_word \<Rightarrow> md5_word" where "F x y z = (x AND y) OR (NOT x AND z)"
definition G :: "md5_word \<Rightarrow> md5_word \<Rightarrow> md5_word \<Rightarrow> md5_word" where "G x y z = (x AND z) OR (y AND NOT z)"
definition H :: "md5_word \<Rightarrow> md5_word \<Rightarrow> md5_word \<Rightarrow> md5_word" where "H x y z = x XOR y XOR z"
definition I :: "md5_word \<Rightarrow> md5_word \<Rightarrow> md5_word \<Rightarrow> md5_word" where "I x y z = y XOR (x OR NOT z)"

text \<open>The arguments k, s and Ti of the macro SET, in order.\<close>

definition round1 :: "(nat \<times> nat \<times> md5_word) list" where
  "round1 =
    [(0, 7, T_mask XOR 0x28955b87), (1, 12, T_mask XOR 0x173848a9), (2, 17, 0x242070db), (3, 22, T_mask XOR 0x3e423111),
     (4, 7, T_mask XOR 0x0a83f050), (5, 12, 0x4787c62a), (6, 17, T_mask XOR 0x57cfb9ec), (7, 22, T_mask XOR 0x02b96afe),
     (8, 7, 0x698098d8), (9, 12, T_mask XOR 0x74bb0850), (10, 17, T_mask XOR 0x0000a44e), (11, 22, T_mask XOR 0x76a32841),
     (12, 7, 0x6b901122), (13, 12, T_mask XOR 0x02678e6c), (14, 17, T_mask XOR 0x5986bc71), (15, 22, 0x49b40821)]"

definition round2 :: "(nat \<times> nat \<times> md5_word) list" where
  "round2 =
    [(1, 5, T_mask XOR 0x09e1da9d), (6, 9, T_mask XOR 0x3fbf4cbf), (11, 14, 0x265e5a51), (0, 20, T_mask XOR 0x16493855),
     (5, 5, T_mask XOR 0x29d0efa2), (10, 9, 0x02441453), (15, 14, T_mask XOR 0x275e197e), (4, 20, T_mask XOR 0x182c0437),
     (9, 5, 0x21e1cde6), (14, 9, T_mask XOR 0x3cc8f829), (3, 14, T_mask XOR 0x0b2af278), (8, 20, 0x455a14ed),
     (13, 5, T_mask XOR 0x561c16fa), (2, 9, T_mask XOR 0x03105c07), (7, 14, 0x676f02d9), (12, 20, T_mask XOR 0x72d5b375)]"

definition round3 :: "(nat \<times> nat \<times> md5_word) list" where
  "round3 =
    [(5, 4, T_mask XOR 0x0005c6bd), (8, 11, T_mask XOR 0x788e097e), (11, 16, 0x6d9d6122), (14, 23, T_mask XOR 0x021ac7f3),
     (1, 4, T_mask XOR 0x5b4115bb), (4, 11, 0x4bdecfa9), (7, 16, T_mask XOR 0x0944b49f), (10, 23, T_mask XOR 0x4140438f),
     (13, 4, 0x289b7ec6), (0, 11, T_mask XOR 0x155ed805), (3, 16, T_mask XOR 0x2b10cf7a), (6, 23, 0x04881d05),
     (9, 4, T_mask XOR 0x262b2fc6), (12, 11, T_mask XOR 0x1924661a), (15, 16, 0x1fa27cf8), (2, 23, T_mask XOR 0x3b53a99a)]"

definition round4 :: "(nat \<times> nat \<times> md5_word) list" where
  "round4 =
    [(0, 6, T_mask XOR 0x0bd6ddbb), (7, 10, 0x432aff97), (14, 15, T_mask XOR 0x546bdc58), (5, 21, T_mask XOR 0x036c5fc6),
     (12, 6, 0x655b59c3), (3, 10, T_mask XOR 0x70f3336d), (10, 15, T_mask XOR 0x00100b82), (1, 21, T_mask XOR 0x7a7ba22e),
     (8, 6, 0x6fa87e4f), (15, 10, T_mask XOR 0x01d3191f), (6, 15, T_mask XOR 0x5cfebceb), (13, 21, 0x4e0811a1),
     (4, 6, T_mask XOR 0x08ac817d), (11, 10, T_mask XOR 0x42c50dca), (2, 15, 0x2ad7d2bb), (9, 21, T_mask XOR 0x14792c6e)]"

text \<open>
  SET(a, b, c, d, k, s, Ti) changes a. The next call has its arguments rotated, so the tuple is
  rotated instead; after sixteen calls it is in the old order.
\<close>

type_synonym md5_abcd = "md5_word \<times> md5_word \<times> md5_word \<times> md5_word"

fun SET :: "(md5_word \<Rightarrow> md5_word \<Rightarrow> md5_word \<Rightarrow> md5_word) \<Rightarrow> md5_word list \<Rightarrow> nat \<times> nat \<times> md5_word \<Rightarrow> md5_abcd \<Rightarrow> md5_abcd" where
  "SET f X (k, s, Ti) (a, b, c, d) = (let t = a + f b c d + X ! k + Ti in (d, ROTATE_LEFT t s + b, b, c))"

text \<open>The words of a block of 64 bytes, least significant byte first.\<close>

definition word_at :: "md5_byte list \<Rightarrow> md5_word" where
  "word_at xp = ucast (xp ! 0) + push_bit 8 (ucast (xp ! 1)) + push_bit 16 (ucast (xp ! 2)) + push_bit 24 (ucast (xp ! 3))"

definition block_words :: "md5_byte list \<Rightarrow> md5_word list" where
  "block_words data = map (\<lambda>i. word_at (drop (4 * i) data)) [0..<16]"

definition md5_process :: "md5_byte list \<Rightarrow> md5_abcd \<Rightarrow> md5_abcd" where
  "md5_process data abcd =
     (let X = block_words data in
      case fold (SET I X) round4 (fold (SET H X) round3 (fold (SET G X) round2 (fold (SET F X) round1 abcd))) of (a, b, c, d) \<Rightarrow>
      case abcd of (a0, b0, c0, d0) \<Rightarrow> (a0 + a, b0 + b, c0 + c, d0 + d))"

section \<open>The interface\<close>

record md5_state =
  count0 :: md5_word
  count1 :: md5_word
  abcd :: md5_abcd
  md5_buf :: "md5_byte list"

text \<open>md5_init leaves buf as the memory of the new object, junk, had it.\<close>

definition md5_init :: "md5_byte list \<Rightarrow> md5_state" where
  "md5_init junk = \<lparr>count0 = 0, count1 = 0, abcd = (0x67452301, T_mask XOR 0x10325476, T_mask XOR 0x67452301, 0x10325476), md5_buf = junk\<rparr>"

text \<open>The loop over full blocks: the state of the registers and the bytes that are left.\<close>

fun full_blocks :: "md5_byte list \<Rightarrow> md5_abcd \<Rightarrow> md5_abcd \<times> md5_byte list" where
  "full_blocks p r = (if length p < 64 then (r, p) else full_blocks (drop 64 p) (md5_process (take 64 p) r))"

declare full_blocks.simps [simp del]

text \<open>The message length in bits is kept in two words; offset is the number of bytes in the buffer.\<close>

definition md5_count :: "nat \<Rightarrow> md5_state \<Rightarrow> md5_state" where
  "md5_count nbytes st =
     (let nbits = word_of_int (int nbytes * 8) :: md5_word;
          c1 = count1 st + word_of_int (int nbytes div 2 ^ 29);
          c0 = count0 st + nbits
      in st\<lparr>count0 := c0, count1 := (if c0 < nbits then c1 + 1 else c1)\<rparr>)"

definition md5_offset :: "md5_state \<Rightarrow> nat" where
  "md5_offset st = unat (drop_bit 3 (count0 st) AND 63)"

definition md5_rest :: "md5_byte list \<Rightarrow> md5_state \<Rightarrow> md5_state" where
  "md5_rest p st =
     (case full_blocks p (abcd st) of (r, q) \<Rightarrow>
      st\<lparr>abcd := r, md5_buf := (if q = [] then md5_buf st else blit (md5_buf st) 0 q)\<rparr>)"

definition md5_append :: "md5_byte list \<Rightarrow> md5_state \<Rightarrow> md5_state" where
  "md5_append data st =
     (let nbytes = length data; offset = md5_offset st
      in if nbytes = 0 then st
         else if offset \<noteq> 0 then
           let copy = (if offset + nbytes > 64 then 64 - offset else nbytes);
               st2 = (md5_count nbytes st)\<lparr>md5_buf := blit (md5_buf st) offset (take copy data)\<rparr>
           in if offset + copy < 64 then st2
              else md5_rest (drop copy data) (st2\<lparr>abcd := md5_process (md5_buf st2) (abcd st2)\<rparr>)
         else md5_rest data (md5_count nbytes st))"

definition word_bytes :: "md5_word \<Rightarrow> md5_byte list" where
  "word_bytes w = map (\<lambda>i. ucast (drop_bit (8 * i) w)) [0..<4]"

definition pad :: "md5_byte list" where
  "pad = 0x80 # replicate 63 0"

definition md5_finish :: "md5_state \<Rightarrow> md5_byte list \<times> md5_state" where
  "md5_finish st =
     (let data = word_bytes (count0 st) @ word_bytes (count1 st);
          st1 = md5_append (take (unat ((55 - drop_bit 3 (count0 st)) AND 63) + 1) pad) st;
          st2 = md5_append data st1
      in case abcd st2 of (a, b, c, d) \<Rightarrow> (word_bytes a @ word_bytes b @ word_bytes c @ word_bytes d, st2))"

section \<open>The digest of a message\<close>

definition md5_iv :: md5_abcd where
  "md5_iv = (0x67452301, T_mask XOR 0x10325476, T_mask XOR 0x67452301, 0x10325476)"

definition bits_lo :: "nat \<Rightarrow> md5_word" where
  "bits_lo n = word_of_int (8 * int n)"

definition bits_hi :: "nat \<Rightarrow> md5_word" where
  "bits_hi n = word_of_int (8 * int n div 2 ^ 32)"

definition md5_padded :: "md5_byte list \<Rightarrow> md5_byte list" where
  "md5_padded m = m @ 0x80 # replicate (nat ((55 - int (length m)) mod 64)) 0 @
     word_bytes (bits_lo (length m)) @ word_bytes (bits_hi (length m))"

definition md5_digest :: "md5_byte list \<Rightarrow> md5_byte list" where
  "md5_digest m = (case fst (full_blocks (md5_padded m) md5_iv) of (a, b, c, d) \<Rightarrow> word_bytes a @ word_bytes b @ word_bytes c @ word_bytes d)"

text \<open>The state after the message m.\<close>

definition md5_rep :: "md5_state \<Rightarrow> md5_byte list \<Rightarrow> bool" where
  "md5_rep st m \<longleftrightarrow> length (md5_buf st) = 64 \<and>
     count0 st = bits_lo (length m) \<and> count1 st = bits_hi (length m) \<and>
     full_blocks m md5_iv = (abcd st, take (length m mod 64) (md5_buf st))"

lemma full_blocks_short: "length p < 64 \<Longrightarrow> full_blocks p r = (r, p)"
  by (simp add: full_blocks.simps)

lemma full_blocks_step: "length p = 64 \<Longrightarrow> full_blocks (p @ q) r = full_blocks q (md5_process p r)"
  by (subst full_blocks.simps) simp

lemma full_blocks_append: "full_blocks xs r = (r', q) \<Longrightarrow> full_blocks (xs @ ys) r = full_blocks (q @ ys) r'"
proof (induction xs r rule: full_blocks.induct)
  case (1 p r)
  show ?case
  proof (cases "length p < 64")
    case True
    then show ?thesis using "1.prems" by (simp add: full_blocks_short)
  next
    case False
    then have p: "full_blocks p r = full_blocks (drop 64 p) (md5_process (take 64 p) r)" by (subst full_blocks.simps) simp
    have "full_blocks (p @ ys) r = full_blocks (drop 64 p @ ys) (md5_process (take 64 p) r)"
      using full_blocks_step [of "take 64 p" "drop 64 p @ ys" r] False by (simp add: append_assoc [symmetric] del: append_assoc)
    then show ?thesis using "1.IH" [OF False] "1.prems" p by simp
  qed
qed

lemma full_blocks_rest: "full_blocks p r = (r', q) \<Longrightarrow> length q = length p mod 64"
proof (induction p r rule: full_blocks.induct)
  case (1 p r)
  show ?case
  proof (cases "length p < 64")
    case False
    then have "full_blocks (drop 64 p) (md5_process (take 64 p) r) = (r', q)" using "1.prems" by (subst (asm) full_blocks.simps) simp
    then show ?thesis using "1.IH" [OF False] False by (simp add: le_mod_geq)
  qed (use "1.prems" in \<open>simp add: full_blocks_short\<close>)
qed

text \<open>Offsets are read from the low word of the count.\<close>

lemma uint_count: "uint (word_of_int k :: md5_word) = k mod 2 ^ 32"
  by (subst uint_word_of_int) simp

lemma and_63: "uint (w AND 63 :: md5_word) = uint w mod 64"
proof -
  have "(63 :: md5_word) = mask 6" by (simp add: mask_eq_exp_minus_1)
  then have "w AND 63 = take_bit 6 w" by (simp only: take_bit_eq_mask)
  then have "uint (w AND 63) = take_bit 6 (uint w)" by (simp only: unsigned_take_bit_eq)
  then show ?thesis by (simp only: take_bit_eq_mod) simp
qed

lemma drop_bits_mod: "uint (drop_bit 3 (bits_lo n)) mod 64 = int n mod 64"
proof -
  have "(8 * int n) mod 2 ^ 32 = 8 * (int n mod 2 ^ 29)" using mult_mod_right [of 8 "int n" "2 ^ 29"] by simp
  moreover have "uint (drop_bit 3 (bits_lo n)) = (8 * int n) mod 2 ^ 32 div 2 ^ 3"
    by (simp only: bits_lo_def unsigned_drop_bit_eq bintr_uint order_refl uint_count) (simp add: drop_bit_eq_div take_bit_eq_mod)
  ultimately have "uint (drop_bit 3 (bits_lo n)) = int n mod 2 ^ 29" by simp
  moreover have "int n mod 2 ^ 29 mod 64 = int n mod 64" by (rule mod_mod_cancel) simp
  ultimately show ?thesis by simp
qed

lemma offset_eq: "unat (drop_bit 3 (bits_lo n) AND 63) = n mod 64"
  unfolding unat_eq_nat_uint and_63 drop_bits_mod by (simp add: nat_mod_distrib)

lemma pad_eq: "unat ((55 - drop_bit 3 (bits_lo n)) AND 63) = nat ((55 - int n) mod 64)"
proof -
  have "uint (55 - drop_bit 3 (bits_lo n)) = (55 - uint (drop_bit 3 (bits_lo n))) mod 2 ^ 32" by (simp add: uint_word_ariths)
  moreover have "\<dots> mod 64 = (55 - uint (drop_bit 3 (bits_lo n))) mod 64" by (rule mod_mod_cancel) simp
  moreover have "\<dots> = (55 - int n) mod 64" by (rule mod_diff_cong [OF refl drop_bits_mod])
  ultimately show ?thesis unfolding unat_eq_nat_uint and_63 by simp
qed

lemma carry:
  fixes A B M :: int
  assumes "0 \<le> B" "B < M"
  shows "(A + B) div M = A div M + (if (A + B) mod M < B then 1 else 0)"
proof -
  have r: "0 \<le> A mod M" "A mod M < M" using assms by simp_all
  have AB: "A + B = (A mod M + B) + M * (A div M)" by (simp add: mod_mult_div_eq algebra_simps)
  have m: "(A + B) mod M = (A mod M + B) mod M" by (simp add: mod_simps)
  have "((A mod M + B) + M * (A div M)) div M = A div M + (A mod M + B) div M" by (rule div_mult_self2) (use assms in simp)
  then have d: "(A + B) div M = (A mod M + B) div M + A div M" unfolding AB [symmetric] by (simp only: add.commute)
  show ?thesis
  proof (cases "A mod M + B < M")
    case True
    then have "(A mod M + B) div M = 0" "(A mod M + B) mod M = A mod M + B" using r assms by simp_all
    then show ?thesis unfolding d unfolding m using r(1) by simp
  next
    case False
    have "(A mod M + B) div M = 1" by (rule int_div_pos_eq [of _ _ _ "A mod M + B - M"]) (use False r assms in linarith)+
    moreover have "(A mod M + B) mod M = A mod M + B - M" by (rule int_mod_pos_eq [of _ _ 1]) (use False r assms in linarith)+
    ultimately show ?thesis unfolding d unfolding m using r(2) by simp
  qed
qed

lemma count_append:
  assumes "n < 2 ^ 28"
  shows "word_of_int (8 * int k) + word_of_int (int n * 8) = (word_of_int (8 * int (k + n)) :: md5_word)"
    "(if (word_of_int (8 * int (k + n)) :: md5_word) < word_of_int (int n * 8) then word_of_int (8 * int k div 2 ^ 32) + word_of_int (int n div 2 ^ 29) + 1
      else word_of_int (8 * int k div 2 ^ 32) + word_of_int (int n div 2 ^ 29)) = (word_of_int (8 * int (k + n) div 2 ^ 32) :: md5_word)"
proof -
  have kn: "8 * int (k + n) = 8 * int k + int n * 8" by simp
  show "word_of_int (8 * int k) + word_of_int (int n * 8) = (word_of_int (8 * int (k + n)) :: md5_word)"
    unfolding kn by (simp only: wi_hom_add)
  have b: "0 \<le> int n * 8" "int n * 8 < 2 ^ 32" "int n div 2 ^ 29 = 0" using assms by simp_all
  have "uint (word_of_int (int n * 8) :: md5_word) = int n * 8" unfolding uint_count using b by (intro mod_pos_pos_trivial)
  then have lt: "((word_of_int (8 * int (k + n)) :: md5_word) < word_of_int (int n * 8)) = ((8 * int k + int n * 8) mod 2 ^ 32 < int n * 8)"
    unfolding word_less_alt uint_count kn by (simp only:)
  have d: "8 * int (k + n) div 2 ^ 32 = 8 * int k div 2 ^ 32 + (if (8 * int k + int n * 8) mod 2 ^ 32 < int n * 8 then 1 else 0)"
    unfolding kn by (rule carry [OF b(1,2)])
  have add: "word_of_int (x + 1) = (word_of_int x + 1 :: md5_word)" for x by (metis wi_hom_add word_1_wi)
  show "(if (word_of_int (8 * int (k + n)) :: md5_word) < word_of_int (int n * 8) then word_of_int (8 * int k div 2 ^ 32) + word_of_int (int n div 2 ^ 29) + 1
      else word_of_int (8 * int k div 2 ^ 32) + word_of_int (int n div 2 ^ 29)) = (word_of_int (8 * int (k + n) div 2 ^ 32) :: md5_word)"
    unfolding lt b(3) d by (cases "(8 * int k + int n * 8) mod 2 ^ 32 < int n * 8") (simp_all only: if_True if_False add add_0_right word_0_wi [symmetric])
qed

lemma count_update: "count0 (st\<lparr>count0 := a, count1 := b\<rparr>) = a" "count1 (st\<lparr>count0 := a, count1 := b\<rparr>) = b"
  by simp_all

lemma md5_count_bits:
  assumes "count0 st = bits_lo k" "count1 st = bits_hi k" "n < 2 ^ 28"
  shows "count0 (md5_count n st) = bits_lo (k + n)" "count1 (md5_count n st) = bits_hi (k + n)"
  using count_append [OF assms(3), of k] unfolding md5_count_def Let_def assms(1,2) bits_lo_def bits_hi_def
  by (simp_all only: count_update)

text \<open>The end of md5_append: full blocks from the data, and the rest into the buffer.\<close>

lemma append_tail:
  assumes "full_blocks m md5_iv = (r0, q0)" "full_blocks (q0 @ data) r0 = full_blocks p r1" "length buf = 64"
    "full_blocks p r1 = (r2, q2)"
  shows "full_blocks (m @ data) md5_iv = (r2, take (length (m @ data) mod 64) (if q2 = [] then buf else blit buf 0 q2)) \<and>
     length (if q2 = [] then buf else blit buf 0 q2) = 64"
proof -
  have f: "full_blocks (m @ data) md5_iv = (r2, q2)" using full_blocks_append [OF assms(1)] assms(2,4) by simp
  then have l: "length q2 = length (m @ data) mod 64" using full_blocks_rest by blast
  then have "length q2 \<le> 64" using mod_less_divisor [of 64 "length (m @ data)"] by linarith
  then show ?thesis using f l assms(3) by (auto simp: blit_def)
qed

lemma md5_count_fields [simp]: "abcd (md5_count n st) = abcd st" "md5_buf (md5_count n st) = md5_buf st"
  by (simp_all add: md5_count_def Let_def)

lemma md5_append_cases:
  assumes "data \<noteq> []"
  shows "md5_offset st = 0 \<Longrightarrow> md5_append data st = md5_rest data (md5_count (length data) st)"
    "md5_offset st \<noteq> 0 \<Longrightarrow> md5_offset st + length data < 64 \<Longrightarrow>
       md5_append data st = (md5_count (length data) st)\<lparr>md5_buf := blit (md5_buf st) (md5_offset st) data\<rparr>"
    "md5_offset st \<noteq> 0 \<Longrightarrow> md5_offset st \<le> 64 \<Longrightarrow> 64 \<le> md5_offset st + length data \<Longrightarrow> b = blit (md5_buf st) (md5_offset st) (take (64 - md5_offset st) data) \<Longrightarrow>
       md5_append data st = md5_rest (drop (64 - md5_offset st) data) ((md5_count (length data) st)\<lparr>md5_buf := b, abcd := md5_process b (abcd st)\<rparr>)"
proof -
  show "md5_append data st = md5_rest data (md5_count (length data) st)" if "md5_offset st = 0" using assms that by (simp add: md5_append_def)
  show "md5_append data st = (md5_count (length data) st)\<lparr>md5_buf := blit (md5_buf st) (md5_offset st) data\<rparr>" if "md5_offset st \<noteq> 0" "md5_offset st + length data < 64"
    using assms that by (simp add: md5_append_def)
  show "md5_append data st = md5_rest (drop (64 - md5_offset st) data) ((md5_count (length data) st)\<lparr>md5_buf := b, abcd := md5_process b (abcd st)\<rparr>)"
    if h: "md5_offset st \<noteq> 0" "md5_offset st \<le> 64" "64 \<le> md5_offset st + length data" "b = blit (md5_buf st) (md5_offset st) (take (64 - md5_offset st) data)"
  proof -
    have "(if md5_offset st + length data > 64 then 64 - md5_offset st else length data) = 64 - md5_offset st" using h(3) by auto
    then show ?thesis using assms h by (simp add: md5_append_def Let_def)
  qed
qed

lemma md5_rest_rep:
  assumes "full_blocks m md5_iv = (r0, q0)" "full_blocks (q0 @ data) r0 = full_blocks p (abcd s)" "length (md5_buf s) = 64"
    "count0 s = bits_lo (length (m @ data))" "count1 s = bits_hi (length (m @ data))"
  shows "md5_rep (md5_rest p s) (m @ data)"
proof (cases "full_blocks p (abcd s)")
  case (Pair r2 q2)
  then show ?thesis using append_tail [OF assms(1-3) Pair] assms(4,5) by (simp add: md5_rep_def md5_rest_def)
qed

lemma md5_append_rep:
  assumes "md5_rep st m" "length data < 2 ^ 28"
  shows "md5_rep (md5_append data st) (m @ data)"
proof (cases "data = []")
  case True
  then show ?thesis using assms(1) by (simp add: md5_append_def)
next
  case False
  let ?q = "take (length m mod 64) (md5_buf st)" and ?s = "md5_count (length data) st"
  have st: "length (md5_buf st) = 64" "count0 st = bits_lo (length m)" "count1 st = bits_hi (length m)"
    "full_blocks m md5_iv = (abcd st, ?q)" using assms(1) by (auto simp: md5_rep_def)
  have o: "md5_offset st = length m mod 64" unfolding md5_offset_def st(2) by (rule offset_eq)
  have o64: "md5_offset st < 64" unfolding o by simp
  have q: "length ?q = md5_offset st" using o o64 st(1) by simp
  have c: "count0 ?s = bits_lo (length (m @ data))" "count1 ?s = bits_hi (length (m @ data))"
    using md5_count_bits [OF st(2,3) assms(2)] by simp_all
  note cs = md5_append_cases [OF False]
  consider "md5_offset st = 0" | "md5_offset st \<noteq> 0" "md5_offset st + length data < 64" | "md5_offset st \<noteq> 0" "64 \<le> md5_offset st + length data" by linarith
  then show ?thesis
  proof cases
    case 1
    then have "length m mod 64 = 0" using o by simp
    then show ?thesis unfolding cs(1) [OF 1] using md5_rest_rep [OF st(4) _ _ c, of data] st(1) by simp
  next
    case 2
    let ?b = "blit (md5_buf st) (md5_offset st) data"
    have b: "length ?b = 64" "take (md5_offset st + length data) ?b = ?q @ data"
      using blit_extend [of 0 "md5_offset st" data "md5_buf st"] 2(2) st(1) o by simp_all
    have "full_blocks (m @ data) md5_iv = (abcd st, ?q @ data)" using full_blocks_append [OF st(4)] full_blocks_short [of "?q @ data"] 2(2) q by simp
    moreover have "length (m @ data) mod 64 = md5_offset st + length data" using 2(2) unfolding o by (metis length_append mod_add_left_eq mod_less)
    ultimately show ?thesis unfolding cs(2) [OF 2] using b c by (simp add: md5_rep_def)
  next
    case 3
    let ?k = "64 - md5_offset st" and ?b = "blit (md5_buf st) (md5_offset st) (take (64 - md5_offset st) data)"
    have k: "length (take ?k data) = ?k" "md5_offset st + ?k = 64" using 3(2) o64 by simp_all
    have b: "length ?b = 64" "?b = ?q @ take ?k data"
      using blit_extend [of 0 "md5_offset st" "take ?k data" "md5_buf st"] k st(1) o by simp_all
    have "full_blocks ((?q @ take ?k data) @ drop ?k data) (abcd st) = full_blocks (drop ?k data) (md5_process (?q @ take ?k data) (abcd st))"
      by (rule full_blocks_step) (simp only: length_append q k)
    then have "full_blocks (?q @ data) (abcd st) = full_blocks (drop ?k data) (md5_process ?b (abcd st))"
      unfolding b(2) by (simp only: append_assoc append_take_drop_id)
    then show ?thesis
      unfolding cs(3) [OF 3(1) less_imp_le [OF o64] 3(2) refl] using md5_rest_rep [OF st(4), of data "drop ?k data" "?s\<lparr>md5_buf := ?b, abcd := md5_process ?b (abcd st)\<rparr>"] b(1) c
      by simp
  qed
qed

text \<open>Any type with such operations computes the digest of the concatenation of the pieces it is given.\<close>

locale incremental_digest =
  fixes start :: "'j \<Rightarrow> 's" and app :: "'b list \<Rightarrow> 's \<Rightarrow> 's" and fin :: "'s \<Rightarrow> 'd \<times> 's"
    and holds :: "'s \<Rightarrow> 'b list \<Rightarrow> bool" and usable :: "'j \<Rightarrow> bool" and piece :: "'b list \<Rightarrow> bool" and digest :: "'b list \<Rightarrow> 'd"
  assumes start_holds: "usable j \<Longrightarrow> holds (start j) []"
    and app_holds: "holds s m \<Longrightarrow> piece xs \<Longrightarrow> holds (app xs s) (m @ xs)"
    and fin_digest: "holds s m \<Longrightarrow> fst (fin s) = digest m"
begin

lemma fold_holds: "holds s m \<Longrightarrow> list_all piece cs \<Longrightarrow> holds (fold app cs s) (m @ concat cs)"
proof (induction cs arbitrary: s m)
  case (Cons c cs)
  then show ?case using Cons.IH [OF app_holds [OF Cons.prems(1), of c]] by simp
qed simp

lemma pieces_digest: "usable j \<Longrightarrow> list_all piece cs \<Longrightarrow> fst (fin (fold app cs (start j))) = digest (concat cs)"
  using fin_digest [OF fold_holds [OF start_holds]] by fastforce

end

lemma md5_finish_rep:
  assumes "md5_rep st m"
  shows "fst (md5_finish st) = md5_digest m"
proof -
  let ?z = "nat ((55 - int (length m)) mod 64)"
  let ?p = "take (?z + 1) pad" and ?d = "word_bytes (bits_lo (length m)) @ word_bytes (bits_hi (length m))"
  have z: "?z \<le> 63" by simp
  have "take (n + 1) pad = 0x80 # replicate n 0" if "n \<le> 63" for n using that by (simp only: pad_def) (simp add: min_def)
  then have p: "?p = 0x80 # replicate ?z 0" using z by blast
  have s: "length ?p < 2 ^ 28" "length ?d < 2 ^ 28" using z by (simp_all add: p word_bytes_def)
  have st: "count0 st = bits_lo (length m)" "count1 st = bits_hi (length m)" using assms by (simp_all add: md5_rep_def)
  have "md5_rep (md5_append ?d (md5_append ?p st)) ((m @ ?p) @ ?d)" using md5_append_rep [OF md5_append_rep [OF assms s(1)] s(2)] .
  moreover have "(m @ ?p) @ ?d = md5_padded m" unfolding p md5_padded_def by simp
  ultimately have "abcd (md5_append ?d (md5_append ?p st)) = fst (full_blocks (md5_padded m) md5_iv)" by (auto simp: md5_rep_def)
  then show ?thesis unfolding md5_finish_def Let_def st pad_eq md5_digest_def by (simp split: prod.splits)
qed

interpretation md5: incremental_digest md5_init md5_append md5_finish md5_rep "\<lambda>junk. length junk = 64" "\<lambda>xs. length xs < 2 ^ 28" md5_digest
proof
  show "md5_rep (md5_init j) []" if "length j = 64" for j
    using that by (simp add: md5_rep_def md5_init_def bits_lo_def bits_hi_def md5_iv_def full_blocks_short)
qed (use md5_append_rep md5_finish_rep in blast)+

text \<open>C33: for every split of a message into calls of md5_append (each below the 2 to the 28 bytes at which nbytes shifted left by 3 overflows int), and whatever the buffer held before md5_init, md5_finish returns the MD5 digest of the whole message: the registers after all 64-byte blocks of the message padded with 0x80, zeros and its 64-bit length in bits.\<close>

theorem md5_digest_of_pieces:
  assumes "length junk = 64" "list_all (\<lambda>c. length c < 2 ^ 28) chunks"
  shows "fst (md5_finish (fold md5_append chunks (md5_init junk))) = md5_digest (concat chunks)"
  using assms by (rule md5.pieces_digest)

theorem md5_digest_of_pieces_witness:
  "fst (md5_finish (fold md5_append [[0x61], [0x62, 0x63]] (md5_init (replicate 64 0)))) = md5_digest [0x61, 0x62, 0x63]"
  using md5_digest_of_pieces [of "replicate 64 0" "[[0x61], [0x62, 0x63]]"] by simp

end
