(* ===== verification/Ketama.thy ===== *)
theory Ketama
  imports "HOL-Library.Multiset" C_Lib C_Float Md5
begin

text \<open>
  The consistent hash ring src/src/co_ketama.cpp: class Continuum with its constructor, the hash
  function and the binary search ketama_get_conn. The number of points of a node is computed with
  double arithmetic, which is modelled by rounding to 53 bits. The search is shown to find the
  successor of a hash on the ring, and removing a node is shown to move only the keys of that node.
\<close>

section \<open>Doubles\<close>

text \<open>
  A positive double is (m, e) for the number m * 2 ^ e. Results of operations are rounded to the
  nearest number with a 53-bit mantissa, ties to even. The exponents here are far from the bounds of
  the type: the quotients of two 32-bit integers, times 40, times a number of nodes.
\<close>

definition scaled_num :: "int \<Rightarrow> int \<Rightarrow> int" where
  "scaled_num a e = (if e < 0 then a * 2 ^ nat (- e) else a)"

definition scaled_den :: "int \<Rightarrow> int \<Rightarrow> int" where
  "scaled_den b e = (if e < 0 then b else b * 2 ^ nat e)"

text \<open>The double nearest to a / b, for positive a and b: the exponent is chosen so that the mantissa has 53 bits.\<close>

definition dexp :: "int \<Rightarrow> int \<Rightarrow> int" where
  "dexp a b =
     (let e = bits a - bits b - 53
      in if 2 ^ 53 \<le> scaled_num a e div scaled_den b e then e + 1 else e)"

definition dround :: "int \<Rightarrow> int \<Rightarrow> dbl" where
  "dround a b = (let e = dexp a b in (round_even (scaled_num a e) (scaled_den b e), e))"

definition dtimes :: "dbl \<Rightarrow> int \<Rightarrow> dbl" where
  "dtimes x k = (case dround (fst x * k) 1 of (m, e) \<Rightarrow> (m, e + snd x))"

definition dfloor :: "dbl \<Rightarrow> int" where
  "dfloor x = (case x of (m, e) \<Rightarrow> if e < 0 then m div 2 ^ nat (- e) else m * 2 ^ nat e)"

text \<open>
  (uint32_t) floor((double) weight / (double) total_weight * 40.0 * (double) num_dumbnodes). The
  conversion of infinity, of a negative number or of one beyond the type is undefined.
\<close>

definition ketama_share :: "int \<Rightarrow> int \<Rightarrow> nat \<Rightarrow> nat res" where
  "ketama_share weight tw n =
     (if tw = 0 \<or> weight * tw < 0 then Inl Out_of_range
      else if weight = 0 \<or> n = 0 then Inr 0
      else let v = dfloor (dtimes (dtimes (dround \<bar>weight\<bar> \<bar>tw\<bar>) 40) (int n))
           in if v < 2 ^ 32 then Inr (nat v) else Inl Out_of_range)"

section \<open>The ring\<close>

record ContinuumItem =
  point :: "32 word"
  ci_conn :: lid

text \<open>The bytes of the characters of a string.\<close>

definition char_bytes :: "string \<Rightarrow> md5_byte list" where
  "char_bytes s = map (\<lambda>c. word_of_nat (of_char c)) s"

text \<open>The local md5state is not initialised: mem gives the bytes its buffer holds before the call for a string.\<close>

definition ketama_md5_digest :: "(string \<Rightarrow> md5_byte list) \<Rightarrow> string \<Rightarrow> md5_byte list" where
  "ketama_md5_digest mem str = fst (md5_finish (md5_append (char_bytes (c_chars str)) (md5_init (mem str))))"

definition digest_point :: "md5_byte list \<Rightarrow> nat \<Rightarrow> 32 word" where
  "digest_point digest h =
     (push_bit 24 (ucast (digest ! (3 + h * 4))) OR push_bit 16 (ucast (digest ! (2 + h * 4)))) OR
      push_bit 8 (ucast (digest ! (1 + h * 4))) OR ucast (digest ! (h * 4))"

definition ketama_hashi :: "(string \<Rightarrow> md5_byte list) \<Rightarrow> string \<Rightarrow> 32 word" where
  "ketama_hashi mem str = digest_point (ketama_md5_digest mem str) 0"

text \<open>The text sprintf writes to the 30 bytes of ss; the zero needs one of them.\<close>

definition ring_key :: "string \<Rightarrow> nat \<Rightarrow> string res" where
  "ring_key addr k = (let ss = c_chars addr @ ''-'' @ dec_int (to_int32 (int k)) in if length ss < 30 then Inr ss else Inl Out_of_bounds)"

definition key_items :: "(string \<Rightarrow> md5_byte list) \<Rightarrow> lid \<Rightarrow> string \<Rightarrow> ContinuumItem list" where
  "key_items mem c ss = map (\<lambda>h. \<lparr>point = digest_point (ketama_md5_digest mem ss) h, ci_conn = c\<rparr>) [0..<4]"

fun node_items :: "(string \<Rightarrow> md5_byte list) \<Rightarrow> string \<Rightarrow> lid \<Rightarrow> nat \<Rightarrow> nat \<Rightarrow> ContinuumItem list res" where
  "node_items mem addr c k 0 = Inr []"
| "node_items mem addr c k (Suc n) =
     rbind (ring_key addr k) (\<lambda>ss. rbind (node_items mem addr c (Suc k) n) (\<lambda>r. Inr (key_items mem c ss @ r)))"

text \<open>
  The loop over dumb_map, an unordered map: the list gives its entries in the order of iteration.
  weight is the member of the connection, n the size of the map.
\<close>

fun table_items :: "(string \<Rightarrow> md5_byte list) \<Rightarrow> (lid \<Rightarrow> int) \<Rightarrow> int \<Rightarrow> nat \<Rightarrow> (string \<times> lid) list \<Rightarrow> ContinuumItem list res" where
  "table_items mem weight tw n [] = Inr []"
| "table_items mem weight tw n ((addr, c) # dm) =
     rbind (ketama_share (weight c) tw n) (\<lambda>ks.
     rbind (node_items mem addr c 0 ks) (\<lambda>xs.
     rbind (table_items mem weight tw n dm) (\<lambda>r. Inr (xs @ r))))"

text \<open>std::sort is not stable, so srt is any function that sorts by points.\<close>

definition sorts :: "(ContinuumItem list \<Rightarrow> ContinuumItem list) \<Rightarrow> bool" where
  "sorts srt \<longleftrightarrow> (\<forall>xs. mset (srt xs) = mset xs \<and> sorted (map point (srt xs)))"

definition Continuum_new ::
    "(string \<Rightarrow> md5_byte list) \<Rightarrow> (ContinuumItem list \<Rightarrow> ContinuumItem list) \<Rightarrow> (lid \<Rightarrow> int) \<Rightarrow> int \<Rightarrow> (string \<times> lid) list \<Rightarrow> ContinuumItem list res" where
  "Continuum_new mem srt weight tw dm =
     CHECK (dm \<noteq> []) (rbind (table_items mem weight tw (length dm) dm) (\<lambda>array. Inr (srt array)))"

definition item_at :: "ContinuumItem list \<Rightarrow> int \<Rightarrow> ContinuumItem res" where
  "item_at array i = (if 0 \<le> i \<and> i < int (length array) then Inr (array ! nat i) else Inl Out_of_bounds)"

text \<open>The search; low and high are never negative when mid is computed, where division rounds down.\<close>

function ring_search :: "ContinuumItem list \<Rightarrow> 32 word \<Rightarrow> int \<Rightarrow> int \<Rightarrow> ContinuumItem res" where
  "ring_search array h low high =
     (let mid = (low + high) div 2
      in if mid = int (length array) then item_at array 0
         else if mid < 0 \<or> int (length array) \<le> mid then Inl Out_of_bounds
         else let midv = point (array ! nat mid); midv1 = (if mid = 0 then 0 else point (array ! nat (mid - 1)))
              in if h \<le> midv \<and> midv1 < h then Inr (array ! nat mid)
                 else let low2 = (if midv < h then mid + 1 else low); high2 = (if midv < h then high else mid - 1)
                      in if high2 < low2 then item_at array 0 else ring_search array h low2 high2)"
  by pat_completeness auto
termination by (relation "measure (\<lambda>(array, h, low, high). nat (high + 1 - low))") (auto split: if_splits)

declare ring_search.simps [simp del]

definition ketama_get_conn :: "(string \<Rightarrow> md5_byte list) \<Rightarrow> ContinuumItem list \<Rightarrow> string \<Rightarrow> lid res" where
  "ketama_get_conn mem array key =
     rbind (ring_search array (ketama_hashi mem key) 0 (int (length array))) (\<lambda>item. Inr (ci_conn item))"

section \<open>The search finds the successor\<close>

definition ring_pos :: "ContinuumItem list \<Rightarrow> 32 word \<Rightarrow> nat" where
  "ring_pos array h = length (takeWhile (\<lambda>i. point i < h) array)"

definition ring_owner :: "ContinuumItem list \<Rightarrow> 32 word \<Rightarrow> ContinuumItem" where
  "ring_owner array h = array ! (if ring_pos array h < length array then ring_pos array h else 0)"

lemma below_ring_pos: "i < ring_pos array h \<Longrightarrow> point (array ! i) < h"
  unfolding ring_pos_def using set_takeWhileD nth_mem takeWhile_nth by metis

lemma ring_pos_le: "ring_pos array h \<le> length array"
  unfolding ring_pos_def by (rule length_takeWhile_le)

lemma from_ring_pos:
  assumes "sorted (map point array)" "ring_pos array h \<le> i" "i < length array"
  shows "h \<le> point (array ! i)"
proof -
  have "\<not> point (array ! ring_pos array h) < h" using nth_length_takeWhile [of "\<lambda>i. point i < h" array] assms(2,3) by (simp add: ring_pos_def)
  moreover have "point (array ! ring_pos array h) \<le> point (array ! i)"
    using sorted_nth_mono [OF assms(1), of "ring_pos array h" i] assms(2,3) by simp
  ultimately show ?thesis by simp
qed

lemma ring_pos_iff: "sorted (map point array) \<Longrightarrow> i < length array \<Longrightarrow> point (array ! i) < h \<longleftrightarrow> i < ring_pos array h"
  using below_ring_pos from_ring_pos by (meson not_le)

lemma ring_search_owner:
  assumes "sorted (map point array)" "array \<noteq> []" "0 \<le> low" "low \<le> int (ring_pos array h)" "int (ring_pos array h) \<le> high" "high \<le> int (length array)"
  shows "ring_search array h low high = Inr (ring_owner array h)"
  using assms
proof (induction array h low high rule: ring_search.induct)
  case (1 array h low high)
  define mid where "mid = (low + high) div 2"
  define f where "f = int (ring_pos array h)"
  have m: "low \<le> mid" "mid \<le> high" "0 \<le> mid" using "1.prems" by (simp_all add: mid_def)
  have z: "item_at array 0 = Inr (array ! 0)" using "1.prems"(2) by (simp add: item_at_def)
  show ?case
  proof (cases "mid = int (length array)")
    case True
    then have "low = int (length array)" using "1.prems" m unfolding mid_def by linarith
    moreover have "ring_search array h low high = item_at array 0" using True by (subst ring_search.simps) (simp add: mid_def)
    ultimately show ?thesis using z "1.prems"(4) by (simp add: ring_owner_def)
  next
    case False
    then have l: "nat mid < length array" "\<not> (mid < 0 \<or> int (length array) \<le> mid)" using m "1.prems"(6) by linarith+
    have lt: "point (array ! nat mid) < h \<longleftrightarrow> mid < f" using ring_pos_iff [OF "1.prems"(1) l(1), of h] m(3) by (simp add: f_def nat_less_iff)
    have lt1: "point (array ! nat (mid - 1)) < h \<longleftrightarrow> mid - 1 < f" if "mid \<noteq> 0"
      using ring_pos_iff [OF "1.prems"(1), of "nat (mid - 1)" h] m(3) l(1) that by (simp add: f_def nat_less_iff)
    let ?v = "point (array ! nat mid)" and ?v1 = "if mid = 0 then 0 else point (array ! nat (mid - 1))"
    let ?l = "if ?v < h then mid + 1 else low" and ?h = "if ?v < h then high else mid - 1"
    have step: "ring_search array h low high = (if h \<le> ?v \<and> ?v1 < h then Inr (array ! nat mid) else if ?h < ?l then item_at array 0 else ring_search array h ?l ?h)"
      using False l by (subst ring_search.simps) (simp add: mid_def [symmetric] Let_def)
    show ?thesis
    proof (cases "h \<le> ?v \<and> ?v1 < h")
      case True
      then have "\<not> mid < f" using lt by auto
      moreover have "mid - 1 < f" if "mid \<noteq> 0" using True lt1 [OF that] that by simp
      moreover have "0 \<le> f" by (simp add: f_def)
      ultimately have "f = mid" by linarith
      then show ?thesis using step True l(1) by (auto simp: ring_owner_def f_def)
    next
      case no: False
      have ih: "0 \<le> ?l \<Longrightarrow> ?l \<le> f \<Longrightarrow> f \<le> ?h \<Longrightarrow> ?h \<le> int (length array) \<Longrightarrow> ring_search array h ?l ?h = Inr (ring_owner array h)"
        using "1.IH" [OF mid_def False l(2) refl refl no refl refl] "1.prems"(1,2) unfolding f_def by force
      have step2: "ring_search array h low high = (if ?h < ?l then item_at array 0 else ring_search array h ?l ?h)" unfolding step if_not_P [OF no] by (rule refl)
      consider "mid < f" | "mid = f" | "f < mid" by linarith
      then show ?thesis
      proof cases
        case 1
        then have "?v < h" using lt by simp
        then show ?thesis using step2 ih 1 "1.prems"(5,6) m(3) unfolding f_def [symmetric] by simp
      next
        case 2
        then have v: "\<not> ?v < h" using lt by simp
        then have "\<not> ?v1 < h" using no by (meson not_less)
        moreover have "?v1 < h" if "mid \<noteq> 0" using that lt1 [OF that] 2 by simp
        ultimately have "mid = 0" by blast
        then have "ring_pos array h = 0" "?h < ?l" using 2 v "1.prems"(3) by (simp_all add: f_def)
        then show ?thesis using step2 z "1.prems"(2) by (simp add: ring_owner_def)
      next
        case 3
        then have "\<not> ?v < h" using lt by simp
        then show ?thesis using step2 ih 3 "1.prems"(3,4) m l(1) unfolding f_def [symmetric] by simp
      qed
    qed
  qed
qed

section \<open>The ring of a table\<close>

text \<open>Any memory gives the same hashes.\<close>

lemma digest_of_memory:
  assumes "length (mem s) = 64" "length s < 2 ^ 28"
  shows "ketama_md5_digest mem s = md5_digest (char_bytes (c_chars s))"
proof -
  have "length (char_bytes (c_chars s)) < 2 ^ 28" using assms(2) le_less_trans [OF length_takeWhile_le] by (simp add: char_bytes_def c_chars_def)
  then show ?thesis using md5.pieces_digest [of "mem s" "[char_bytes (c_chars s)]"] assms(1) by (simp add: ketama_md5_digest_def)
qed

lemma key_items_memory:
  assumes "length (mem s) = 64" "length (mem' s) = 64" "length s < 2 ^ 28"
  shows "key_items mem c s = key_items mem' c s"
  using assms by (simp add: key_items_def digest_of_memory)

lemma ring_key_short: "ring_key addr k = Inr ss \<Longrightarrow> length ss < 30"
  by (auto simp: ring_key_def Let_def split: if_splits)

lemma node_items_memory:
  assumes "\<And>s. length (mem s) = 64" "\<And>s. length (mem' s) = 64"
  shows "node_items mem addr c k n = node_items mem' addr c k n"
proof (induction n arbitrary: k)
  case (Suc n)
  show ?case
  proof (cases "ring_key addr k")
    case (Inr ss)
    then have "length ss < 2 ^ 28" using ring_key_short by fastforce
    then show ?thesis using key_items_memory [of mem ss mem' c] assms Inr Suc by simp
  qed simp
qed simp

lemma node_items_conn: "node_items mem addr c k n = Inr xs \<Longrightarrow> i \<in> set xs \<Longrightarrow> ci_conn i = c"
  by (induction n arbitrary: k xs) (auto simp: rbind_eq_Inr key_items_def)

text \<open>Without the entries of x and with the same numbers of points, the items of the other nodes stay.\<close>

lemma table_items_without:
  assumes "table_items mem weight tw n dm = Inr xs"
    "\<forall>(a, c)\<in>set dm. c \<noteq> x \<longrightarrow> ketama_share (weight c) tw' n' = ketama_share (weight c) tw n"
    "\<And>s. length (mem s) = 64" "\<And>s. length (mem' s) = 64"
  shows "table_items mem' weight tw' n' (filter (\<lambda>(a, c). c \<noteq> x) dm) = Inr (filter (\<lambda>i. ci_conn i \<noteq> x) xs)"
  using assms(1,2)
proof (induction dm arbitrary: xs)
  case (Cons e dm)
  obtain a c where e: "e = (a, c)" by (cases e)
  then obtain ks ys r where h: "ketama_share (weight c) tw n = Inr ks" "node_items mem a c 0 ks = Inr ys" "table_items mem weight tw n dm = Inr r" "xs = ys @ r"
    using Cons.prems(1) by (auto simp: rbind_eq_Inr)
  have r: "table_items mem' weight tw' n' (filter (\<lambda>(a, c). c \<noteq> x) dm) = Inr (filter (\<lambda>i. ci_conn i \<noteq> x) r)" using Cons.IH [OF h(3)] Cons.prems(2) by auto
  show ?case
  proof (cases "c = x")
    case True
    then have "filter (\<lambda>i. ci_conn i \<noteq> x) ys = []" using node_items_conn [OF h(2)] by (simp add: filter_empty_conv)
    then show ?thesis using True r e h(4) by simp
  next
    case False
    then have "filter (\<lambda>i. ci_conn i \<noteq> x) ys = ys" using node_items_conn [OF h(2)] by simp
    moreover have "node_items mem' a c 0 ks = Inr ys" unfolding node_items_memory [of mem' mem, OF assms(4,3)] by (rule h(2))
    ultimately show ?thesis using False r e h Cons.prems(2) by simp
  qed
qed simp

text \<open>The successor of h in a set of items, clockwise.\<close>

definition successor :: "ContinuumItem set \<Rightarrow> 32 word \<Rightarrow> ContinuumItem \<Rightarrow> bool" where
  "successor R h i \<longleftrightarrow> i \<in> R \<and>
     ((h \<le> point i \<and> (\<forall>j\<in>R. h \<le> point j \<longrightarrow> point i \<le> point j)) \<or> ((\<forall>j\<in>R. point j < h) \<and> (\<forall>j\<in>R. point i \<le> point j)))"

lemma ring_owner_successor:
  assumes "sorted (map point array)" "array \<noteq> []"
  shows "successor (set array) h (ring_owner array h)"
proof (cases "ring_pos array h < length array")
  case True
  have "point (array ! ring_pos array h) \<le> point j" if j: "j \<in> set array" "h \<le> point j" for j
  proof -
    obtain k where k: "k < length array" "j = array ! k" using j(1) by (auto simp: in_set_conv_nth)
    then have "ring_pos array h \<le> k" using ring_pos_iff [OF assms(1) k(1), of h] j(2) k(2) by auto
    then show ?thesis using sorted_nth_mono [OF assms(1), of "ring_pos array h" k] k True by simp
  qed
  then show ?thesis using True from_ring_pos [OF assms(1) order_refl True] by (simp add: successor_def ring_owner_def)
next
  case False
  then have "point j < h" if "j \<in> set array" for j using that below_ring_pos [of _ array h] by (auto simp: in_set_conv_nth)
  moreover have "point (array ! 0) \<le> point j" if j: "j \<in> set array" for j
  proof -
    obtain k where "k < length array" "j = array ! k" using j by (auto simp: in_set_conv_nth)
    then show ?thesis using sorted_nth_mono [OF assms(1), of 0 k] assms(2) by simp
  qed
  ultimately show ?thesis using False assms(2) by (simp add: successor_def ring_owner_def)
qed

lemma successor_unique:
  assumes "successor R h i" "successor R h j" "inj_on point R"
  shows "i = j"
proof -
  have "point i \<le> point j" "point j \<le> point i" using assms(1,2) unfolding successor_def by (meson leD)+
  then have "point i = point j" by simp
  then show ?thesis using assms by (auto simp: successor_def inj_on_def)
qed

lemma successor_subset: "successor R h i \<Longrightarrow> i \<in> S \<Longrightarrow> S \<subseteq> R \<Longrightarrow> successor S h i"
  unfolding successor_def by blast

lemma get_conn_owner:
  assumes "sorted (map point array)" "array \<noteq> []"
  shows "ketama_get_conn mem array key = Inr (ci_conn (ring_owner array (ketama_hashi mem key)))"
  using ring_search_owner [OF assms, of 0 "ketama_hashi mem key" "int (length array)"] ring_pos_le by (simp add: ketama_get_conn_def)

lemma Continuum_new_ring:
  assumes "Continuum_new mem srt weight tw dm = Inr ring" "sorts srt"
  obtains xs where "table_items mem weight tw (length dm) dm = Inr xs" "mset ring = mset xs" "sorted (map point ring)"
  using assms by (auto simp: Continuum_new_def CHECK_eq_Inr rbind_eq_Inr sorts_def)

section \<open>Rounding\<close>

lemma scaled_quotient: "real_of_int (scaled_num a e) / real_of_int (scaled_den b e) = real_of_int a / real_of_int b / 2 powi e"
proof (cases "e < 0")
  case True
  then have "(2 :: real) powi e = inverse (2 ^ nat (- e))" by (simp add: power_int_def power_one_over inverse_eq_divide)
  then show ?thesis using True by (simp add: scaled_num_def scaled_den_def divide_inverse)
next
  case False
  then have "(2 :: real) powi e = 2 ^ nat e" by (simp add: power_int_def)
  then show ?thesis using False by (simp add: scaled_num_def scaled_den_def)
qed

lemma scaled_den_pos: "0 < b \<Longrightarrow> 0 < scaled_den b e"
  by (simp add: scaled_den_def)

text \<open>The mantissa has at least 53 bits.\<close>

lemma dexp_mantissa:
  assumes "0 < a" "0 < b"
  shows "2 ^ 52 \<le> real_of_int a / real_of_int b / 2 powi dexp a b"
proof -
  let ?e = "bits a - bits b - 53" and ?x = "real_of_int a / real_of_int b"
  have P: "(0 :: real) < 2 powi (bits a - 1)" "2 powi (bits a - 1) \<le> real_of_int a" using bits_powi [OF assms(1)] by simp_all
  have B: "1 \<le> 2 powi bits b / real_of_int b" using bits_powi [OF assms(2)] assms(2) by simp
  have "(2 :: real) powi bits a = 2 * 2 powi (bits a - 1)" by (simp add: power_int_diff)
  moreover define y where "y = real_of_int a * (2 powi bits b / real_of_int b)"
  ultimately have e: "?x / 2 powi ?e = y * 2 ^ 53 / (2 * 2 powi (bits a - 1))" by (simp add: power_int_diff)
  have "2 powi (bits a - 1) * 1 \<le> y" unfolding y_def by (rule mult_mono) (use P B assms in simp_all)
  then have lo: "2 ^ 52 \<le> ?x / 2 powi ?e" unfolding e using P(1) by (simp add: pos_le_divide_eq)
  show ?thesis
  proof (cases "2 ^ 53 \<le> scaled_num a ?e div scaled_den b ?e")
    case True
    have "real_of_int (2 ^ 53) \<le> real_of_int (scaled_num a ?e div scaled_den b ?e)" using True by (simp only: of_int_le_iff)
    also have "\<dots> \<le> ?x / 2 powi ?e" unfolding scaled_quotient [symmetric] by (rule real_of_int_div4)
    finally have "2 ^ 53 \<le> ?x / 2 powi ?e" by simp
    moreover have "dexp a b = ?e + 1" using True unfolding dexp_def Let_def by (rule if_P)
    moreover have "?x / 2 powi (?e + 1) = (?x / 2 powi ?e) / 2" using power_int_add_1 [of "2 :: real" ?e] by (simp only: divide_divide_eq_left) simp
    moreover have "2 ^ 52 \<le> v / 2" if "2 ^ 53 \<le> v" for v :: real using that by simp
    ultimately show ?thesis by (simp only:)
  next
    case False
    then have "dexp a b = ?e" unfolding dexp_def Let_def by (rule if_not_P)
    then show ?thesis using lo by (simp only:)
  qed
qed

lemma scale_abs: "0 \<le> k \<Longrightarrow> \<bar>a - b\<bar> * k = \<bar>a * k - b * (k :: real)\<bar>"
  by (simp add: abs_mult_pos left_diff_distrib)

lemma near_rel: "\<bar>m - y\<bar> \<le> 1 / 2 \<Longrightarrow> 2 ^ 52 \<le> (y :: real) \<Longrightarrow> 0 < m \<and> \<bar>m - y\<bar> \<le> y / 2 ^ 53"
  unfolding abs_le_iff by simp

lemma two_rel: "\<bar>y - x\<bar> \<le> x / 2 ^ 53 \<Longrightarrow> \<bar>x - e\<bar> \<le> e / 2 ^ 53 \<Longrightarrow> 0 < (e :: real) \<Longrightarrow> \<bar>y - e\<bar> \<le> 5 * e / 2 ^ 54"
  unfolding abs_le_iff by simp

lemma three_rel: "\<bar>y - x\<bar> \<le> x / 2 ^ 53 \<Longrightarrow> \<bar>x - e\<bar> \<le> 5 * e / 2 ^ 54 \<Longrightarrow> 0 < (e :: real) \<Longrightarrow> \<bar>y - e\<bar> \<le> e / 2 ^ 51"
  unfolding abs_le_iff by simp

lemma dround_rel:
  assumes "0 < a" "0 < b"
  shows "0 < fst (dround a b)" "\<bar>dval (dround a b) - real_of_int a / real_of_int b\<bar> \<le> (real_of_int a / real_of_int b) / 2 ^ 53"
proof -
  let ?e = "dexp a b" and ?x = "real_of_int a / real_of_int b"
  let ?m = "real_of_int (round_even (scaled_num a ?e) (scaled_den b ?e))" and ?p = "2 powi ?e :: real"
  have p: "0 < ?p" by simp
  have n: "\<bar>?m - ?x / ?p\<bar> \<le> 1 / 2" using round_even_near [of "scaled_den b ?e" "scaled_num a ?e", OF scaled_den_pos [OF assms(2)]] unfolding scaled_quotient .
  note nr = near_rel [OF n dexp_mantissa [OF assms]]
  show "0 < fst (dround a b)" using nr by (simp add: dround_def Let_def)
  have "\<bar>?m - ?x / ?p\<bar> * ?p \<le> (?x / ?p) / 2 ^ 53 * ?p" using nr by (intro mult_right_mono) simp_all
  moreover have "\<bar>?m - ?x / ?p\<bar> * ?p = \<bar>?m * ?p - ?x\<bar>" using scale_abs [of ?p ?m "?x / ?p"] p by simp
  ultimately show "\<bar>dval (dround a b) - ?x\<bar> \<le> ?x / 2 ^ 53" using p by (simp add: dval_def dround_def Let_def)
qed

lemma dtimes_rel:
  assumes "0 < fst x" "0 < k"
  shows "0 < fst (dtimes x k)" "\<bar>dval (dtimes x k) - dval x * real_of_int k\<bar> \<le> (dval x * real_of_int k) / 2 ^ 53"
proof -
  let ?a = "fst x * k" and ?p = "2 powi snd x :: real"
  have a: "0 < ?a" using assms by simp
  show "0 < fst (dtimes x k)" using dround_rel(1) [OF a zero_less_one] by (cases "dround ?a 1") (simp add: dtimes_def)
  have dv: "dval x * real_of_int k = real_of_int ?a * ?p" by (simp add: dval_def)
  have v: "dval (dtimes x k) = dval (dround ?a 1) * ?p" by (cases "dround ?a 1") (simp add: dtimes_def dval_def power_int_add)
  have "\<bar>dval (dround ?a 1) - real_of_int ?a\<bar> \<le> real_of_int ?a / 2 ^ 53" using dround_rel(2) [OF a zero_less_one] by simp
  then have "\<bar>dval (dround ?a 1) - real_of_int ?a\<bar> * ?p \<le> real_of_int ?a / 2 ^ 53 * ?p" by (rule mult_right_mono) simp
  moreover have "\<bar>dval (dround ?a 1) - real_of_int ?a\<bar> * ?p = \<bar>dval (dround ?a 1) * ?p - real_of_int ?a * ?p\<bar>"
    by (rule scale_abs) simp
  ultimately show "\<bar>dval (dtimes x k) - dval x * real_of_int k\<bar> \<le> (dval x * real_of_int k) / 2 ^ 53" unfolding v dv by (simp only: times_divide_eq_left)
qed

lemma dfloor_eq: "dfloor x = \<lfloor>dval x\<rfloor>"
proof (cases "snd x < 0")
  case True
  then have "dval x = real_of_int (fst x) / real_of_int (2 ^ nat (- snd x))" by (simp add: dval_def power_int_def power_one_over)
  then show ?thesis using True by (simp only: floor_divide_of_int_eq) (simp add: dfloor_def case_prod_beta)
next
  case False
  then have "dval x = real_of_int (fst x * 2 ^ nat (snd x))" by (simp add: dval_def power_int_def)
  then show ?thesis using False by (simp only: floor_of_int) (simp add: dfloor_def case_prod_beta)
qed

text \<open>Three roundings change the product by less than one part in 2 to the 51.\<close>

lemma three_roundings:
  fixes x y z E :: real
  assumes "0 < E" "0 < k" "0 < n"
    "\<bar>x - E\<bar> \<le> E / 2 ^ 53" "\<bar>y - x * k\<bar> \<le> (x * k) / 2 ^ 53" "\<bar>z - y * n\<bar> \<le> (y * n) / 2 ^ 53"
  shows "\<bar>z - E * k * n\<bar> \<le> (E * k * n) / 2 ^ 51"
proof -
  have xk: "\<bar>x * k - E * k\<bar> \<le> E * k / 2 ^ 53" using mult_right_mono [OF assms(4), of k] assms(2) unfolding scale_abs [OF less_imp_le [OF assms(2)]] by simp
  have Ek: "0 < E * k" using assms by simp
  have y: "\<bar>y - E * k\<bar> \<le> 5 * (E * k) / 2 ^ 54" by (rule two_rel [OF assms(5) xk Ek])
  have yn: "\<bar>y * n - E * k * n\<bar> \<le> 5 * (E * k) / 2 ^ 54 * n" using mult_right_mono [OF y, of n] assms(3) unfolding scale_abs [OF less_imp_le [OF assms(3)]] by simp
  have Ekn: "0 < E * k * n" using assms by simp
  have "5 * (E * k) / 2 ^ 54 * n = 5 * (E * k * n) / 2 ^ 54" by simp
  then show ?thesis using three_rel [OF assms(6) _ Ekn] yn by (simp only:)
qed

lemma share_window:
  fixes z E f :: real
  assumes "\<bar>z - E\<bar> < 1 / 2 ^ 20" "f \<le> z" "z < f + 1" "E < 2 ^ 30"
  shows "f < 2 ^ 32 \<and> f \<le> E + 1 / 2 ^ 20 \<and> E < f + 1 + 1 / 2 ^ 20"
  using assms unfolding abs_less_iff by simp

text \<open>The number of groups of points of a node is, in double arithmetic, never more than 40 * n * weight / total_weight and at most one below it (up to the rounding error, bounded by 2 to the -20): rounding can cost a node one group of four points.\<close>

theorem ketama_share_bounds:
  assumes "0 < weight" "0 < tw" "0 < n" "40 * n * weight < 2 ^ 30 * tw"
  shows "\<exists>k. ketama_share weight tw (nat n) = Inr k \<and>
     real k \<le> 40 * n * weight / tw + 1 / 2 ^ 20 \<and> 40 * n * weight / tw < real k + 1 + 1 / 2 ^ 20"
proof -
  let ?x = "dround weight tw"
  let ?y = "dtimes ?x 40"
  let ?z = "dtimes ?y n"
  let ?E = "real_of_int weight / real_of_int tw * 40 * real_of_int n"
  have E: "40 * real_of_int n * real_of_int weight / real_of_int tw = ?E" by simp
  have "real_of_int (40 * n * weight) < real_of_int (2 ^ 30 * tw)" using assms(4) by (simp only: of_int_less_iff)
  then have E30: "?E < 2 ^ 30" using assms(2) by (simp add: field_simps)
  have E0: "0 < ?E" using assms by simp
  note x = dround_rel [OF assms(1,2)]
  note y = dtimes_rel [OF x(1), of 40, simplified]
  note z = dtimes_rel [OF y(1) assms(3)]
  have "\<bar>dval ?z - ?E\<bar> \<le> ?E / 2 ^ 51"
    by (rule three_roundings [of _ 40 _ "dval ?x" "dval ?y"]) (use assms x(2) y(2) z(2) in simp_all)
  moreover have "e / 2 ^ 51 < 1 / 2 ^ 20" if "e < 2 ^ 30" for e :: real using that by simp
  ultimately have v: "\<bar>dval ?z - ?E\<bar> < 1 / 2 ^ 20" using E30 by (meson le_less_trans)
  have fl: "real_of_int (dfloor ?z) \<le> dval ?z" "dval ?z < real_of_int (dfloor ?z) + 1" unfolding dfloor_eq by linarith+
  have "0 \<le> dval ?z" using z(1) by (simp add: dval_def)
  then have k0: "0 \<le> dfloor ?z" unfolding dfloor_eq by simp
  note w = share_window [OF v fl E30]
  then have "dfloor ?z < 2 ^ 32" by simp
  then have "ketama_share weight tw (nat n) = Inr (nat (dfloor ?z))" using assms k0 by (simp add: ketama_share_def Let_def mult_less_0_iff)
  moreover have "real (nat (dfloor ?z)) = real_of_int (dfloor ?z)" using k0 by simp
  ultimately show ?thesis unfolding E using w by (intro exI [of _ "nat (dfloor ?z)"]) (simp only:)
qed

theorem ketama_share_bounds_witness:
  "ketama_share 1 7 7 = Inr 39 \<and> (\<exists>k. ketama_share 1 7 (nat 7) = Inr k \<and>
     real k \<le> 40 * 7 * 1 / 7 + 1 / 2 ^ 20 \<and> 40 * 7 * 1 / 7 < real k + 1 + 1 / 2 ^ 20)"
proof -
  have "ketama_share 1 7 7 = Inr 39" by code_simp
  then show ?thesis using ketama_share_bounds [of 1 7 7] by simp
qed

section \<open>Consistent hashing\<close>

text \<open>C20: ketama_get_conn terminates and returns the connection of the successor of the hash of the key on the ring that the constructor built: the item with the least point at or above the hash, or the least point of all when there is none; this holds for every order of equal points that std::sort may leave.\<close>

theorem ketama_finds_successor:
  assumes "sorts srt" "Continuum_new mem srt weight tw dm = Inr ring" "ring \<noteq> []"
  shows "\<exists>i. ketama_get_conn mem ring key = Inr (ci_conn i) \<and> successor (set ring) (ketama_hashi mem key) i"
proof -
  obtain xs where "sorted (map point ring)" using Continuum_new_ring [OF assms(2,1)] by blast
  then show ?thesis using get_conn_owner [OF _ assms(3)] ring_owner_successor [OF _ assms(3)] by blast
qed

text \<open>C21: removing a node moves only the keys of that node. When x leaves the table, the other nodes keep their numbers of points and no two points collide, every key that was not on x is found on the same node in the ring built without x.\<close>

theorem ketama_removal_moves_own_keys:
  assumes "sorts srt" "sorts srt'" "Continuum_new mem srt weight tw dm = Inr ring"
    "Continuum_new mem' srt' weight tw' (filter (\<lambda>(a, c). c \<noteq> x) dm) = Inr ring'"
    "\<forall>(a, c)\<in>set dm. c \<noteq> x \<longrightarrow> ketama_share (weight c) tw' (length (filter (\<lambda>(a, c). c \<noteq> x) dm)) = ketama_share (weight c) tw (length dm)"
    "distinct (map point ring)" "\<And>s. length (mem s) = 64" "\<And>s. length (mem' s) = 64" "length key < 2 ^ 28"
    "ketama_get_conn mem ring key = Inr c" "ring \<noteq> []" "c \<noteq> x"
  shows "ketama_get_conn mem' ring' key = Inr c"
proof -
  let ?h = "ketama_hashi mem key" and ?P = "\<lambda>i. ci_conn i \<noteq> x"
  have hash: "ketama_hashi mem' key = ?h" using digest_of_memory assms(7-9) by (simp add: ketama_hashi_def)
  obtain xs where r: "table_items mem weight tw (length dm) dm = Inr xs" "mset ring = mset xs" "sorted (map point ring)" by (rule Continuum_new_ring [OF assms(3,1)])
  obtain xs' where r': "table_items mem' weight tw' (length (filter (\<lambda>(a, c). c \<noteq> x) dm)) (filter (\<lambda>(a, c). c \<noteq> x) dm) = Inr xs'" "mset ring' = mset xs'" "sorted (map point ring')"
    by (rule Continuum_new_ring [OF assms(4,2)])
  have "xs' = filter ?P xs" using table_items_without [OF r(1) assms(5,7,8)] r'(1) by simp
  then have "mset ring' = mset (filter ?P ring)" using r(2) r'(2) by simp
  then have s': "set ring' = {i \<in> set ring. ?P i}" by (metis set_filter set_mset_mset)
  let ?i = "ring_owner ring ?h"
  have i: "successor (set ring) ?h ?i" "ci_conn ?i = c" using ring_owner_successor [OF r(3) assms(11)] get_conn_owner [OF r(3) assms(11), of mem key] assms(10) by simp_all
  then have i': "?i \<in> set ring'" using s' assms(12) by (simp add: successor_def)
  then have ne: "ring' \<noteq> []" by auto
  have "successor (set ring') ?h ?i" using successor_subset [OF i(1) i'] s' by blast
  moreover have "inj_on point (set ring')" using assms(6) s' by (auto simp: distinct_map inj_on_def)
  ultimately have "ring_owner ring' ?h = ?i" using successor_unique [OF ring_owner_successor [OF r'(3) ne]] by blast
  then show ?thesis using get_conn_owner [OF r'(3) ne, of mem' key] hash i(2) by simp
qed

section \<open>Examples\<close>

definition zero_mem :: "string \<Rightarrow> md5_byte list" where
  "zero_mem s = replicate 64 0"

lemma sort_key_sorts: "sorts (sort_key point)"
  by (simp add: sorts_def)

definition two_nodes :: "(string \<times> lid) list" where
  "two_nodes = [(''10.0.0.1:80'', 0), (''10.0.0.2:80'', 1)]"

definition two_ring :: "ContinuumItem list" where
  "two_ring =
    [\<lparr>point = 148340414, ci_conn = 1\<rparr>, \<lparr>point = 223574521, ci_conn = 0\<rparr>,
      \<lparr>point = 231750268, ci_conn = 1\<rparr>, \<lparr>point = 309163127, ci_conn = 1\<rparr>,
      \<lparr>point = 1624510088, ci_conn = 0\<rparr>, \<lparr>point = 2681528970, ci_conn = 0\<rparr>,
      \<lparr>point = 3429443325, ci_conn = 0\<rparr>, \<lparr>point = 3615448006, ci_conn = 1\<rparr>]"

definition one_ring :: "ContinuumItem list" where
  "one_ring = filter (\<lambda>i. ci_conn i \<noteq> 1) two_ring"

lemma digest_a: "ketama_md5_digest zero_mem ''10.0.0.1:80-0'' = [253, 38, 105, 204, 136, 14, 212, 96, 138, 226, 212, 159, 249, 121, 83, 13]"
  by code_simp

lemma digest_b: "ketama_md5_digest zero_mem ''10.0.0.2:80-0'' = [119, 116, 109, 18, 190, 126, 215, 8, 124, 58, 208, 13, 198, 91, 127, 215]"
  by code_simp

lemma key_items_a: "key_items zero_mem 0 ''10.0.0.1:80-0'' =
    [\<lparr>point = 3429443325, ci_conn = 0\<rparr>, \<lparr>point = 1624510088, ci_conn = 0\<rparr>, \<lparr>point = 2681528970, ci_conn = 0\<rparr>, \<lparr>point = 223574521, ci_conn = 0\<rparr>]"
  unfolding key_items_def digest_a by code_simp

lemma key_items_b: "key_items zero_mem 1 ''10.0.0.2:80-0'' =
    [\<lparr>point = 309163127, ci_conn = 1\<rparr>, \<lparr>point = 148340414, ci_conn = 1\<rparr>, \<lparr>point = 231750268, ci_conn = 1\<rparr>, \<lparr>point = 3615448006, ci_conn = 1\<rparr>]"
  unfolding key_items_def digest_b by code_simp

lemma example_shares: "ketama_share 1 80 2 = Inr 1" "ketama_share 1 40 1 = Inr 1"
  by code_simp+

lemma example_keys: "ring_key ''10.0.0.1:80'' 0 = Inr ''10.0.0.1:80-0''" "ring_key ''10.0.0.2:80'' 0 = Inr ''10.0.0.2:80-0''"
  by code_simp+

lemma two_ring_new: "Continuum_new zero_mem (sort_key point) (\<lambda>_. 1) 80 two_nodes = Inr two_ring"
proof -
  have "table_items zero_mem (\<lambda>_. 1) 80 2 two_nodes = Inr (key_items zero_mem 0 ''10.0.0.1:80-0'' @ key_items zero_mem 1 ''10.0.0.2:80-0'')"
    by (simp only: two_nodes_def table_items.simps example_shares rbind_Inr node_items.simps One_nat_def example_keys append_Nil2)
  moreover have "sort_key point (key_items zero_mem 0 ''10.0.0.1:80-0'' @ key_items zero_mem 1 ''10.0.0.2:80-0'') = two_ring"
    unfolding key_items_a key_items_b by code_simp
  moreover have "length two_nodes = 2" "two_nodes \<noteq> []" by (simp_all add: two_nodes_def)
  ultimately show ?thesis by (simp only: Continuum_new_def rbind_Inr CHECK_True simp_thms)
qed

lemma one_ring_new: "Continuum_new zero_mem (sort_key point) (\<lambda>_. 1) 40 (filter (\<lambda>(a, c). c \<noteq> 1) two_nodes) = Inr one_ring"
proof -
  have f: "filter (\<lambda>(a, c). c \<noteq> 1) two_nodes = [(''10.0.0.1:80'', 0)]" by (simp add: two_nodes_def)
  have "table_items zero_mem (\<lambda>_. 1) 40 1 [(''10.0.0.1:80'', 0)] = Inr (key_items zero_mem 0 ''10.0.0.1:80-0'')"
    by (simp only: table_items.simps example_shares [unfolded One_nat_def] rbind_Inr node_items.simps One_nat_def example_keys append_Nil2)
  moreover have "sort_key point (key_items zero_mem 0 ''10.0.0.1:80-0'') = one_ring"
    unfolding key_items_a by code_simp
  ultimately show ?thesis unfolding f by (simp add: Continuum_new_def)
qed

lemma key_hash: "ketama_hashi zero_mem ''key'' = 2316004924"
proof -
  have "ketama_md5_digest zero_mem ''key'' = [60, 110, 11, 138, 156, 21, 34, 74, 130, 40, 185, 169, 140, 161, 83, 29]" by code_simp
  then show ?thesis unfolding ketama_hashi_def by (simp only:) code_simp
qed

lemma key_owner: "ketama_get_conn zero_mem two_ring ''key'' = Inr 0"
  unfolding ketama_get_conn_def key_hash by code_simp

theorem ketama_finds_successor_witness:
  "\<exists>i. ketama_get_conn zero_mem two_ring ''key'' = Inr (ci_conn i) \<and> successor (set two_ring) (ketama_hashi zero_mem ''key'') i"
  by (rule ketama_finds_successor [OF sort_key_sorts two_ring_new]) (simp add: two_ring_def)

theorem ketama_removal_moves_own_keys_witness:
  "ketama_get_conn zero_mem one_ring ''key'' = Inr 0"
proof (rule ketama_removal_moves_own_keys [OF sort_key_sorts sort_key_sorts two_ring_new one_ring_new])
  show "\<forall>(a, c)\<in>set two_nodes. c \<noteq> 1 \<longrightarrow> ketama_share 1 40 (length (filter (\<lambda>(a, c). c \<noteq> 1) two_nodes)) = ketama_share 1 80 (length two_nodes)"
    using example_shares by (simp add: two_nodes_def numeral_2_eq_2)
  show "distinct (map point two_ring)" by code_simp
  show "two_ring \<noteq> []" by (simp add: two_ring_def)
qed (simp_all add: key_owner zero_mem_def)

end
