(* ===== verification/Datalet.thy ===== *)
theory Datalet
  imports Link
begin

text \<open>
  The hash table datalet apps/iHT that the proxy stands in front of: its String class (str.cpp), its
  connections (link.cpp) and the request handler of conkv.cpp over the table. The messages of
  protobuf are a parameter. On a connection with room in its output buffer the datalet is shown to
  answer every complete request as a map does; the first answer on a new connection is shown to be
  written beyond its output buffer.
\<close>

section \<open>Strings\<close>

text \<open>
  String has the members of Buffer of the proxy and, but for the two overloads of append for
  integers, the same bodies: grow, nice, append of bytes. The overloads for integers write at curr()
  without a look at avail().
\<close>

definition s_append_u32 :: "nat \<Rightarrow> buffer \<Rightarrow> buffer res" where
  "s_append_u32 num b =
     rbind (mem_write (b_buf b) (b_slot b) (le_bytes 4 num)) (\<lambda>m. Inr (b\<lparr>b_buf := m, b_size := b_size b + 4\<rparr>))"

definition s_append_size :: "nat \<Rightarrow> buffer \<Rightarrow> buffer res" where
  "s_append_size num b =
     rbind (mem_write (b_buf b) (b_slot b) (le_bytes 8 num)) (\<lambda>m. Inr (b\<lparr>b_buf := m, b_size := b_size b + 8\<rparr>))"

section \<open>Connections\<close>

definition INIT_BUF_SIZE :: nat where "INIT_BUF_SIZE = 8"

datatype ht_conn = conn_listening | conn_slave

text \<open>read_buf holds views into the block of the input: offset and length.\<close>

record dlink =
  dl_sfd :: int
  dl_type :: "ht_conn option"
  dl_ev_flags :: int
  dl_noblock :: bool
  dl_error :: bool
  dl_input :: buffer
  dl_output :: buffer
  dl_read_buf :: "(int \<times> int) list"

definition DLink_new :: dlink where
  "DLink_new = \<lparr>dl_sfd = -1, dl_type = None, dl_ev_flags = 0, dl_noblock = True, dl_error = False,
     dl_input = Buffer_new INIT_BUF_SIZE, dl_output = Buffer_new INIT_BUF_SIZE, dl_read_buf = []\<rparr>"

text \<open>msg_read and msg_write are the bodies of Link::read and Link::write of the proxy.\<close>

definition dl_msg_read :: "(nat \<Rightarrow> bool) \<Rightarrow> rd list \<Rightarrow> dlink \<Rightarrow> (int \<times> dlink \<times> rd list) res" where
  "dl_msg_read ok rs l = rbind (link_read ok (dl_noblock l) rs (dl_input l)) (\<lambda>(n, b, rs'). Inr (n, l\<lparr>dl_input := b\<rparr>, rs'))"

definition dl_msg_write :: "(nat \<Rightarrow> bool) \<Rightarrow> wr list \<Rightarrow> dlink \<Rightarrow> (int \<times> dlink \<times> string \<times> wr list) res" where
  "dl_msg_write ok ws l =
     rbind (link_write ok (dl_noblock l) ws (dl_output l)) (\<lambda>(n, b, wire, ws'). Inr (n, l\<lparr>dl_output := b\<rparr>, wire, ws'))"

definition dl_msg_parse :: "dlink \<Rightarrow> dlink res" where
  "dl_msg_parse l =
     (let input = dl_input l; m = b_buf input; hd_p = b_data input in
      if b_empty input then Inr (l\<lparr>dl_read_buf := []\<rparr>)
      else
        rbind (read_u32 m hd_p) (\<lambda>magic.
        CHECK (magic = MAGIC) (
        rbind (read_size_t m (hd_p + 4)) (\<lambda>totalSize.
        CHECK (totalSize < 1073741826) (
        rbind (read_size_t m (hd_p + 12)) (\<lambda>typeLen.
        CHECK (20 < totalSize) (
        rbind (read_size_t m (hd_p + 20 + typeLen)) (\<lambda>dataLen.
        CHECK (28 + typeLen < totalSize) (
        CHECK ((28 + typeLen + dataLen) mod 2 ^ 64 = totalSize) (
          Inr (l\<lparr>dl_read_buf := [(hd_p + 20, to_int32 typeLen), (hd_p + 28 + typeLen, to_int32 dataLen)],
                 dl_input := b_decr (to_int32 (28 + typeLen + dataLen)) input\<rparr>)))))))))))"

section \<open>Requests\<close>

text \<open>The messages of ckv_proto.proto: the fields of a parsed Request, and the bytes of a Reply.\<close>

record pb_codec =
  pb_get_key :: "string \<Rightarrow> string"
  pb_put_key :: "string \<Rightarrow> string"
  pb_put_value :: "string \<Rightarrow> string"
  pb_reply :: "int option \<Rightarrow> string option \<Rightarrow> string"

type_synonym table = "string \<rightharpoonup> string"

text \<open>The branches of handle_request: the status and value of the reply and the table after it.\<close>

definition ht_serve :: "pb_codec \<Rightarrow> string \<Rightarrow> string \<Rightarrow> table \<Rightarrow> (int option \<times> string option) \<times> table" where
  "ht_serve pb t payload hashmap =
     (if t = ''protoSpec.GetMessage'' then
        (case hashmap (pb_get_key pb payload) of
           Some v \<Rightarrow> ((Some 0, Some v), hashmap)
         | None \<Rightarrow> ((Some (-1), None), hashmap))
      else if t = ''protoSpec.PutMessage'' then ((Some 0, None), hashmap(pb_put_key pb payload \<mapsto> pb_put_value pb payload))
      else if t = ''protoSpec.DelMessage'' then ((Some 0, None), hashmap)
      else ((None, None), hashmap))"

text \<open>compose_reply; the result of append is not tested, the asserts compare sizes as int.\<close>

definition compose_reply :: "(nat \<Rightarrow> bool) \<Rightarrow> string \<Rightarrow> string \<Rightarrow> buffer \<Rightarrow> buffer res" where
  "compose_reply ok data t output =
     (let totalLen = length t + 8 + length data + 8 + 8 + 4; old_sz = b_size output; lim = to_int32 (int totalLen) in
      rbind (s_append_u32 (nat MAGIC) output) (\<lambda>b1. CHECK (b_size b1 - old_sz < lim) (
      rbind (s_append_size totalLen b1) (\<lambda>b2. CHECK (b_size b2 - old_sz < lim) (
      rbind (s_append_size (length t) b2) (\<lambda>b3. CHECK (b_size b3 - old_sz < lim) (
      rbind (b_append ok t b3) (\<lambda>(r4, b4). CHECK (b_size b4 - old_sz < lim) (
      rbind (s_append_size (length data) b4) (\<lambda>b5. CHECK (b_size b5 - old_sz < lim) (
      rbind (b_append ok data b5) (\<lambda>(r6, b6). CHECK (b_size b6 - old_sz = lim) (Inr b6)))))))))))))"

definition handle_request :: "pb_codec \<Rightarrow> (nat \<Rightarrow> bool) \<Rightarrow> wr list \<Rightarrow> table \<times> dlink \<Rightarrow> (table \<times> dlink \<times> string \<times> wr list) res" where
  "handle_request pb ok ws st =
     (case st of (hashmap, c) \<Rightarrow>
      case dl_read_buf c of
        [(p0, n0), (p1, n1)] \<Rightarrow>
          rbind (mem_read (b_buf (dl_input c)) p0 n0) (\<lambda>t.
          rbind (mem_read (b_buf (dl_input c)) p1 n1) (\<lambda>payload.
          case ht_serve pb t payload hashmap of ((status, val), hashmap2) \<Rightarrow>
          rbind (compose_reply ok (pb_reply pb status val) t (dl_output c)) (\<lambda>out.
          rbind (dl_msg_write ok ws (c\<lparr>dl_output := out\<rparr>)) (\<lambda>(send_status, c2, wire, ws2).
          CHECK (0 < send_status) (Inr (hashmap2, c2, wire, ws2))))))
      | _ \<Rightarrow> Inl Check_failed)"

text \<open>
  The worker branch of process, on a readable connection. None: the connection was closed and
  deleted.
\<close>

definition process_slave :: "pb_codec \<Rightarrow> (nat \<Rightarrow> bool) \<Rightarrow> rd list \<Rightarrow> wr list \<Rightarrow> table \<times> dlink \<Rightarrow> (table \<times> dlink option \<times> string \<times> rd list \<times> wr list) res" where
  "process_slave pb ok rs ws st =
     (case st of (hashmap, c) \<Rightarrow>
      rbind (dl_msg_read ok rs c) (\<lambda>(len, c1, rs1).
      if len \<le> 0 then Inr (hashmap, None, [], rs1, ws)
      else
        rbind (dl_msg_parse c1) (\<lambda>c2.
        rbind (handle_request pb ok ws (hashmap, c2)) (\<lambda>(hashmap2, c3, wire, ws2).
        Inr (hashmap2, Some c3, wire, rs1, ws2)))))"

section \<open>Replies\<close>

lemma s_append_rep:
  assumes "brep b s"
  shows "4 \<le> b_space b \<Longrightarrow> \<exists>b'. s_append_u32 n b = Inr b' \<and> brep b' (s @ le_bytes 4 n) \<and> b_data b' = b_data b \<and> b_total b' = b_total b"
    "8 \<le> b_space b \<Longrightarrow> \<exists>b'. s_append_size n b = Inr b' \<and> brep b' (s @ le_bytes 8 n) \<and> b_data b' = b_data b \<and> b_total b' = b_total b"
  using b_write_at [OF assms, of "le_bytes 4 n"] b_write_at [OF assms, of "le_bytes 8 n"]
  by (auto simp: s_append_u32_def s_append_size_def b_space_def)

lemma b_append_fits:
  assumes "brep b s" "int (length x) \<le> b_space b"
  shows "\<exists>b'. b_append ok x b = Inr (int (length x), b') \<and> brep b' (s @ x) \<and> b_data b' = b_data b \<and> b_total b' = b_total b"
proof -
  have "b_reserve ok (int (length x)) b = (True, b)" using assms(2) by (simp add: b_reserve.simps)
  then show ?thesis using b_write_at [OF assms(1), of x] assms(2) by (auto simp: b_append_def b_space_def)
qed

lemma brep_space: "brep b s \<Longrightarrow> b_space b = b_total b - b_data b - int (length s)"
  by (simp add: b_space_def brep_def)

lemma brep_size: "brep b s \<Longrightarrow> b_size b = int (length s)"
  by (simp add: brep_def)

lemma compose_reply_frame:
  assumes "brep b []" "int (length (frame t d)) \<le> b_space b" "d \<noteq> []"
  shows "\<exists>b'. compose_reply ok d t b = Inr b' \<and> brep b' (frame t d) \<and> b_data b' = b_data b \<and> b_total b' = b_total b"
proof -
  let ?n = "length t + 8 + length d + 8 + 8 + 4"
  have sp: "b_total b - b_data b \<ge> int ?n" using assms(2) brep_space [OF assms(1)] by (simp add: length_frame)
  have lim: "to_int32 (int ?n) = int ?n" using sp brep_bounds [OF assms(1)] assms(1) by (intro to_int32_id) (auto simp: brep_def)
  have d: "0 < length d" using assms(3) by simp
  note rw = brep_space brep_size
  obtain b1 where b1: "s_append_u32 (nat MAGIC) b = Inr b1" "brep b1 (le_bytes 4 (nat MAGIC))" "b_data b1 = b_data b" "b_total b1 = b_total b"
    using s_append_rep(1) [OF assms(1)] sp rw [OF assms(1)] by fastforce
  obtain b2 where b2: "s_append_size ?n b1 = Inr b2" "brep b2 (le_bytes 4 (nat MAGIC) @ le_bytes 8 ?n)" "b_data b2 = b_data b" "b_total b2 = b_total b"
    using s_append_rep(2) [OF b1(2), of ?n] sp rw [OF b1(2)] b1(3,4) by fastforce
  obtain b3 where b3: "s_append_size (length t) b2 = Inr b3" "brep b3 (le_bytes 4 (nat MAGIC) @ le_bytes 8 ?n @ le_bytes 8 (length t))" "b_data b3 = b_data b" "b_total b3 = b_total b"
    using s_append_rep(2) [OF b2(2), of "length t"] sp rw [OF b2(2)] b2(3,4) by fastforce
  obtain b4 where b4: "b_append ok t b3 = Inr (int (length t), b4)" "brep b4 (le_bytes 4 (nat MAGIC) @ le_bytes 8 ?n @ le_bytes 8 (length t) @ t)" "b_data b4 = b_data b" "b_total b4 = b_total b"
    using b_append_fits [OF b3(2), of t ok] sp rw [OF b3(2)] b3(3,4) by fastforce
  obtain b5 where b5: "s_append_size (length d) b4 = Inr b5" "brep b5 (le_bytes 4 (nat MAGIC) @ le_bytes 8 ?n @ le_bytes 8 (length t) @ t @ le_bytes 8 (length d))" "b_data b5 = b_data b" "b_total b5 = b_total b"
    using s_append_rep(2) [OF b4(2), of "length d"] sp rw [OF b4(2)] b4(3,4) by fastforce
  have n: "?n = 28 + length t + length d" by simp
  have f: "le_bytes 4 (nat MAGIC) @ le_bytes 8 ?n @ le_bytes 8 (length t) @ t @ le_bytes 8 (length d) @ d = frame t d"
    unfolding frame_def n by (rule refl)
  obtain b6 where b6: "b_append ok d b5 = Inr (int (length d), b6)" "brep b6 (frame t d)" "b_data b6 = b_data b" "b_total b6 = b_total b"
    using b_append_fits [OF b5(2), of d ok] sp rw [OF b5(2)] b5(3,4) f by fastforce
  note sz = brep_size [OF assms(1)] brep_size [OF b1(2)] brep_size [OF b2(2)] brep_size [OF b3(2)] brep_size [OF b4(2)] brep_size [OF b5(2)] brep_size [OF b6(2)]
  show ?thesis using b1(1) b2(1) b3(1) b4(1) b5(1) b6 d
    by (simp add: compose_reply_def Let_def lim [simplified] sz length_frame)
qed

section \<open>Reading a request\<close>

text \<open>A connection between requests: nothing is buffered and the output has its first size after growing.\<close>

definition conn_ok :: "dlink \<Rightarrow> bool" where
  "conn_ok c \<longleftrightarrow> dl_noblock c \<and> brep (dl_input c) [] \<and> (b_total (dl_input c) = 8 \<or> b_total (dl_input c) = 8192) \<and>
     brep (dl_output c) [] \<and> b_total (dl_output c) = 8192 \<and> b_data (dl_output c) \<le> 4096"

lemma b_nice_front: "b_nice b = Inr b' \<Longrightarrow> b_data b' \<le> b_total b' div 2 \<or> b_data b' = 0"
  by (auto simp: b_nice_def rbind_eq_Inr split: if_splits)

lemma grow_if_init_total:
  assumes "brep b s" "b_total b = 8 \<or> b_total b = 8192" "ok 8192"
  shows "b_total (grow_if_init ok b) = 8192"
  using assms by (auto simp: grow_if_init_def INIT_BUFFER_SIZE_def b_grow_def grow_size_def to_int32_id Let_def)

lemma dl_msg_read_frame:
  assumes "dl_noblock c" "brep (dl_input c) []" "b_total (dl_input c) = 8 \<or> b_total (dl_input c) = 8192" "ok 8192" "f \<noteq> []" "length f \<le> 4096"
  shows "\<exists>b. dl_msg_read ok [Rd_data f] c = Inr (int (length f), c\<lparr>dl_input := b\<rparr>, []) \<and> brep b f \<and> b_total b = 8192"
proof -
  let ?g = "grow_if_init ok (dl_input c)"
  note c = assms(1-3)
  have g: "brep ?g []" "b_total ?g = 8192" using grow_if_init_rep [OF c(2)] grow_if_init_total [of _ _ ok, OF c(2,3) assms(4)] by auto
  obtain h where h: "b_nice ?g = Inr h" "brep h []" using b_nice_rep [OF g(1)] by blast
  then have t: "b_total h = 8192" "b_data h \<le> 4096" using b_nice_total [OF h(1)] b_nice_front [OF h(1)] g(2) by auto
  then have sp: "int (length f) \<le> b_space h" "0 < b_space h" using brep_space [OF h(2)] assms(6) by simp_all
  obtain m where m: "mem_write (b_buf h) (b_slot h) f = Inr m" "brep (h\<lparr>b_buf := m, b_size := b_size h + int (length f)\<rparr>) ([] @ f)"
    using b_write_at [OF h(2), of f] sp by (auto simp: b_space_def)
  then have "read_loop True [Rd_data f] 0 h = Inr (Rd_done (int (length f)), h\<lparr>b_buf := m, b_size := b_size h + int (length f)\<rparr>, [])"
    using sp assms(5) by (simp add: Let_def b_incr_write)
  then show ?thesis using m(2) t(1) h(1) c(1) by (auto simp: dl_msg_read_def link_read_def)
qed

lemma dl_msg_parse_frame:
  assumes "brep (dl_input c) (frame t p @ rest)" "length (frame t p) \<le> 4096" "p \<noteq> []"
  shows "\<exists>b. dl_msg_parse c = Inr (c\<lparr>dl_read_buf := [(b_data (dl_input c) + 20, int (length t)), (b_data (dl_input c) + 28 + int (length t), int (length p))], dl_input := b\<rparr>) \<and>
     brep b rest \<and> b_total b = b_total (dl_input c) \<and> b_buf b = b_buf (dl_input c)"
proof -
  let ?b = "dl_input c"
  have h: "holds (b_buf ?b) (b_data ?b) (frame t p)" using assms(1) by (simp add: brep_def holds_append)
  note hf = holds_frame [OF h]
  have small: "28 + length t + length p \<le> 4096" using assms(2) by (simp add: length_frame)
  have r: "read_u32 (b_buf ?b) (b_data ?b) = Inr MAGIC" using read_u32_holds [OF hf(1)] by (simp add: MAGIC_def)
  have r2: "read_size_t (b_buf ?b) (b_data ?b + 4) = Inr (int (28 + length t + length p))"
    "read_size_t (b_buf ?b) (b_data ?b + 12) = Inr (int (length t))"
    "read_size_t (b_buf ?b) (b_data ?b + 20 + int (length t)) = Inr (int (length p))"
    using read_size_t_holds [OF hf(2)] read_size_t_holds [OF hf(3)] read_size_t_holds [OF hf(5)] small by auto
  have ti: "to_int32 (int (length t)) = int (length t)" "to_int32 (int (length p)) = int (length p)"
    "to_int32 (28 + int (length t) + int (length p)) = 28 + int (length t) + int (length p)" using small by (simp_all add: to_int32_id)
  have md: "(28 + int (length t) + int (length p)) mod 2 ^ 64 = 28 + int (length t) + int (length p)" using small by (intro mod_pos_pos_trivial) auto
  have "\<not> b_empty ?b" using brep_size [OF assms(1)] by (simp add: b_empty_def length_frame)
  moreover have "brep (b_decr (28 + int (length t) + int (length p)) ?b) rest"
    using brep_decr [OF assms(1), of "28 + int (length t) + int (length p)"] by (simp add: length_frame nat_add_distrib)
  ultimately show ?thesis using r r2 ti md small assms(3)
    by (intro exI [of _ "b_decr (28 + int (length t) + int (length p)) ?b"]) (simp add: dl_msg_parse_def Let_def b_decr_def)
qed

lemma dl_msg_write_full:
  assumes "brep (dl_output c) s" "s \<noteq> []" "length s \<le> n" "b_total (dl_output c) = 8192" "dl_noblock c"
  shows "\<exists>b. dl_msg_write ok [Wr_take n] c = Inr (int (length s), c\<lparr>dl_output := b\<rparr>, s, []) \<and> brep b [] \<and> b_total b = 8192 \<and> b_data b \<le> 4096"
proof -
  let ?b = "dl_output c"
  have "grow_if_init ok ?b = ?b" using assms(4) by (simp add: grow_if_init_def INIT_BUFFER_SIZE_def)
  moreover have sz: "b_size ?b = int (length s)" "0 < b_size ?b" using brep_size [OF assms(1)] assms(2) by simp_all
  have "mem_read (b_buf ?b) (b_data ?b) (int (length s)) = Inr s" using assms(1) mem_read_holds by (simp add: brep_def)
  then have "write_loop True [Wr_take n] 0 [] ?b = Inr (Wr_done (int (length s)), b_decr (int (length s)) ?b, s, [])"
    using sz assms(2,3) by (simp add: Let_def min_def)
  moreover have d: "brep (b_decr (int (length s)) ?b) []" using brep_decr [OF assms(1), of "int (length s)"] by simp
  obtain b where b: "b_nice (b_decr (int (length s)) ?b) = Inr b" "brep b []" using b_nice_rep [OF d] by blast
  then have "b_total b = 8192" "b_data b \<le> 4096" using b_nice_total [OF b(1)] b_nice_front [OF b(1)] assms(4) by (auto simp: b_decr_def)
  ultimately show ?thesis using b assms(5) by (intro exI [of _ b]) (simp add: dl_msg_write_def link_write_def)
qed

section \<open>The datalet answers as a map\<close>

lemma process_frame:
  assumes "conn_ok c" "ok 8192" "payload \<noteq> []" "length (frame t payload @ rest) \<le> 4096"
    "ht_serve pb t payload hashmap = ((status, val), hashmap2)" "pb_reply pb status val \<noteq> []"
    "length (frame t (pb_reply pb status val)) \<le> 4096" "length (frame t (pb_reply pb status val)) \<le> n"
  shows "\<exists>c2. process_slave pb ok [Rd_data (frame t payload @ rest)] [Wr_take n] (hashmap, c) =
     Inr (hashmap2, Some c2, frame t (pb_reply pb status val), [], []) \<and> brep (dl_input c2) rest \<and> (rest = [] \<longrightarrow> conn_ok c2)"
proof -
  let ?r = "pb_reply pb status val" and ?f = "frame t payload @ rest"
  have fl: "0 < length ?f" "frame t ?r \<noteq> []" "?f \<noteq> []" by (auto simp: length_frame simp flip: length_greater_0_conv)
  obtain b where b: "dl_msg_read ok [Rd_data ?f] c = Inr (int (length ?f), c\<lparr>dl_input := b\<rparr>, [])" "brep b ?f" "b_total b = 8192"
    using dl_msg_read_frame [of c ok ?f] assms(1,2,4) fl(3) unfolding conn_ok_def by blast
  let ?c1 = "c\<lparr>dl_input := b\<rparr>"
  obtain b2 where b2: "dl_msg_parse ?c1 = Inr (?c1\<lparr>dl_read_buf := [(b_data b + 20, int (length t)), (b_data b + 28 + int (length t), int (length payload))], dl_input := b2\<rparr>)"
    "brep b2 rest" "b_total b2 = 8192" "b_buf b2 = b_buf b" using dl_msg_parse_frame [of ?c1 t payload rest] b(2,3) assms(3,4) by auto
  let ?c2 = "?c1\<lparr>dl_read_buf := [(b_data b + 20, int (length t)), (b_data b + 28 + int (length t), int (length payload))], dl_input := b2\<rparr>"
  have "holds (b_buf b) (b_data b) (frame t payload)" using b(2) by (simp add: brep_def holds_append)
  note hf = holds_frame [OF this]
  have rd: "mem_read (b_buf b) (b_data b + 20) (int (length t)) = Inr t" "mem_read (b_buf b) (b_data b + 28 + int (length t)) (int (length payload)) = Inr payload"
    using mem_read_holds [OF hf(4)] mem_read_holds [OF hf(6)] by auto
  have o: "brep (dl_output c) []" "b_total (dl_output c) = 8192" "b_data (dl_output c) \<le> 4096" "dl_noblock c" using assms(1) by (auto simp: conn_ok_def)
  have "int (length (frame t ?r)) \<le> b_space (dl_output c)" using assms(7) brep_space [OF o(1)] o(2,3) by simp
  then obtain out where out: "compose_reply ok ?r t (dl_output c) = Inr out" "brep out (frame t ?r)" "b_total out = 8192"
    using compose_reply_frame [OF o(1) _ assms(6), of t ok] o(2) by auto
  obtain b3 where b3: "dl_msg_write ok [Wr_take n] (?c2\<lparr>dl_output := out\<rparr>) = Inr (int (length (frame t ?r)), ?c2\<lparr>dl_output := out\<rparr>\<lparr>dl_output := b3\<rparr>, frame t ?r, [])"
    "brep b3 []" "b_total b3 = 8192" "b_data b3 \<le> 4096"
    using dl_msg_write_full [of "?c2\<lparr>dl_output := out\<rparr>" "frame t ?r" n ok] out(2,3) fl(2) assms(8) o(4) by auto
  have "handle_request pb ok [Wr_take n] (hashmap, ?c2) = Inr (hashmap2, ?c2\<lparr>dl_output := b3\<rparr>, frame t ?r, [])"
    using rd b2(4) assms(5) out(1) b3(1) fl(2) by (simp add: handle_request_def)
  then show ?thesis using b(1) b2 b3 o(4) by (auto simp: process_slave_def conn_ok_def length_frame)
qed

text \<open>
  A server that is sent one request at a time: the request arrives in one read and the answer is
  taken whole. step gives the state after the request and the bytes of the answer.
\<close>

fun serve_run :: "(string \<Rightarrow> 's \<Rightarrow> ('s \<times> string) res) \<Rightarrow> string list \<Rightarrow> 's \<Rightarrow> ('s \<times> string list) res" where
  "serve_run step [] s = Inr (s, [])"
| "serve_run step (f # fs) s =
     rbind (step f s) (\<lambda>(s1, r). rbind (serve_run step fs s1) (\<lambda>(s2, rs). Inr (s2, r # rs)))"

definition ht_step :: "pb_codec \<Rightarrow> (nat \<Rightarrow> bool) \<Rightarrow> string \<Rightarrow> table \<times> dlink \<Rightarrow> ((table \<times> dlink) \<times> string) res" where
  "ht_step pb ok f st =
     rbind (process_slave pb ok [Rd_data f] [Wr_take 4096] st) (\<lambda>(hashmap, c, wire, rs, ws).
       case c of None \<Rightarrow> Inl Dangling | Some c2 \<Rightarrow> Inr ((hashmap, c2), wire))"

text \<open>The table after a sequence of puts.\<close>

fun put_all :: "('k \<times> 'v) list \<Rightarrow> ('k \<rightharpoonup> 'v) \<Rightarrow> 'k \<rightharpoonup> 'v" where
  "put_all [] m = m"
| "put_all ((k, v) # kvs) m = put_all kvs (m(k \<mapsto> v))"

lemma put_all_other: "\<forall>j<length kvs. fst (kvs ! j) \<noteq> k \<Longrightarrow> put_all kvs m k = m k"
proof (induction kvs m rule: put_all.induct)
  case (2 k' v kvs m)
  have "\<forall>j<length kvs. fst (kvs ! j) \<noteq> k" "k' \<noteq> k" using 2(2) by (auto dest: spec [of _ "Suc _"] spec [of _ 0])
  then show ?case using 2(1) by (simp add: fun_upd_def)
qed simp

lemma put_all_last:
  "i < length kvs \<Longrightarrow> kvs ! i = (k, v) \<Longrightarrow> \<forall>j. i < j \<longrightarrow> j < length kvs \<longrightarrow> fst (kvs ! j) \<noteq> k \<Longrightarrow> put_all kvs m k = Some v"
proof (induction kvs m arbitrary: i rule: put_all.induct)
  case (2 k' v' kvs m)
  have later: "fst (kvs ! j) \<noteq> k" if "i < Suc j" "j < length kvs" for j using 2(4) that by (auto dest!: spec [of _ "Suc j"])
  show ?case
  proof (cases i)
    case 0
    then show ?thesis using put_all_other [of kvs k] later 2(3) by simp
  next
    case (Suc n)
    then show ?thesis using 2(1) [of n] 2(2,3) later by (simp add: fun_upd_def)
  qed
qed simp

text \<open>
  What a client of a key-value server relies on: requests are read back from their bytes, and the
  server answers each as the table does and keeps the invariant.
\<close>

locale kv_server =
  fixes step :: "string \<Rightarrow> 's \<Rightarrow> ('s \<times> string) res" and inv :: "'s \<Rightarrow> bool" and tab :: "'s \<Rightarrow> 'k \<rightharpoonup> 'v"
    and put :: "string \<Rightarrow> 'k \<Rightarrow> 'v \<Rightarrow> bool" and get :: "string \<Rightarrow> 'k \<Rightarrow> bool" and answer :: "'v option \<Rightarrow> string \<Rightarrow> bool"
  assumes put_law: "inv s \<Longrightarrow> put f k v \<Longrightarrow> \<exists>s' r. step f s = Inr (s', r) \<and> inv s' \<and> tab s' = (tab s)(k \<mapsto> v)"
    and get_law: "inv s \<Longrightarrow> get f k \<Longrightarrow> \<exists>s' r. step f s = Inr (s', r) \<and> inv s' \<and> tab s' = tab s \<and> answer (tab s k) r"
begin

lemma puts_run:
  assumes "inv s" "list_all2 (\<lambda>f kv. put f (fst kv) (snd kv)) fs kvs"
  shows "\<exists>s' rs. serve_run step fs s = Inr (s', rs) \<and> inv s' \<and> length rs = length fs \<and>
     tab s' = put_all kvs (tab s)"
  using assms(2,1)
proof (induction arbitrary: s rule: list_all2_induct)
  case (Cons f fs kv kvs)
  obtain s1 r where s1: "step f s = Inr (s1, r)" "inv s1" "tab s1 = (tab s)(fst kv \<mapsto> snd kv)"
    using put_law [OF Cons.prems Cons.hyps(1)] by blast
  then show ?case using Cons.IH [OF s1(2)] by (cases kv) (auto simp: fun_upd_def)
qed simp

lemma put_then_get:
  assumes "inv s" "list_all2 (\<lambda>f kv. put f (fst kv) (snd kv)) fs kvs" "i < length kvs" "kvs ! i = (k, v)"
    "\<forall>j. i < j \<longrightarrow> j < length kvs \<longrightarrow> fst (kvs ! j) \<noteq> k" "get g k"
  shows "\<exists>s' rs s2 r. serve_run step fs s = Inr (s', rs) \<and> step g s' = Inr (s2, r) \<and> answer (Some v) r"
proof -
  obtain s' rs where s': "serve_run step fs s = Inr (s', rs)" "inv s'" "tab s' = put_all kvs (tab s)"
    using puts_run [OF assms(1,2)] by blast
  then have "tab s' k = Some v" using put_all_last [OF assms(3-5)] by simp
  then show ?thesis using get_law [OF s'(2) assms(6)] s'(1) by fastforce
qed

end

text \<open>Requests that fit the input buffer and whose answers fit the output buffer.\<close>

definition ht_put :: "pb_codec \<Rightarrow> string \<Rightarrow> string \<Rightarrow> string \<Rightarrow> bool" where
  "ht_put pb f k v \<longleftrightarrow> (\<exists>p. f = frame ''protoSpec.PutMessage'' p \<and> p \<noteq> [] \<and> length f \<le> 4096 \<and> k = pb_put_key pb p \<and> v = pb_put_value pb p)"

definition ht_get :: "pb_codec \<Rightarrow> string \<Rightarrow> string \<Rightarrow> bool" where
  "ht_get pb f k \<longleftrightarrow> (\<exists>p. f = frame ''protoSpec.GetMessage'' p \<and> p \<noteq> [] \<and> length f \<le> 4096 \<and> k = pb_get_key pb p)"

definition ht_answer :: "pb_codec \<Rightarrow> string option \<Rightarrow> string \<Rightarrow> bool" where
  "ht_answer pb v r \<longleftrightarrow> r = frame ''protoSpec.GetMessage'' (case v of Some x \<Rightarrow> pb_reply pb (Some 0) (Some x) | None \<Rightarrow> pb_reply pb (Some (-1)) None)"

text \<open>A reply has a status and so at least one byte; values in the table were put and fit a frame.\<close>

definition pb_fits :: "pb_codec \<Rightarrow> bool" where
  "pb_fits pb \<longleftrightarrow> (\<forall>st v. pb_reply pb (Some st) v \<noteq> []) \<and> (\<forall>st. length (pb_reply pb (Some st) None) \<le> 4048) \<and>
     (\<forall>p. length p \<le> 4048 \<longrightarrow> length (pb_reply pb (Some 0) (Some (pb_put_value pb p))) \<le> 4048)"

definition ht_inv :: "pb_codec \<Rightarrow> (nat \<Rightarrow> bool) \<Rightarrow> table \<times> dlink \<Rightarrow> bool" where
  "ht_inv pb ok st \<longleftrightarrow> pb_fits pb \<and> ok 8192 \<and> conn_ok (snd st) \<and> (\<forall>v\<in>ran (fst st). length (pb_reply pb (Some 0) (Some v)) \<le> 4048)"

lemma ht_step_serves:
  assumes "conn_ok c" "ok 8192" "p \<noteq> []" "length (frame t p) \<le> 4096" "ht_serve pb t p m = ((status, val), m2)"
    "pb_reply pb status val \<noteq> []" "length (frame t (pb_reply pb status val)) \<le> 4096"
  shows "\<exists>c2. ht_step pb ok (frame t p) (m, c) = Inr ((m2, c2), frame t (pb_reply pb status val)) \<and> conn_ok c2"
  using process_frame [of c ok p t "[]" pb m status val m2 4096] assms by (auto simp: ht_step_def)

lemma ht_put_step:
  assumes "ht_inv pb ok s" "ht_put pb f k v"
  shows "\<exists>s' r. ht_step pb ok f s = Inr (s', r) \<and> ht_inv pb ok s' \<and> fst s' = (fst s)(k \<mapsto> v)"
proof -
  obtain m c where s: "s = (m, c)" by (cases s)
  have inv: "pb_fits pb" "ok 8192" using assms(1) by (auto simp: ht_inv_def)
  obtain p where p: "f = frame ''protoSpec.PutMessage'' p" "p \<noteq> []" "length f \<le> 4096" "k = pb_put_key pb p" "v = pb_put_value pb p"
    using assms(2) by (auto simp: ht_put_def)
  have "\<exists>c2. ht_step pb ok f (m, c) = Inr ((m(k \<mapsto> v), c2), frame ''protoSpec.PutMessage'' (pb_reply pb (Some 0) None)) \<and> conn_ok c2"
    unfolding p(1) by (rule ht_step_serves) (use assms inv p s in \<open>auto simp: ht_serve_def ht_inv_def pb_fits_def length_frame\<close>)
  moreover have "length p \<le> 4048" using p(1,3) by (simp add: length_frame)
  then have "length (pb_reply pb (Some 0) (Some v)) \<le> 4048" using inv(1) p(5) by (simp add: pb_fits_def)
  ultimately show ?thesis using assms(1) s by (auto simp: ht_inv_def ran_def)
qed

lemma ht_get_step:
  assumes "ht_inv pb ok s" "ht_get pb f k"
  shows "\<exists>s' r. ht_step pb ok f s = Inr (s', r) \<and> ht_inv pb ok s' \<and> fst s' = fst s \<and> ht_answer pb (fst s k) r"
proof -
  obtain m c where s: "s = (m, c)" by (cases s)
  have inv: "pb_fits pb" "ok 8192" using assms(1) by (auto simp: ht_inv_def)
  obtain p where p: "f = frame ''protoSpec.GetMessage'' p" "p \<noteq> []" "length f \<le> 4096" "k = pb_get_key pb p"
    using assms(2) by (auto simp: ht_get_def)
  define st where "st = (case m k of Some v \<Rightarrow> (Some 0, Some v) | None \<Rightarrow> (Some (-1 :: int), None))"
  have sv: "ht_serve pb ''protoSpec.GetMessage'' p m = ((fst st, snd st), m)" by (simp add: ht_serve_def st_def p(4) split: option.splits)
  have ne: "pb_reply pb (fst st) (snd st) \<noteq> []" using inv(1) by (simp add: st_def pb_fits_def split: option.splits)
  have len: "length (pb_reply pb (fst st) (snd st)) \<le> 4048"
  proof (cases "m k")
    case None
    then show ?thesis using inv(1) by (auto simp: st_def pb_fits_def intro: order_trans)
  next
    case (Some v)
    then have "v \<in> ran m" by (auto simp: ran_def)
    then show ?thesis using assms(1) Some s by (simp add: st_def ht_inv_def)
  qed
  obtain c2 where "ht_step pb ok f (m, c) = Inr ((m, c2), frame ''protoSpec.GetMessage'' (pb_reply pb (fst st) (snd st)))" "conn_ok c2"
    using ht_step_serves [of c ok p "''protoSpec.GetMessage''" pb m "fst st" "snd st" m] assms(1) inv p s sv ne len by (auto simp: ht_inv_def length_frame)
  then show ?thesis using assms(1) s by (auto simp: ht_inv_def ht_answer_def st_def split: option.splits)
qed

interpretation ht: kv_server "ht_step pb ok" "ht_inv pb ok" fst "ht_put pb" "ht_get pb" "ht_answer pb" for pb ok
  by unfold_locales (rule ht_put_step ht_get_step; assumption)+

section \<open>Sample messages\<close>

text \<open>
  A codec with the shape of protobuf for concrete runs: a payload is a key of one character and the
  value behind it; a reply is the character of its status and the value.
\<close>

definition demo_pb :: pb_codec where
  "demo_pb = \<lparr>pb_get_key = take 1, pb_put_key = take 1, pb_put_value = drop 1,
     pb_reply = (\<lambda>st v. (case st of Some i \<Rightarrow> if i = 0 then ''0'' else ''-'' | None \<Rightarrow> []) @ (case v of Some x \<Rightarrow> x | None \<Rightarrow> []))\<rparr>"

lemma demo_pb_fits: "pb_fits demo_pb"
  by (auto simp: pb_fits_def demo_pb_def)

definition demo_conn :: dlink where
  "demo_conn = DLink_new\<lparr>dl_output := Buffer_new 8192\<rparr>"

lemma demo_conn_ok: "conn_ok demo_conn"
  by (simp add: conn_ok_def demo_conn_def DLink_new_def INIT_BUF_SIZE_def brep_new) (simp add: Buffer_new_def)

section \<open>What the handler shows\<close>



text \<open>When a second request arrives in the same read as the first, only the first is answered: the second stays in the input buffer, and nothing is done about it before more bytes arrive.\<close>

theorem datalet_leaves_pipelined_request:
  assumes "conn_ok c" "ok 8192" "payload \<noteq> []" "length (frame t payload @ frame t' payload') \<le> 4096"
    "ht_serve pb t payload hashmap = ((status, val), hashmap2)" "pb_reply pb status val \<noteq> []"
    "length (frame t (pb_reply pb status val)) \<le> 4096"
  shows "\<exists>c2. process_slave pb ok [Rd_data (frame t payload @ frame t' payload')] [Wr_take 4096] (hashmap, c) =
     Inr (hashmap2, Some c2, frame t (pb_reply pb status val), [], []) \<and> b_contents (dl_input c2) = frame t' payload'"
  using process_frame [of c ok payload t "frame t' payload'" pb hashmap status val hashmap2 4096] assms brep_contents by blast

theorem datalet_leaves_pipelined_request_witness:
  "\<exists>c2. process_slave demo_pb (\<lambda>_. True) [Rd_data (frame ''protoSpec.PutMessage'' ''kv'' @ frame ''protoSpec.PutMessage'' ''kw'')] [Wr_take 4096] (Map.empty, demo_conn) =
     Inr (Map.empty(''k'' \<mapsto> ''v''), Some c2, frame ''protoSpec.PutMessage'' ''0'', [], []) \<and> b_contents (dl_input c2) = frame ''protoSpec.PutMessage'' ''kw''"
  using datalet_leaves_pipelined_request [of demo_conn "\<lambda>_. True" "''kv''" "''protoSpec.PutMessage''" "''protoSpec.PutMessage''" "''kw''" demo_pb Map.empty "Some 0" None "Map.empty(''k'' \<mapsto> ''v'')"]
  by (simp add: demo_conn_ok length_frame ht_serve_def demo_pb_def)

lemma compose_reply_fresh:
  assumes "length t + length d < 2 ^ 30"
  shows "compose_reply ok d t (Buffer_new 8) = Inl Out_of_bounds"
proof -
  have lim: "to_int32 (int (length t) + 8 + int (length d) + 8 + 8 + 4) = int (length t) + int (length d) + 28" using assms by (subst to_int32_id) auto
  have r: "brep (Buffer_new 8) []" by (rule brep_new) simp
  then obtain b1 where b1: "s_append_u32 (nat MAGIC) (Buffer_new 8) = Inr b1" "brep b1 (le_bytes 4 (nat MAGIC))" "b_data b1 = 0" "b_total b1 = 8"
    using s_append_rep(1) [OF r, of "nat MAGIC"] by (auto simp: b_space_def Buffer_new_def)
  then have "s_append_size n b1 = Inl Out_of_bounds" for n by (simp add: s_append_size_def mem_write_def b_slot_def brep_def)
  moreover have "b_size b1 = 4" "b_size (Buffer_new 8) = 0" using brep_size [OF b1(2)] brep_size [OF r] by simp_all
  ultimately show ?thesis using b1(1) lim by (simp add: compose_reply_def Let_def)
qed

text \<open>C39: the first answer on every connection is written outside its output buffer: compose_reply stores two size_t fields behind the magic number in the 8 bytes a new connection has, before msg_write would have enlarged them.\<close>

theorem datalet_first_reply_overflows:
  assumes "ok 8192" "payload \<noteq> []" "length (frame t payload) \<le> 4096"
    "ht_serve pb t payload hashmap = ((status, val), hashmap2)" "length (pb_reply pb status val) < 2 ^ 29"
  shows "process_slave pb ok [Rd_data (frame t payload)] ws (hashmap, DLink_new) = Inl Out_of_bounds"
proof -
  let ?f = "frame t payload"
  have c: "dl_noblock DLink_new" "brep (dl_input DLink_new) []" "b_total (dl_input DLink_new) = 8 \<or> b_total (dl_input DLink_new) = 8192"
    by (simp_all add: DLink_new_def INIT_BUF_SIZE_def brep_new) (simp add: Buffer_new_def)
  have fl: "?f \<noteq> []" "0 < length ?f" by (auto simp: length_frame simp flip: length_greater_0_conv)
  obtain b where b: "dl_msg_read ok [Rd_data ?f] DLink_new = Inr (int (length ?f), DLink_new\<lparr>dl_input := b\<rparr>, [])" "brep b ?f"
    using dl_msg_read_frame [of _ ok, OF c assms(1) fl(1) assms(3)] by blast
  let ?c1 = "DLink_new\<lparr>dl_input := b\<rparr>"
  obtain b2 where b2: "dl_msg_parse ?c1 = Inr (?c1\<lparr>dl_read_buf := [(b_data b + 20, int (length t)), (b_data b + 28 + int (length t), int (length payload))], dl_input := b2\<rparr>)"
    "b_buf b2 = b_buf b" using dl_msg_parse_frame [of ?c1 t payload "[]"] b(2) assms(2,3) by auto
  have "holds (b_buf b) (b_data b) ?f" using b(2) by (simp add: brep_def)
  note hf = holds_frame [OF this]
  have rd: "mem_read (b_buf b) (b_data b + 20) (int (length t)) = Inr t" "mem_read (b_buf b) (b_data b + 28 + int (length t)) (int (length payload)) = Inr payload"
    using mem_read_holds [OF hf(4)] mem_read_holds [OF hf(6)] by auto
  have "compose_reply ok (pb_reply pb status val) t (Buffer_new 8) = Inl Out_of_bounds"
    by (rule compose_reply_fresh) (use assms(3,5) in \<open>simp add: length_frame\<close>)
  then show ?thesis using b(1) b2 rd assms(4) fl(2) by (simp add: process_slave_def handle_request_def DLink_new_def INIT_BUF_SIZE_def)
qed

theorem datalet_first_reply_overflows_witness:
  "process_slave demo_pb (\<lambda>_. True) [Rd_data (frame ''protoSpec.PutMessage'' ''kv'')] [Wr_take 4096] (Map.empty, DLink_new) = Inl Out_of_bounds"
  using datalet_first_reply_overflows [of "\<lambda>_. True" "''kv''" "''protoSpec.PutMessage''" demo_pb Map.empty "Some 0" None "Map.empty(''k'' \<mapsto> ''v'')"]
  by (simp add: length_frame ht_serve_def demo_pb_def)

end
