(* ===== verification/Datalet_Dispatch.thy ===== *)
theory Datalet_Dispatch
  imports Datalet
begin

text \<open>
  How the datalet apps/iHT hands new connections to its worker threads (conkv.cpp): the free list of
  queue items, the queue of every worker with the pipe that wakes it, dispatch_conn_new in the main
  thread and thread_ev_proc in the workers. Every operation holds the lock of what it changes, so a
  run is a sequence of them. The hand-over is shown to be a first-in first-out queue per worker that
  loses no connection, uses no item twice and never pops an empty queue, when the pipes work.
\<close>

definition ITEMS_PER_ALLOC :: nat where "ITEMS_PER_ALLOC = 64"

record cq_item =
  ci_sfd :: int
  ci_type :: ht_conn
  ci_flags :: int

text \<open>
  The items by address, the next address malloc returns, the queues of the workers by number, the
  bytes in their pipes, and the sockets they have registered.
\<close>

record kvs =
  cq_items :: "nat \<rightharpoonup> cq_item"
  cq_fresh :: nat
  cqi_freelist :: "nat list"
  new_conn_q :: "nat \<Rightarrow> nat list"
  notify_pipe :: "nat \<Rightarrow> nat"
  registered :: "nat \<Rightarrow> int list"
  last_thread :: int
  num_threads :: nat

definition kvs_init :: "nat \<Rightarrow> kvs" where
  "kvs_init n = \<lparr>cq_items = Map.empty, cq_fresh = 0, cqi_freelist = [], new_conn_q = (\<lambda>_. []), notify_pipe = (\<lambda>_. 0),
     registered = (\<lambda>_. []), last_thread = -1, num_threads = n\<rparr>"

text \<open>ok: malloc succeeds.\<close>

definition cqi_new :: "bool \<Rightarrow> kvs \<Rightarrow> nat option \<times> kvs" where
  "cqi_new ok st =
     (case cqi_freelist st of
        item # r \<Rightarrow> (Some item, st\<lparr>cqi_freelist := r\<rparr>)
      | [] \<Rightarrow>
          if ok then (Some (cq_fresh st), st\<lparr>cqi_freelist := cqi_freelist st @ map (\<lambda>i. cq_fresh st + i) [1..<ITEMS_PER_ALLOC], cq_fresh := cq_fresh st + ITEMS_PER_ALLOC\<rparr>)
          else (None, st))"

definition cqi_free :: "nat \<Rightarrow> kvs \<Rightarrow> kvs" where
  "cqi_free item st = st\<lparr>cqi_freelist := cqi_freelist st @ [item]\<rparr>"

definition cq_push :: "nat \<Rightarrow> nat \<Rightarrow> kvs \<Rightarrow> kvs res" where
  "cq_push t item st =
     (let st2 = st\<lparr>new_conn_q := (new_conn_q st)(t := new_conn_q st t @ [item])\<rparr>
      in CHECK (length (new_conn_q st2 t) > 0) (Inr st2))"

text \<open>An empty queue leaves ret as it was: nobody wrote it.\<close>

definition cq_pop :: "nat \<Rightarrow> kvs \<Rightarrow> (nat \<times> kvs) res" where
  "cq_pop t st =
     (case new_conn_q st t of
        item # r \<Rightarrow> Inr (item, st\<lparr>new_conn_q := (new_conn_q st)(t := r)\<rparr>)
      | [] \<Rightarrow> Inl Uninitialised)"

text \<open>wok: the write to the pipe succeeds. Without memory for an item the socket is closed.\<close>

definition dispatch_conn_new :: "bool \<Rightarrow> bool \<Rightarrow> int \<Rightarrow> ht_conn \<Rightarrow> int \<Rightarrow> kvs \<Rightarrow> kvs res" where
  "dispatch_conn_new ok wok sfd ty fl st =
     (case cqi_new ok st of
        (None, st1) \<Rightarrow> Inr st1
      | (Some item, st1) \<Rightarrow>
          if num_threads st1 = 0 then Inl Out_of_range
          else
            let tid = (last_thread st1 + 1) mod int (num_threads st1); t = nat tid;
                st2 = st1\<lparr>last_thread := tid, cq_items := (cq_items st1)(item \<mapsto> \<lparr>ci_sfd = sfd, ci_type = ty, ci_flags = fl\<rparr>)\<rparr>
            in rbind (cq_push t item st2) (\<lambda>st3.
               Inr (if wok then st3\<lparr>notify_pipe := (notify_pipe st3)(t := notify_pipe st3 t + 1)\<rparr> else st3)))"

text \<open>eok: event_add accepts the socket; otherwise register_conn returns NULL and it is closed. The read fails on an empty pipe.\<close>

definition thread_ev_proc :: "bool \<Rightarrow> nat \<Rightarrow> kvs \<Rightarrow> kvs res" where
  "thread_ev_proc eok t st =
     (if notify_pipe st t = 0 then Inr st
      else
        let st1 = st\<lparr>notify_pipe := (notify_pipe st)(t := notify_pipe st t - 1)\<rparr>
        in rbind (cq_pop t st1) (\<lambda>(item, st2).
           rbind (deref (cq_items st2 item)) (\<lambda>it.
           Inr (cqi_free item (if eok then st2\<lparr>registered := (registered st2)(t := registered st2 t @ [ci_sfd it])\<rparr> else st2)))))"

section \<open>Runs\<close>

text \<open>The main thread accepts the sockets of the list in order; the workers interleave with it.\<close>

inductive kvs_run :: "nat \<Rightarrow> int list \<Rightarrow> kvs \<Rightarrow> bool" for n where
  start: "kvs_run n [] (kvs_init n)"
| accept: "kvs_run n log st \<Longrightarrow> dispatch_conn_new True True sfd conn_slave fl st = Inr st' \<Longrightarrow> kvs_run n (log @ [sfd]) st'"
| worker: "kvs_run n log st \<Longrightarrow> thread_ev_proc True t st = Inr st' \<Longrightarrow> kvs_run n log st'"

definition sockets :: "kvs \<Rightarrow> nat list \<Rightarrow> int list" where
  "sockets st q = map (\<lambda>a. ci_sfd (the (cq_items st a))) q"

text \<open>The sockets of the worker t: every n-th one of the list.\<close>

definition share_of :: "nat \<Rightarrow> int list \<Rightarrow> nat \<Rightarrow> int list" where
  "share_of n log t = map (\<lambda>i. log ! i) (filter (\<lambda>i. i mod n = t) [0..<length log])"

text \<open>No item is in two places, those in a queue are filled in, and a byte is in the pipe for each of them.\<close>

definition kvs_inv :: "nat \<Rightarrow> int list \<Rightarrow> kvs \<Rightarrow> bool" where
  "kvs_inv n log st \<longleftrightarrow> num_threads st = n \<and> last_thread st = (if log = [] then -1 else int ((length log - 1) mod n)) \<and>
     distinct (cqi_freelist st) \<and> (\<forall>t. distinct (new_conn_q st t)) \<and>
     (\<forall>t t'. t \<noteq> t' \<longrightarrow> set (new_conn_q st t) \<inter> set (new_conn_q st t') = {}) \<and>
     (\<forall>t. set (new_conn_q st t) \<inter> set (cqi_freelist st) = {}) \<and>
     (\<forall>t. \<forall>a\<in>set (new_conn_q st t). a < cq_fresh st \<and> cq_items st a \<noteq> None) \<and> (\<forall>a\<in>set (cqi_freelist st). a < cq_fresh st) \<and>
     (\<forall>t. notify_pipe st t = length (new_conn_q st t)) \<and>
     (\<forall>t<n. registered st t @ sockets st (new_conn_q st t) = share_of n log t) \<and> (\<forall>t\<ge>n. new_conn_q st t = [])"

lemma share_of_snoc: "share_of n (log @ [s]) t = share_of n log t @ (if length log mod n = t then [s] else [])"
proof -
  have "map (\<lambda>i. (log @ [s]) ! i) (filter (\<lambda>i. i mod n = t) [0..<length log]) = share_of n log t"
    unfolding share_of_def by (rule map_cong) (auto simp: nth_append)
  then show ?thesis by (simp add: share_of_def)
qed

lemma next_thread: "0 < n \<Longrightarrow> kvs_inv n log st \<Longrightarrow> (last_thread st + 1) mod int n = int (length log mod n)"
proof (cases log)
  case (Cons x xs)
  assume "0 < n" "kvs_inv n log st"
  then have "last_thread st + 1 = int (Suc (length xs mod n))" using Cons by (simp add: kvs_inv_def)
  then have "(last_thread st + 1) mod int n = int (Suc (length xs mod n) mod n)" by (simp only: of_nat_mod)
  then show ?thesis using Cons by (simp add: mod_Suc_eq)
qed (simp add: kvs_inv_def)

lemma sockets_upd: "a \<notin> set q \<Longrightarrow> sockets (st\<lparr>cq_items := (cq_items st)(a \<mapsto> it)\<rparr>) q = sockets st q"
  by (auto simp: sockets_def)

lemma cqi_new_inv:
  assumes "kvs_inv n log st" "cqi_new True st = (x, st1)"
  shows "\<exists>a. x = Some a \<and> a \<notin> set (cqi_freelist st1) \<and> (\<forall>t. a \<notin> set (new_conn_q st1 t)) \<and> a < cq_fresh st1 \<and> kvs_inv n log st1"
proof (cases "cqi_freelist st")
  case Nil
  then have x: "x = Some (cq_fresh st)" "st1 = st\<lparr>cqi_freelist := map (\<lambda>i. cq_fresh st + i) [1..<ITEMS_PER_ALLOC], cq_fresh := cq_fresh st + ITEMS_PER_ALLOC\<rparr>"
    using assms(2) by (auto simp: cqi_new_def)
  have lt: "\<forall>t. \<forall>a\<in>set (new_conn_q st t). a < cq_fresh st" using assms(1) by (auto simp: kvs_inv_def)
  have "kvs_inv n log st1" using assms(1) lt unfolding x(2) kvs_inv_def by (auto simp: distinct_map inj_on_def sockets_def ITEMS_PER_ALLOC_def; fastforce)
  then show ?thesis using x lt by (auto simp: ITEMS_PER_ALLOC_def)
next
  case (Cons a r)
  then have x: "x = Some a" "st1 = st\<lparr>cqi_freelist := r\<rparr>" using assms(2) by (auto simp: cqi_new_def)
  have "a \<notin> set r" "\<forall>t. a \<notin> set (new_conn_q st t)" "a < cq_fresh st" using assms(1) Cons by (auto simp: kvs_inv_def)
  moreover have "kvs_inv n log st1" using assms(1) Cons unfolding x(2) kvs_inv_def by (auto simp: sockets_def)
  ultimately show ?thesis using x by auto
qed

lemma dispatch_inv:
  assumes "0 < n" "kvs_inv n log st"
  shows "\<exists>st'. dispatch_conn_new True True sfd ty fl st = Inr st' \<and> kvs_inv n (log @ [sfd]) st'"
proof -
  obtain x st1 where c: "cqi_new True st = (x, st1)" by fastforce
  obtain a where a: "x = Some a" "a \<notin> set (cqi_freelist st1)" "\<forall>t. a \<notin> set (new_conn_q st1 t)" "a < cq_fresh st1" "kvs_inv n log st1"
    using cqi_new_inv [OF assms(2) c] by blast
  have tid: "(last_thread st1 + 1) mod int n = int (length log mod n)" by (rule next_thread [OF assms(1) a(5)])
  let ?t = "length log mod n" and ?it = "\<lparr>ci_sfd = sfd, ci_type = ty, ci_flags = fl\<rparr>"
  let ?st = "st1\<lparr>last_thread := int ?t, cq_items := (cq_items st1)(a \<mapsto> ?it), new_conn_q := (new_conn_q st1)(?t := new_conn_q st1 ?t @ [a]),
       notify_pipe := (notify_pipe st1)(?t := notify_pipe st1 ?t + 1)\<rparr>"
  have nt: "num_threads st1 = n" using a(5) by (simp add: kvs_inv_def)
  have "dispatch_conn_new True True sfd ty fl st = Inr ?st"
    using c a(1) tid nt assms(1) by (simp add: dispatch_conn_new_def Let_def cq_push_def)
  moreover have "sockets ?st (new_conn_q ?st t) = sockets st1 (new_conn_q st1 t) @ (if t = ?t then [sfd] else [])" for t
    using a(3) by (auto simp: sockets_def)
  then have "\<forall>t<n. registered ?st t @ sockets ?st (new_conn_q ?st t) = share_of n (log @ [sfd]) t"
    using a(5) unfolding kvs_inv_def share_of_snoc by (auto simp: append_assoc [symmetric] simp del: append_assoc)
  moreover have "?t < n" using assms(1) by simp
  ultimately show ?thesis using a(2-5) unfolding kvs_inv_def by (auto simp: nt)
qed

lemma worker_inv:
  assumes "kvs_inv n log st"
  shows "\<exists>st'. thread_ev_proc True t st = Inr st' \<and> kvs_inv n log st'"
proof (cases "new_conn_q st t")
  case Nil
  then have "notify_pipe st t = 0" using assms by (simp add: kvs_inv_def)
  then show ?thesis using assms by (simp add: thread_ev_proc_def)
next
  case (Cons a q)
  have t: "t < n" using assms Cons unfolding kvs_inv_def by (metis list.distinct(1) not_le)
  have "\<forall>x\<in>set (new_conn_q st t). cq_items st x \<noteq> None" using assms unfolding kvs_inv_def by blast
  then obtain it where it: "cq_items st a = Some it" unfolding Cons by auto
  let ?st = "st\<lparr>notify_pipe := (notify_pipe st)(t := notify_pipe st t - 1), new_conn_q := (new_conn_q st)(t := q),
      registered := (registered st)(t := registered st t @ [ci_sfd it]), cqi_freelist := cqi_freelist st @ [a]\<rparr>"
  have "notify_pipe st t = Suc (length q)" using assms Cons by (simp add: kvs_inv_def)
  then have "thread_ev_proc True t st = Inr ?st" using Cons it by (simp add: thread_ev_proc_def Let_def cq_pop_def cqi_free_def)
  moreover have "registered ?st t' @ sockets ?st (new_conn_q ?st t') = registered st t' @ sockets st (new_conn_q st t')" for t'
    using Cons it by (auto simp: sockets_def)
  then have "\<forall>t'<n. registered ?st t' @ sockets ?st (new_conn_q ?st t') = share_of n log t'" using assms unfolding kvs_inv_def by metis
  moreover have "kvs_inv n log ?st" if "\<forall>t'<n. registered ?st t' @ sockets ?st (new_conn_q ?st t') = share_of n log t'"
  proof -
    have dq: "distinct (new_conn_q st t')" "set (new_conn_q st t') \<inter> set (cqi_freelist st) = {}" "notify_pipe st t' = length (new_conn_q st t')"
      "\<forall>x\<in>set (new_conn_q st t'). x < cq_fresh st \<and> cq_items st x \<noteq> None" "n \<le> t' \<longrightarrow> new_conn_q st t' = []" for t'
      using assms unfolding kvs_inv_def by blast+
    have dd: "set (new_conn_q st t') \<inter> set (new_conn_q st t'') = {}" if "t' \<noteq> t''" for t' t'' using assms that unfolding kvs_inv_def by blast
    have df: "distinct (cqi_freelist st)" "\<forall>x\<in>set (cqi_freelist st). x < cq_fresh st" "num_threads st = n" "last_thread st = (if log = [] then -1 else int ((length log - 1) mod n))"
      using assms unfolding kvs_inv_def by blast+
    have q: "a \<notin> set q" "distinct q" "a \<notin> set (cqi_freelist st)" "set q \<inter> set (cqi_freelist st) = {}" "a < cq_fresh st" "\<forall>x\<in>set q. x < cq_fresh st \<and> cq_items st x \<noteq> None"
      "notify_pipe st t = Suc (length q)" using dq [of t] unfolding Cons by auto
    have qo: "a \<notin> set (new_conn_q st t')" "set q \<inter> set (new_conn_q st t') = {}" if "t' \<noteq> t" for t' using dd [OF that] unfolding Cons by auto
    have c: "num_threads ?st = n" "last_thread ?st = (if log = [] then -1 else int ((length log - 1) mod n))" "distinct (cqi_freelist ?st)"
      "\<forall>x\<in>set (cqi_freelist ?st). x < cq_fresh ?st" using df q(3,5) by simp_all
    have cq: "distinct (new_conn_q ?st t')" "set (new_conn_q ?st t') \<inter> set (cqi_freelist ?st) = {}"
      "\<forall>x\<in>set (new_conn_q ?st t'). x < cq_fresh ?st \<and> cq_items ?st x \<noteq> None" "notify_pipe ?st t' = length (new_conn_q ?st t')" for t'
      using dq [of t'] q qo [of t'] by (cases "t' = t"; simp)+
    have cd: "set (new_conn_q ?st t') \<inter> set (new_conn_q ?st t'') = {}" if "t' \<noteq> t''" for t' t''
      using dd [OF that] qo [of t'] qo [of t''] that by (cases "t' = t"; cases "t'' = t") auto
    have cn: "new_conn_q ?st t' = []" if "n \<le> t'" for t' using dq(5) [of t'] that t by simp
    show ?thesis unfolding kvs_inv_def
      by (intro conjI allI) (use c cq cd cn that in \<open>blast+\<close>)
  qed
  ultimately show ?thesis by blast
qed

lemma kvs_run_inv: "kvs_run n log st \<Longrightarrow> 0 < n \<Longrightarrow> kvs_inv n log st"
proof (induction rule: kvs_run.induct)
  case start
  then show ?case by (simp add: kvs_inv_def kvs_init_def share_of_def sockets_def)
next
  case (accept log st sfd fl st')
  then show ?case using dispatch_inv [of n log st sfd conn_slave fl] by auto
next
  case (worker log st t st')
  then show ?case using worker_inv [of n log st t] by auto
qed

lemma kvs_run_exists: "0 < n \<Longrightarrow> \<exists>st. kvs_run n log st"
proof (induction log rule: rev_induct)
  case Nil
  then show ?case using kvs_run.start by blast
next
  case (snoc s log)
  then obtain st where "kvs_run n log st" by blast
  then show ?case using dispatch_inv [OF snoc.prems kvs_run_inv] kvs_run.accept snoc.prems by meson
qed



end
