(* ===== verification/Proxy_Util.thy ===== *)
theory Proxy_Util
  imports Proxy_State
begin

text \<open>
  The files the proxy reads at start-up, src/src/proxy_util.cpp: the list of datalets, by the reader
  in use (getline, comments) and by the older one (fgets), and the removal of comments from the JSON
  configuration, whose parser is third-party. Reading back the printed form of a list of datalets
  is shown to give the table of these datalets, the first one for every address and port.
\<close>

section \<open>Lines of a file\<close>

text \<open>The lines std::getline returns until the end of the file.\<close>

function getlines :: "string \<Rightarrow> string list" where
  "getlines s = (if s = [] then [] else takeWhile (\<lambda>c. c \<noteq> LF) s # getlines (tl (dropWhile (\<lambda>c. c \<noteq> LF) s)))"
  by pat_completeness auto
termination
proof (relation "measure length")
  show "(tl (dropWhile (\<lambda>c. c \<noteq> LF) s), s) \<in> measure length" if "s \<noteq> []" for s
    using that length_dropWhile_le [of "\<lambda>c. c \<noteq> LF" s] by (cases s) (auto simp: less_Suc_eq_le)
qed simp

declare getlines.simps [simp del]

text \<open>find_first_of and resize: everything from the comment sign on is dropped.\<close>

definition strip_comment :: "string \<Rightarrow> string" where
  "strip_comment line = takeWhile (\<lambda>c. c \<noteq> CHR ''#'') line"

section \<open>The readers\<close>

text \<open>What load_config_file hands to the JSON parser; None: the file cannot be read and the function throws.\<close>

definition load_config_file :: "(string \<Rightarrow> 'json) \<Rightarrow> string option \<Rightarrow> 'json option" where
  "load_config_file parseJson file =
     (case file of
        None \<Rightarrow> None
      | Some s \<Rightarrow> Some (parseJson (concat (map (\<lambda>line. strip_comment line @ [LF]) (getlines s)))))"

definition role_of :: "int \<Rightarrow> replica_role_t" where
  "role_of i = (if i = 0 then Master_t else if i = 1 then Slave_t else Role i)"

text \<open>parse_each_dumbnode; the weight is not assigned in this configuration and keeps the value junk. None is PARSE_ERR_INVALID.\<close>

definition parse_each_dumbnode :: "int \<Rightarrow> string \<Rightarrow> (string \<times> DumbNode) option" where
  "parse_each_dumbnode junk line =
     (case strtok_r (CHR '':'') line of None \<Rightarrow> None | Some (addr, s1) \<Rightarrow>
     (case strtok_r (CHR '':'') s1 of None \<Rightarrow> None | Some (port, s2) \<Rightarrow>
     (case strtok_r (CHR '':'') s2 of None \<Rightarrow> None | Some (role, s3) \<Rightarrow>
        Some (addr @ '':'' @ dec_int (atoi port), \<lparr>n_addr = addr, n_port = atoi port, n_weight = junk, n_role = role_of (atoi role)\<rparr>))))"

text \<open>insert of an unordered map: an existing entry stays.\<close>

definition table_insert :: "('k \<times> 'v) list \<Rightarrow> 'k \<times> 'v \<Rightarrow> ('k \<times> 'v) list" where
  "table_insert t x = (if fst x \<in> fst ` set t then t else t @ [x])"

definition insert_node :: "int \<Rightarrow> string \<Rightarrow> (string \<times> DumbNode) list \<Rightarrow> (string \<times> DumbNode) list" where
  "insert_node junk line t = (case parse_each_dumbnode junk (c_chars line) of None \<Rightarrow> t | Some x \<Rightarrow> table_insert t x)"

text \<open>The loops; junk gives the uninitialised weight of the node of each line number.\<close>

fun std_str_loop :: "(nat \<Rightarrow> int) \<Rightarrow> nat \<Rightarrow> string list \<Rightarrow> (string \<times> DumbNode) list \<Rightarrow> (string \<times> DumbNode) list" where
  "std_str_loop junk line_num [] t = t"
| "std_str_loop junk line_num (line # ls) t =
     (if line \<noteq> [] \<and> hd line = CHR ''#'' then std_str_loop junk line_num ls t
      else std_str_loop junk (Suc line_num) ls (insert_node (junk (Suc line_num)) (strip_comment line) t))"

fun c_str_loop :: "(nat \<Rightarrow> int) \<Rightarrow> nat \<Rightarrow> string list \<Rightarrow> (string \<times> DumbNode) list \<Rightarrow> (string \<times> DumbNode) list" where
  "c_str_loop junk line_num [] t = t"
| "c_str_loop junk line_num (line # ls) t = c_str_loop junk (Suc line_num) ls (insert_node (junk (Suc line_num)) line t)"

definition parse_dumbnodes_std_str :: "(nat \<Rightarrow> int) \<Rightarrow> string option \<Rightarrow> (string \<times> DumbNode) list res" where
  "parse_dumbnodes_std_str junk file = (case file of None \<Rightarrow> Inl Exit_failure | Some s \<Rightarrow> Inr (std_str_loop junk 0 (getlines s) []))"

definition parse_dumbnodes_c_str :: "(nat \<Rightarrow> int) \<Rightarrow> string option \<Rightarrow> (string \<times> DumbNode) list res" where
  "parse_dumbnodes_c_str junk file = (case file of None \<Rightarrow> Inl Exit_failure | Some s \<Rightarrow> Inr (c_str_loop junk 0 (fgets_lines 0x500 s) []))"

section \<open>Datalet files\<close>

text \<open>A line that names a datalet, possibly with a comment behind it, a line that is a comment, or an empty one.\<close>

datatype node_line = Node string int int string | Comment string | Blank

definition remark :: "string \<Rightarrow> bool" where
  "remark c \<longleftrightarrow> (c = [] \<or> hd c = CHR ''#'') \<and> LF \<notin> set c"

definition addr_ok :: "string \<Rightarrow> bool" where
  "addr_ok a \<longleftrightarrow> a \<noteq> [] \<and> set a \<inter> {CHR '':'', CHR ''#'', LF, CHR 0x00} = {}"

fun line_ok :: "node_line \<Rightarrow> bool" where
  "line_ok (Node a p r c) \<longleftrightarrow> addr_ok a \<and> - (2 ^ 31) \<le> p \<and> p < 2 ^ 31 \<and> - (2 ^ 31) \<le> r \<and> r < 2 ^ 31 \<and> remark c"
| "line_ok (Comment c) \<longleftrightarrow> LF \<notin> set c"
| "line_ok Blank \<longleftrightarrow> True"

definition node_text :: "string \<Rightarrow> int \<Rightarrow> int \<Rightarrow> string" where
  "node_text a p r = a @ '':'' @ dec_int p @ '':'' @ dec_int r"

fun line_text :: "node_line \<Rightarrow> string" where
  "line_text (Node a p r c) = node_text a p r @ c"
| "line_text (Comment c) = CHR ''#'' # c"
| "line_text Blank = []"

text \<open>The entry of a line, with its weight left at zero.\<close>

fun line_entry :: "node_line \<Rightarrow> (string \<times> DumbNode) list" where
  "line_entry (Node a p r c) = [(a @ '':'' @ dec_int p, \<lparr>n_addr = a, n_port = p, n_weight = 0, n_role = role_of r\<rparr>)]"
| "line_entry (Comment c) = []"
| "line_entry Blank = []"

definition file_text :: "node_line list \<Rightarrow> string" where
  "file_text ls = concat (map (\<lambda>l. line_text l @ [LF]) ls)"

definition file_entries :: "node_line list \<Rightarrow> (string \<times> DumbNode) list" where
  "file_entries ls = concat (map line_entry ls)"

definition unweighted :: "(string \<times> DumbNode) list \<Rightarrow> (string \<times> DumbNode) list" where
  "unweighted t = map (\<lambda>(k, n). (k, n\<lparr>n_weight := 0\<rparr>)) t"

section \<open>Lines\<close>

lemma getlines_Nil [simp]: "getlines [] = []"
  by (simp add: getlines.simps)

lemma getlines_line:
  assumes "LF \<notin> set l"
  shows "getlines (l @ LF # s) = l # getlines s"
proof -
  have n: "\<forall>x\<in>set l. x \<noteq> LF" using assms by blast
  show ?thesis
    using takeWhile_append_stop [OF n, of "LF # s"] dropWhile_append_stop [OF n, of "LF # s"] by (subst getlines.simps) simp
qed

lemma getlines_concat: "(\<forall>l\<in>set ls. LF \<notin> set l) \<Longrightarrow> getlines (concat (map (\<lambda>l. l @ [LF]) ls)) = ls"
  by (induction ls) (simp_all add: getlines_line)

lemma getlines_no_LF: "l \<in> set (getlines s) \<Longrightarrow> LF \<notin> set l"
proof (induction s rule: getlines.induct)
  case (1 s)
  then show ?case by (subst (asm) (2) getlines.simps) (auto split: if_splits dest: set_takeWhileD)
qed

text \<open>Stripping comments keeps the number of lines, so that the JSON parser reports the line of the file.\<close>

lemma config_lines:
  "getlines (concat (map (\<lambda>line. strip_comment line @ [LF]) (getlines s))) = map strip_comment (getlines s)"
proof -
  have "\<forall>l\<in>set (map strip_comment (getlines s)). LF \<notin> set l"
    using getlines_no_LF by (auto simp: strip_comment_def dest: set_takeWhileD)
  from getlines_concat [OF this] show ?thesis by (simp add: comp_def)
qed

section \<open>Tokens\<close>

lemma dec_int_chars: "c \<in> set (dec_int i) \<Longrightarrow> isdigit c \<or> c = CHR ''-''"
  using dec_nat_digits by (auto simp: dec_int_def split: if_splits)

lemma dec_int_free: "CHR '':'' \<notin> set (dec_int i)" "CHR ''#'' \<notin> set (dec_int i)" "LF \<notin> set (dec_int i)" "CHR 0x00 \<notin> set (dec_int i)" "dec_int i \<noteq> []"
proof -
  have "c \<notin> set (dec_int i)" if "\<not> isdigit c" "c \<noteq> CHR ''-''" for c using dec_int_chars [of c i] that by blast
  then show "CHR '':'' \<notin> set (dec_int i)" "CHR ''#'' \<notin> set (dec_int i)" "LF \<notin> set (dec_int i)" "CHR 0x00 \<notin> set (dec_int i)"
    by (simp_all add: isdigit_def LF_def)
qed (simp add: dec_int_def)

text \<open>A printed node is read back, also with white space behind it.\<close>

lemma parse_node_text:
  assumes "addr_ok a" "- (2 ^ 31) \<le> p" "p < 2 ^ 31" "- (2 ^ 31) \<le> r" "r < 2 ^ 31" "e = [] \<or> e = [LF]"
  shows "parse_each_dumbnode w (node_text a p r @ e) =
     Some (a @ '':'' @ dec_int p, \<lparr>n_addr = a, n_port = p, n_weight = w, n_role = role_of r\<rparr>)"
proof -
  have a: "a \<noteq> []" "CHR '':'' \<notin> set a" using assms(1) by (auto simp: addr_ok_def)
  have d: "dec_int r @ e \<noteq> []" "CHR '':'' \<notin> set (dec_int r @ e)" using dec_int_free [of r] assms(6) by (auto simp: LF_def)
  have "e = [] \<or> \<not> isdigit (hd e)" using assms(6) by (auto simp: isdigit_def LF_def)
  then have "atoi (dec_int p) = p" "atoi (dec_int r @ e) = r" using atoi_dec_int [of p "[]"] atoi_dec_int [of r e] assms by simp_all
  then show ?thesis
    using strtok_r_token(1) [OF a] strtok_r_token(1) [OF dec_int_free(5,1)] strtok_r_token(2) [OF d]
    by (simp add: parse_each_dumbnode_def node_text_def)
qed

lemma node_text_free:
  assumes "addr_ok a"
  shows "\<forall>c\<in>set (node_text a p r). c \<noteq> CHR ''#'' \<and> c \<noteq> LF \<and> c \<noteq> CHR 0x00" "node_text a p r \<noteq> []" "hd (node_text a p r) \<noteq> CHR ''#''"
proof -
  show f: "\<forall>c\<in>set (node_text a p r). c \<noteq> CHR ''#'' \<and> c \<noteq> LF \<and> c \<noteq> CHR 0x00"
    using assms dec_int_free [of p] dec_int_free [of r] by (auto simp: node_text_def addr_ok_def LF_def)
  show "node_text a p r \<noteq> []" by (simp add: node_text_def)
  then show "hd (node_text a p r) \<noteq> CHR ''#''" using f hd_in_set by blast
qed

section \<open>Tables\<close>

lemma unweighted_keys: "fst ` set (unweighted t) = fst ` set t"
  by (force simp: unweighted_def)

lemma unweighted_insert:
  "unweighted (table_insert t (k, n)) = table_insert (unweighted t) (k, n\<lparr>n_weight := 0\<rparr>)"
  using unweighted_keys [of t] by (simp add: table_insert_def) (simp add: unweighted_def)

text \<open>Inserting in order keeps the first entry of every key.\<close>

lemma inserts_first:
  assumes "distinct (map fst t)"
  shows "distinct (map fst (foldl table_insert t xs)) \<and> map_of (foldl table_insert t xs) = map_of (t @ xs)"
  using assms
proof (induction xs arbitrary: t)
  case (Cons x xs)
  have "distinct (map fst (table_insert t x))" using Cons.prems by (auto simp: table_insert_def)
  note ih = Cons.IH [OF this]
  have "map_of (table_insert t x @ xs) = map_of (t @ x # xs)"
  proof (cases "fst x \<in> fst ` set t")
    case True
    then obtain v where "map_of t (fst x) = Some v" by (metis map_of_eq_None_iff not_Some_eq)
    then show ?thesis using True by (auto simp: table_insert_def map_add_def fun_eq_iff split: option.splits)
  qed (simp add: table_insert_def)
  then show ?case using ih by simp
qed simp

lemma std_line:
  assumes "line_ok l"
  shows "\<exists>n2 t2. std_str_loop junk n (line_text l # ls) t = std_str_loop junk n2 ls t2 \<and> unweighted t2 = foldl table_insert (unweighted t) (line_entry l)"
proof (cases l)
  case (Node a p r c)
  then have ok: "addr_ok a" "- (2 ^ 31) \<le> p" "p < 2 ^ 31" "- (2 ^ 31) \<le> r" "r < 2 ^ 31" "remark c" using assms by auto
  note f = node_text_free [OF ok(1), of p r]
  have s: "strip_comment (line_text l) = node_text a p r"
    unfolding strip_comment_def Node line_text.simps using f(1) ok(6) by (intro takeWhile_append_stop) (auto simp: remark_def)
  have h: "line_text l \<noteq> [] \<and> hd (line_text l) \<noteq> CHR ''#''" using f(2,3) Node by simp
  have "insert_node w (node_text a p r) t = table_insert t (a @ '':'' @ dec_int p, \<lparr>n_addr = a, n_port = p, n_weight = w, n_role = role_of r\<rparr>)" for w
    using parse_node_text [OF ok(1-5), of "[]" w] c_chars_id [of "node_text a p r"] f(1) by (simp add: insert_node_def)
  then show ?thesis
    using s h Node by (intro exI [of _ "Suc n"] exI [of _ "insert_node (junk (Suc n)) (node_text a p r) t"]) (simp add: unweighted_insert)
next
  case Blank
  have "insert_node w [] t = t" for w by (simp add: insert_node_def parse_each_dumbnode_def strtok_r_def c_chars_def)
  then show ?thesis using Blank by (auto simp: strip_comment_def)
qed auto

lemma std_loop_entries:
  assumes "\<forall>l\<in>set ls. line_ok l"
  shows "unweighted (std_str_loop junk n (map line_text ls) t) = foldl table_insert (unweighted t) (file_entries ls)"
  using assms
proof (induction ls arbitrary: n t)
  case (Cons l ls)
  obtain n2 t2 where "std_str_loop junk n (line_text l # map line_text ls) t = std_str_loop junk n2 (map line_text ls) t2"
    "unweighted t2 = foldl table_insert (unweighted t) (line_entry l)" using std_line [of l] Cons.prems by fastforce
  then show ?case using Cons.IH [of n2 t2] Cons.prems by (simp add: file_entries_def)
qed (simp add: file_entries_def)

lemma line_text_no_LF: "line_ok l \<Longrightarrow> LF \<notin> set (line_text l)"
  by (cases l) (use node_text_free(1) in \<open>fastforce simp: remark_def LF_def\<close>)+

text \<open>Without repeated addresses the table is the list of the datalets.\<close>

lemma inserts_distinct: "distinct (map fst (t @ xs)) \<Longrightarrow> foldl table_insert t xs = t @ xs"
proof (induction xs arbitrary: t)
  case (Cons x xs)
  then have "table_insert t x = t @ [x]" by (auto simp: table_insert_def)
  then show ?case using Cons.IH [of "t @ [x]"] Cons.prems by simp
qed simp

lemma std_table:
  assumes "\<forall>l\<in>set ls. line_ok l"
  shows "\<exists>t. parse_dumbnodes_std_str junk (Some (file_text ls)) = Inr t \<and> unweighted t = foldl table_insert [] (file_entries ls)"
proof -
  have "getlines (file_text ls) = map line_text ls"
    using getlines_concat [of "map line_text ls"] line_text_no_LF assms by (simp add: file_text_def comp_def)
  then show ?thesis using std_loop_entries [OF assms, of junk 0 "[]"] by (simp add: parse_dumbnodes_std_str_def unweighted_def)
qed

text \<open>The reader on fgets agrees for files of datalets only, in lines that fit its buffer.\<close>

lemma c_loop_entries:
  assumes "\<forall>l\<in>set ls. line_ok l \<and> (\<exists>a p r. l = Node a p r [])"
  shows "unweighted (c_str_loop junk n (map (\<lambda>l. line_text l @ [LF]) ls) t) = foldl table_insert (unweighted t) (file_entries ls)"
  using assms
proof (induction ls arbitrary: n t)
  case (Cons l ls)
  obtain a p r where l: "l = Node a p r []" using Cons.prems by auto
  then have ok: "addr_ok a" "- (2 ^ 31) \<le> p" "p < 2 ^ 31" "- (2 ^ 31) \<le> r" "r < 2 ^ 31" using Cons.prems by auto
  have "c_chars (node_text a p r @ [LF]) = node_text a p r @ [LF]" using node_text_free(1) [OF ok(1)] by (intro c_chars_id) (auto simp: LF_def)
  then have i: "insert_node w (node_text a p r @ [LF]) t = table_insert t (a @ '':'' @ dec_int p, \<lparr>n_addr = a, n_port = p, n_weight = w, n_role = role_of r\<rparr>)" for w
    using parse_node_text [OF ok, of "[LF]" w] by (simp add: insert_node_def)
  have "unweighted (c_str_loop junk (Suc n) (map (\<lambda>l. line_text l @ [LF]) ls) t2) = foldl table_insert (unweighted t2) (file_entries ls)" for t2
    using Cons.IH Cons.prems by simp
  then show ?case using i by (simp add: l file_entries_def unweighted_insert)
qed (simp add: file_entries_def)

lemma fgets_file:
  assumes "\<forall>l\<in>set ls. line_ok l \<and> Suc (length (line_text l)) < sz"
  shows "fgets_lines sz (file_text ls) = map (\<lambda>l. line_text l @ [LF]) ls"
  using fgets_concat [of "map line_text ls" sz] assms line_text_no_LF by (simp add: file_text_def comp_def)

lemma c_str_agrees:
  assumes "\<forall>l\<in>set ls. line_ok l \<and> (\<exists>a p r. l = Node a p r []) \<and> length (line_text l) < 0x500 - 1"
  shows "\<exists>t t'. parse_dumbnodes_c_str junk (Some (file_text ls)) = Inr t \<and> parse_dumbnodes_std_str junk' (Some (file_text ls)) = Inr t' \<and>
     unweighted t = unweighted t'"
proof -
  have "fgets_lines 0x500 (file_text ls) = map (\<lambda>l. line_text l @ [LF]) ls" using assms by (intro fgets_file) auto
  then show ?thesis
    using c_loop_entries [of ls junk 0 "[]"] std_table [of ls junk'] assms by (auto simp: parse_dumbnodes_c_str_def unweighted_def)
qed

text \<open>But it knows no comments: a datalet that was commented out is in its table.\<close>

lemma c_str_reads_comments:
  assumes "addr_ok a" "- (2 ^ 31) \<le> p" "p < 2 ^ 31" "- (2 ^ 31) \<le> r" "r < 2 ^ 31" "length (node_text a p r) < 0x500 - 2"
  shows "parse_dumbnodes_c_str junk (Some (CHR ''#'' # node_text a p r @ [LF])) =
     Inr [(CHR ''#'' # a @ '':'' @ dec_int p, \<lparr>n_addr = CHR ''#'' # a, n_port = p, n_weight = junk 1, n_role = role_of r\<rparr>)]"
proof -
  let ?l = "CHR ''#'' # node_text a p r"
  note f = node_text_free(1) [OF assms(1), of p r]
  have "LF \<notin> set ?l" using f by (auto simp: LF_def)
  then have g: "fgets_lines 0x500 (?l @ LF # []) = [?l @ [LF]]" using assms(6) by (subst fgets_line) auto
  have c: "c_chars (?l @ [LF]) = ?l @ [LF]" using f by (intro c_chars_id) (auto simp: LF_def)
  have a: "CHR ''#'' # a \<noteq> []" "CHR '':'' \<notin> set (CHR ''#'' # a)" using assms(1) by (auto simp: addr_ok_def)
  have d: "dec_int r @ [LF] \<noteq> []" "CHR '':'' \<notin> set (dec_int r @ [LF])" using dec_int_free [of r] by (auto simp: LF_def)
  have "\<not> isdigit LF" by (simp add: isdigit_def LF_def)
  then have "atoi (dec_int p) = p" "atoi (dec_int r @ [LF]) = r" using atoi_dec_int [of p "[]"] atoi_dec_int [of r "[LF]"] assms by simp_all
  then have "parse_each_dumbnode w (?l @ [LF]) = Some (CHR ''#'' # a @ '':'' @ dec_int p, \<lparr>n_addr = CHR ''#'' # a, n_port = p, n_weight = w, n_role = role_of r\<rparr>)" for w
    using strtok_r_token(1) [OF a] strtok_r_token(1) [OF dec_int_free(5,1)] strtok_r_token(2) [OF d]
    by (simp add: parse_each_dumbnode_def node_text_def)
  then show ?thesis using g c by (simp add: parse_dumbnodes_c_str_def insert_node_def table_insert_def)
qed

section \<open>Properties\<close>

text \<open>Reading the datalet file: for a file of datalets, comments and empty lines, the reader in use returns the table of its datalets; of several lines with the same address and port the first one counts, and no address occurs twice.\<close>

theorem datalet_file_roundtrip:
  assumes "\<forall>l\<in>set ls. line_ok l"
  shows "\<exists>t. parse_dumbnodes_std_str junk (Some (file_text ls)) = Inr t \<and> distinct (map fst t) \<and> map_of (unweighted t) = map_of (file_entries ls)"
proof -
  have "map fst (unweighted s) = map fst s" for s by (auto simp: unweighted_def)
  then show ?thesis using std_table [OF assms, of junk] inserts_first [of "[]" "file_entries ls"] by (metis append_Nil distinct.simps(1) list.map(1))
qed

theorem datalet_file_roundtrip_witness:
  "\<exists>t. parse_dumbnodes_std_str (\<lambda>_. 7) (Some (file_text [Comment '' datalets'', Node ''10.0.0.1'' 6379 0 ''# master'', Blank, Node ''10.0.0.2'' 6379 1 [], Node ''10.0.0.2'' 6379 0 []])) = Inr t \<and>
     distinct (map fst t) \<and>
     map_of (unweighted t) = map_of (file_entries [Comment '' datalets'', Node ''10.0.0.1'' 6379 0 ''# master'', Blank, Node ''10.0.0.2'' 6379 1 [], Node ''10.0.0.2'' 6379 0 []])"
  by (rule datalet_file_roundtrip) (simp add: addr_ok_def remark_def LF_def)

end
