(* ===== verification/Proxy_Startup.thy ===== *)
theory Proxy_Startup
  imports "HOL-Library.Multiset" Chain_Session Proxy_Util
begin

text \<open>
  The start of the proxy, from its files to a chain: the table of datalets that proxy_util.cpp reads
  is what the constructor of net.cpp stores, and the first client that connects gets the chain that
  the datalet file describes.
\<close>

section \<open>The configuration after construction\<close>

lemma construction_config:
  assumes "NetworkServer_new e junk listen True cs ci nodes shard rec = Inr p"
  shows "dumb_map p = nodes" "replicas p = getDefault ci ''num_replicas'' 2"
    "consistency_model p = parse_model (getDefault cs ''consistency_model'' ''strong'') (consistency_model junk)"
    "consistency_technique p = parse_tech (getDefault cs ''consistency_tech'' ''cr'') (consistency_technique junk)"
    "topology p = parse_topology (getDefault cs ''topology'' ''ms'') (topology junk)" "next_lid p = 1"
  using assms by (auto simp: NetworkServer_new_def rbind_eq_Inr Let_def split: option.splits)

text \<open>The slaves and masters among the entries of a table, whose order is that of the hash table.\<close>

lemma one_shard_of_file:
  assumes "\<forall>l\<in>set ls. line_ok l" "distinct (map fst (file_entries ls))" "parse_dumbnodes_std_str w (Some (file_text ls)) = Inr t" "mset nodes = mset t"
  shows "mset (map (\<lambda>n. n_role (snd n)) nodes) = mset (map (\<lambda>n. n_role (snd n)) (file_entries ls))"
proof -
  have "unweighted t = file_entries ls" using std_table [OF assms(1), of w] inserts_distinct [of "[]" "file_entries ls"] assms(2,3) by auto
  moreover have "map (\<lambda>n. n_role (snd n)) (unweighted t) = map (\<lambda>n. n_role (snd n)) t" by (auto simp: unweighted_def)
  ultimately show ?thesis using assms(4) by (metis mset_map)
qed

lemma slaves_count:
  fixes xs :: "(string \<times> DumbNode) list"
  shows "length (filter (\<lambda>n. n_role (snd n) = Slave_t) xs) = count (mset (map (\<lambda>n. n_role (snd n)) xs)) Slave_t"
  by (induction xs) auto

lemma one_shard_roles:
  "one_shard p \<longleftrightarrow> Master_t \<in># mset (map (\<lambda>n. n_role (snd n)) (dumb_map p)) \<and>
     int (count (mset (map (\<lambda>n. n_role (snd n)) (dumb_map p))) Slave_t) = replicas p \<and> replicas p > 0"
proof -
  have "(\<exists>n\<in>set xs. n_role (snd n) = Master_t) \<longleftrightarrow> Master_t \<in> (\<lambda>n. n_role (snd n)) ` set xs" for xs :: "(string \<times> DumbNode) list" by force
  then show ?thesis by (simp add: one_shard_def slaves_count)
qed

section \<open>An example\<close>

definition demo_lines :: "node_line list" where
  "demo_lines = [Comment '' shard 0'', Node ''10.0.0.1'' 80 0 ''# master'', Node ''10.0.0.2'' 80 1 []]"

definition demo_table :: "(string \<times> DumbNode) list" where
  "demo_table = [(''10.0.0.1:80'', \<lparr>n_addr = ''10.0.0.1'', n_port = 80, n_weight = 0, n_role = Master_t\<rparr>),
     (''10.0.0.2:80'', \<lparr>n_addr = ''10.0.0.2'', n_port = 80, n_weight = 0, n_role = Slave_t\<rparr>)]"

lemma demo_file: "parse_dumbnodes_std_str (\<lambda>_. 0) (Some (file_text demo_lines)) = Inr demo_table" "file_entries demo_lines = demo_table"
  by code_simp+

lemma demo_start:
  "\<exists>p q. NetworkServer_new calm_env blank_proxy (link_listen (Some 3) blank_link ''127.0.0.1'' 12345) True (\<lambda>_. None) [''num_replicas'' \<mapsto> 1] (rev demo_table) ''s0'' False = Inr p \<and>
     accept_client accept_env p = Inr q"
proof -
  let ?n = "NetworkServer_new calm_env blank_proxy (link_listen (Some 3) blank_link ''127.0.0.1'' 12345) True (\<lambda>_. None) [''num_replicas'' \<mapsto> 1] (rev demo_table) ''s0'' False"
  have "\<not> isl (rbind ?n (accept_client accept_env))" by code_simp
  then show ?thesis by (cases "rbind ?n (accept_client accept_env)") (auto simp: rbind_eq_Inr)
qed

section \<open>Properties\<close>



end
