(* ===== verification/Config_File.thy ===== *)
theory Config_File
  imports Util_Strings
begin

text \<open>
  The configuration files of src/src/util/config.cpp: a tree of keys and values, read from a file
  whose lines are nested by tabs, looked up and changed by paths, and written back. The objects
  Config form a tree that owns its children; a pointer to one of them is its path of child numbers
  from the root, so parent drops the last number and depth is the length of the path. Saving a tree
  and loading it again is shown to give the same tree, and every tree that load returns is one for
  which this holds; get returns what set stored and set changes no other key.
\<close>

section \<open>The tree\<close>

datatype config = Config (cf_key: string) (cf_val: string) (cf_children: "config list")

type_synonym cptr = "nat list"

fun conf_at :: "cptr \<Rightarrow> config \<Rightarrow> config option" where
  "conf_at [] t = Some t"
| "conf_at (i # p) t = (if i < length (cf_children t) then conf_at p (cf_children t ! i) else None)"

fun upd_at :: "cptr \<Rightarrow> (config \<Rightarrow> config) \<Rightarrow> config \<Rightarrow> config" where
  "upd_at [] f t = f t"
| "upd_at (i # p) f t =
     (if i < length (cf_children t) then Config (cf_key t) (cf_val t) ((cf_children t)[i := upd_at p f (cf_children t ! i)]) else t)"

definition push_children :: "config list \<Rightarrow> config \<Rightarrow> config" where
  "push_children cs n = Config (cf_key n) (cf_val n) (cf_children n @ cs)"

definition is_comment :: "config \<Rightarrow> bool" where
  "is_comment n \<longleftrightarrow> (case cf_key n of c # r \<Rightarrow> c = CHR ''#'' | [] \<Rightarrow> False)"

text \<open>add_child returns the new node; the strings are C strings.\<close>

definition add_child :: "cptr \<Rightarrow> string \<Rightarrow> string \<Rightarrow> config \<Rightarrow> (config \<times> cptr) res" where
  "add_child p key val t =
     (case conf_at p t of
        None \<Rightarrow> Inl Dangling
      | Some n \<Rightarrow> Inr (upd_at p (push_children [Config (c_chars key) (c_chars val) []]) t, p @ [length (cf_children n)]))"

text \<open>find_child searches from the last child on.\<close>

fun find_from :: "string \<Rightarrow> config list \<Rightarrow> nat \<Rightarrow> nat option" where
  "find_from key cs 0 = None"
| "find_from key cs (Suc i) = (if cf_key (cs ! i) = key then Some i else find_from key cs i)"

definition find_child :: "string \<Rightarrow> config \<Rightarrow> nat option" where
  "find_child key n = find_from key (cf_children n) (length (cf_children n))"

section \<open>Paths\<close>

definition CONFIG_MAX_LINE :: nat where "CONFIG_MAX_LINE = 4096"

text \<open>The loops over path cut it at every dot and slash; f is the field read so far.\<close>

fun key_fields :: "string \<Rightarrow> string \<Rightarrow> string list" where
  "key_fields f [] = [f]"
| "key_fields f (c # s) = (if c = CHR ''.'' \<or> c = CHR ''/'' then f # key_fields [] s else key_fields (f @ [c]) s)"

definition key_path :: "string \<Rightarrow> string list" where
  "key_path key = key_fields [] (take (CONFIG_MAX_LINE - 1) (c_chars key))"

fun get_path :: "string list \<Rightarrow> config \<Rightarrow> config option" where
  "get_path [] conf = Some conf"
| "get_path (f # fs) conf = (case find_child f conf of None \<Rightarrow> None | Some i \<Rightarrow> get_path fs (cf_children conf ! i))"

definition cf_get :: "string \<Rightarrow> config \<Rightarrow> config option" where
  "cf_get key t = get_path (key_path key) t"

fun build_path :: "string list \<Rightarrow> cptr \<Rightarrow> config \<Rightarrow> (config \<times> cptr) res" where
  "build_path [] p t = Inr (t, p)"
| "build_path (f # fs) p t =
     rbind (case conf_at p t of None \<Rightarrow> Inl Dangling | Some conf \<Rightarrow>
            (case find_child f conf of None \<Rightarrow> add_child p f [] t | Some i \<Rightarrow> Inr (t, p @ [i])))
       (\<lambda>(t2, c). build_path fs c t2)"

definition build_key_path :: "string \<Rightarrow> config \<Rightarrow> (config \<times> cptr) res" where
  "build_key_path key t = build_path (key_path key) [] t"

definition set_val :: "string \<Rightarrow> config \<Rightarrow> config" where
  "set_val v n = Config (cf_key n) (c_chars v) (cf_children n)"

definition cf_set :: "string \<Rightarrow> string \<Rightarrow> config \<Rightarrow> (config \<times> cptr) res" where
  "cf_set key val t = rbind (build_key_path key t) (\<lambda>(t2, c). Inr (upd_at c (set_val val) t2, c))"

definition cf_num :: "config \<Rightarrow> int" where
  "cf_num n = atoi (c_chars (cf_val n))"

definition get_num :: "string \<Rightarrow> config \<Rightarrow> int" where
  "get_num key t = (case cf_get key t of None \<Rightarrow> 0 | Some c \<Rightarrow> cf_num c)"

text \<open>str_to_int64 also sets errno, which starts as e.\<close>

definition get_int64 :: "errno \<Rightarrow> string \<Rightarrow> config \<Rightarrow> int \<times> errno" where
  "get_int64 e key t = (case cf_get key t of None \<Rightarrow> (0, e) | Some c \<Rightarrow> str_to_int64 e (cf_val c))"

definition get_str :: "string \<Rightarrow> config \<Rightarrow> string" where
  "get_str key t = (case cf_get key t of None \<Rightarrow> [] | Some c \<Rightarrow> cf_val c)"

section \<open>Files\<close>

definition is_kv_seperator :: "char \<Rightarrow> bool" where
  "is_kv_seperator ch \<longleftrightarrow> ch = CHR ''='' \<or> ch = CHR '':''"

text \<open>
  One turn of the loop of load, on what fgets returned: the root, the current node and the last
  indentation. None: the jump to err. The character that is removed is the last one, whatever it is.
\<close>

definition load_line :: "string \<Rightarrow> config \<times> cptr \<times> nat \<Rightarrow> (config \<times> cptr \<times> nat) option res" where
  "load_line line st =
     (case st of (root, cfg, last_indent) \<Rightarrow>
      if c_chars line = [] then Inl Out_of_bounds
      else
        let buf = butlast (c_chars line); indent = length (takeWhile (\<lambda>c. c = TAB) buf); key = drop indent buf in
        if is_empty_str buf then Inr (Some st)
        else if hd key = CHR ''#'' then rbind (add_child cfg ''#'' (tl key) root) (\<lambda>(root2, c). Inr (Some (root2, cfg, last_indent)))
        else if last_indent + 1 < indent then Inr None
        else
          let cfg2 = (if indent \<le> last_indent then (butlast ^^ (last_indent - indent + 1)) cfg else cfg);
              val = dropWhile (\<lambda>c. \<not> is_kv_seperator c) key in
          if isspace (hd key) then Inr None
          else if val = [] then Inr None
          else rbind (add_child cfg2 (trim (takeWhile (\<lambda>c. \<not> is_kv_seperator c) key)) (trim (tl val)) root) (\<lambda>(root2, c).
               Inr (Some (root2, c, indent))))"

fun load_loop :: "string list \<Rightarrow> config \<times> cptr \<times> nat \<Rightarrow> config option res" where
  "load_loop [] st = Inr (Some (fst st))"
| "load_loop (l # ls) st = rbind (load_line l st) (\<lambda>r. case r of None \<Rightarrow> Inr None | Some st2 \<Rightarrow> load_loop ls st2)"

definition root_config :: config where
  "root_config = Config ''root'' [] []"

definition cf_load :: "string option \<Rightarrow> config option res" where
  "cf_load file = (case file of None \<Rightarrow> Inr None | Some s \<Rightarrow> load_loop (fgets_lines CONFIG_MAX_LINE s) (root_config, [], 0))"

text \<open>save prints the children of a node of the given depth.\<close>

fun cf_save :: "nat \<Rightarrow> config \<Rightarrow> string" where
  "cf_save depth (Config k v cs) =
     concat (map (\<lambda>c. replicate depth TAB @
       (if is_comment c then CHR ''#'' # c_chars (cf_val c) else c_chars (cf_key c) @ '': '' @ c_chars (cf_val c)) @ [LF] @
       cf_save (Suc depth) c) cs)"

section \<open>Well-formed trees\<close>

definition plain :: "string \<Rightarrow> bool" where
  "plain s \<longleftrightarrow> LF \<notin> set s \<and> CHR 0x00 \<notin> set s"

definition key_ok :: "string \<Rightarrow> bool" where
  "key_ok k \<longleftrightarrow> plain k \<and> trim k = k \<and> (\<forall>c\<in>set k. \<not> is_kv_seperator c) \<and> (k = [] \<or> hd k \<noteq> CHR ''#'')"

text \<open>The comments of a node precede its other children: load adds them to the node read last.\<close>

definition comments_first :: "config list \<Rightarrow> bool" where
  "comments_first cs \<longleftrightarrow> sorted_wrt (\<lambda>a b. b \<longrightarrow> a) (map is_comment cs)"

fun wf_node :: "config \<Rightarrow> bool" where
  "wf_node (Config k v cs) \<longleftrightarrow>
     (if k = ''#'' then cs = [] \<and> plain v
      else key_ok k \<and> plain v \<and> trim v = v \<and> comments_first cs \<and> list_all wf_node cs)"

definition node_line :: "nat \<Rightarrow> config \<Rightarrow> string" where
  "node_line d c = replicate d TAB @ (if is_comment c then CHR ''#'' # cf_val c else cf_key c @ '': '' @ cf_val c)"

fun conf_lines :: "nat \<Rightarrow> config list \<Rightarrow> string list" where
  "conf_lines d [] = []"
| "conf_lines d (Config k v cs # r) = node_line d (Config k v cs) # conf_lines (Suc d) cs @ conf_lines d r"

definition config_ok :: "config \<Rightarrow> bool" where
  "config_ok t \<longleftrightarrow> wf_node t \<and> cf_key t = ''root'' \<and> cf_val t = []"

definition fits_lines :: "config \<Rightarrow> bool" where
  "fits_lines t \<longleftrightarrow> (\<forall>l\<in>set (conf_lines 0 (cf_children t)). length l < CONFIG_MAX_LINE - 1)"

section \<open>Pointers\<close>

lemma node_at_append: "conf_at (p @ q) t = (case conf_at p t of None \<Rightarrow> None | Some n \<Rightarrow> conf_at q n)"
  by (induction p t rule: conf_at.induct) auto

lemma upd_at_append: "upd_at (p @ q) f t = upd_at p (upd_at q f) t"
  by (induction p arbitrary: t) auto

lemma upd_at_cong: "conf_at p t = Some n \<Longrightarrow> f n = g n \<Longrightarrow> upd_at p f t = upd_at p g t"
  by (induction p arbitrary: t) (auto split: if_splits)

lemma node_upd_at: "conf_at p t = Some n \<Longrightarrow> conf_at p (upd_at p f t) = Some (f n)"
  by (induction p arbitrary: t) (auto split: if_splits)

lemma upd_upd_at: "upd_at p g (upd_at p f t) = upd_at p (\<lambda>n. g (f n)) t"
  by (induction p arbitrary: t) auto

lemma node_at_take: "conf_at q t \<noteq> None \<Longrightarrow> conf_at (take d q) t \<noteq> None"
  by (metis append_take_drop_id node_at_append option.case_eq_if)

lemma add_childE:
  assumes "conf_at p t = Some n"
  shows "add_child p k v t = Inr (upd_at p (push_children [Config (c_chars k) (c_chars v) []]) t, p @ [length (cf_children n)])"
  using assms by (simp add: add_child_def)

lemma push_push [simp]: "push_children cs (push_children bs n) = push_children (bs @ cs) n"
  by (simp add: push_children_def)

lemma push_fields [simp]: "cf_key (push_children cs n) = cf_key n" "cf_val (push_children cs n) = cf_val n" "cf_children (push_children cs n) = cf_children n @ cs"
  "push_children [] n = n"
  by (simp_all add: push_children_def)

lemma upd_at_id: "upd_at p (\<lambda>n. n) t = t"
  by (induction p arbitrary: t) auto

text \<open>A node pushed without children, and its children pushed to it later.\<close>

lemma push_then_children:
  assumes "conf_at p t = Some n"
  shows "upd_at (p @ [length (cf_children n)]) (push_children cs) (upd_at p (push_children [Config k v []]) t) = upd_at p (push_children [Config k v cs]) t"
proof -
  have "upd_at [length (cf_children n)] (push_children cs) (push_children [Config k v []] n) = push_children [Config k v cs] n"
    by (simp add: push_children_def)
  then show ?thesis unfolding upd_at_append upd_upd_at by (intro upd_at_cong [OF assms])
qed

section \<open>Loading what was saved\<close>

lemma wf_is_comment: "wf_node (Config k v cs) \<Longrightarrow> is_comment (Config k v cs) \<longleftrightarrow> k = ''#''"
  by (auto simp: is_comment_def key_ok_def split: list.splits if_splits)

lemma plain_c_chars: "plain s \<Longrightarrow> c_chars s = s"
  by (rule c_chars_id) (auto simp: plain_def)

lemma c_chars_hash: "c_chars ''#'' = ''#''"
  by (simp add: c_chars_def)

lemma trimmed_hd: "trim k = k \<Longrightarrow> k = [] \<or> \<not> isspace (hd k)"
  using trim_ends [of k] by auto

text \<open>What load reads in a printed line: comments, and keys with their values.\<close>

lemma tabs_take: "r = [] \<or> hd r \<noteq> TAB \<Longrightarrow> length (takeWhile (\<lambda>c. c = TAB) (replicate d TAB @ r)) = d"
  by (simp add: takeWhile_append_stop)

lemma load_comment_line:
  assumes "wf_node (Config ''#'' v cs)"
  shows "load_line (node_line d (Config ''#'' v cs) @ [LF]) (root, cfg, li) =
     rbind (add_child cfg ''#'' v root) (\<lambda>(root2, c). Inr (Some (root2, cfg, li)))"
proof -
  let ?b = "replicate d TAB @ CHR ''#'' # v"
  have l: "node_line d (Config ''#'' v cs) = ?b" by (simp add: node_line_def is_comment_def)
  have "c_chars (?b @ [LF]) = ?b @ [LF]" using assms by (intro c_chars_id) (auto simp: plain_def char_defs)
  moreover have "length (takeWhile (\<lambda>c. c = TAB) ?b) = d" by (rule tabs_take) (simp add: TAB_def)
  moreover have "\<not> is_empty_str ?b" by (auto simp: is_empty_str_def isspace_def dropWhile_eq_Nil_conv)
  ultimately show ?thesis unfolding l by (simp add: load_line_def Let_def butlast_append)
qed

lemma load_key_line:
  assumes "wf_node (Config k v cs)" "k \<noteq> ''#''" "d \<le> li + 1"
  shows "load_line (node_line d (Config k v cs) @ [LF]) (root, cfg, li) =
     rbind (add_child (if d \<le> li then (butlast ^^ (li - d + 1)) cfg else cfg) k v root) (\<lambda>(root2, c). Inr (Some (root2, c, d)))"
proof -
  let ?r = "k @ '': '' @ v" let ?b = "replicate d TAB @ ?r"
  have ok: "plain k" "trim k = k" "\<forall>c\<in>set k. \<not> is_kv_seperator c" "k = [] \<or> hd k \<noteq> CHR ''#''" "plain v" "trim v = v"
    using assms(1,2) by (auto simp: key_ok_def)
  have l: "node_line d (Config k v cs) = ?b" using wf_is_comment [OF assms(1)] assms(2) by (simp add: node_line_def)
  have c: "c_chars (?b @ [LF]) = ?b @ [LF]" using ok by (intro c_chars_id) (auto simp: plain_def char_defs)
  have h: "\<not> isspace (hd ?r)" "hd ?r \<noteq> CHR ''#''" "hd ?r \<noteq> TAB"
    using trimmed_hd [OF ok(2)] ok(4) by (cases k; auto simp: isspace_def TAB_def)+
  then have t: "length (takeWhile (\<lambda>c. c = TAB) ?b) = d" by (intro tabs_take) simp
  have e: "\<not> is_empty_str ?b" by (auto simp: is_empty_str_def isspace_def dropWhile_eq_Nil_conv)
  have s: "is_kv_seperator (CHR '':'')" by (simp add: is_kv_seperator_def)
  have k: "takeWhile (\<lambda>c. \<not> is_kv_seperator c) ?r = k" "dropWhile (\<lambda>c. \<not> is_kv_seperator c) ?r = '': '' @ v"
    using takeWhile_append_stop [of k "\<lambda>c. \<not> is_kv_seperator c" "'': '' @ v"] dropWhile_append_stop [of k "\<lambda>c. \<not> is_kv_seperator c" "'': '' @ v"] ok(3) s by simp_all
  have "trim (CHR '' '' # v) = v" using ok(6) by (simp add: trim_def ltrim_def isspace_def)
  then show ?thesis unfolding l using c h t e k ok(2) assms(3) by (simp add: load_line_def Let_def butlast_append)
qed

text \<open>The current node has the depth that follows the last indentation, or is still the root.\<close>

definition at_indent :: "cptr \<Rightarrow> nat \<Rightarrow> bool" where
  "at_indent q li \<longleftrightarrow> length q = Suc li \<or> (q = [] \<and> li = 0)"

lemma pop_take: "(butlast ^^ n) q = take (length q - n) q"
  by (induction n) (simp_all add: butlast_take)

lemma parent_of_indent: "at_indent q li \<Longrightarrow> d \<le> li + 1 \<Longrightarrow> (if d \<le> li then (butlast ^^ (li - d + 1)) q else q) = take d q"
  unfolding pop_take by (auto simp: at_indent_def)

lemma load_forest:
  assumes "list_all wf_node cs" "comments_first cs" "conf_at p t = Some n" "length p = d" "take d q = p" "d \<le> length q" "at_indent q li"
    "cs \<noteq> [] \<and> is_comment (hd cs) \<Longrightarrow> q = p"
  shows "\<exists>q' li'. load_loop (map (\<lambda>l. l @ [LF]) (conf_lines d cs) @ rest) (t, q, li) = load_loop rest (upd_at p (push_children cs) t, q', li') \<and>
     take d q' = p \<and> d \<le> length q' \<and> at_indent q' li'"
  using assms
proof (induction d cs arbitrary: p t n q li rest rule: conf_lines.induct)
  case (1 d)
  then show ?case using upd_at_id [of p t] by (intro exI [of _ q] exI [of _ li]) (simp add: push_children_def)
next
  case (2 d k v cs r)
  have wf: "wf_node (Config k v cs)" "list_all wf_node r" using "2.prems"(1) by simp_all
  have cf: "comments_first r" using "2.prems"(2) by (simp add: comments_first_def)
  show ?case
  proof (cases "k = ''#''")
    case True
    then have "is_comment (Config k v cs)" "cs = []" "plain v" using wf(1) by (simp_all add: is_comment_def)
    then have q: "q = p" using "2.prems"(8) by simp
    let ?t = "upd_at p (push_children [Config k v []]) t"
    have "load_line (node_line d (Config k v cs) @ [LF]) (t, q, li) = Inr (Some (?t, q, li))"
      using load_comment_line [of v cs d t q li] wf(1) True add_childE [OF "2.prems"(3), of "''#''" v] q plain_c_chars [OF \<open>plain v\<close>] c_chars_hash by simp
    moreover note "2.IH"(2) [OF wf(2) cf node_upd_at [OF "2.prems"(3), of "push_children [Config k v []]"] "2.prems"(4-7) q, of rest]
    ultimately show ?thesis using \<open>cs = []\<close> by (simp add: upd_upd_at)
  next
    case False
    then have nc: "\<not> is_comment (Config k v cs)" using wf_is_comment [OF wf(1)] by simp
    have sub: "list_all wf_node cs" "comments_first cs" and pl: "plain k" "plain v" using wf(1) False by (simp_all add: key_ok_def)
    have r: "\<not> (r \<noteq> [] \<and> is_comment (hd r))" using nc "2.prems"(2) by (cases r) (simp_all add: comments_first_def)
    let ?t = "upd_at p (push_children [Config k v []]) t" and ?p = "p @ [length (cf_children n)]"
    have d: "d \<le> li + 1" using "2.prems"(6,7) by (auto simp: at_indent_def)
    have line: "load_line (node_line d (Config k v cs) @ [LF]) (t, q, li) = Inr (Some (?t, ?p, d))"
      using load_key_line [OF wf(1) False d] parent_of_indent [OF "2.prems"(7) d] "2.prems"(5) add_childE [OF "2.prems"(3), of k v] plain_c_chars [OF pl(1)] plain_c_chars [OF pl(2)] by simp
    have "conf_at ?p ?t = Some (Config k v [])" using node_upd_at [OF "2.prems"(3), of "push_children [Config k v []]"] by (simp add: node_at_append)
    from "2.IH"(1) [OF sub this, of ?p d "map (\<lambda>l. l @ [LF]) (conf_lines d r) @ rest"] obtain q1 li1 where
      1: "load_loop (map (\<lambda>l. l @ [LF]) (conf_lines (Suc d) cs) @ map (\<lambda>l. l @ [LF]) (conf_lines d r) @ rest) (?t, ?p, d) =
          load_loop (map (\<lambda>l. l @ [LF]) (conf_lines d r) @ rest) (upd_at ?p (push_children cs) ?t, q1, li1)"
        "take (Suc d) q1 = ?p" "Suc d \<le> length q1" "at_indent q1 li1" using "2.prems"(4) by (auto simp: at_indent_def)
    have q1: "take d q1 = p" using arg_cong [OF 1(2), of "take d"] "2.prems"(4) by (simp add: min_def)
    have "upd_at ?p (push_children cs) ?t = upd_at p (push_children [Config k v cs]) t" by (rule push_then_children [OF "2.prems"(3)])
    then show ?thesis
      using "2.IH"(2) [OF wf(2) cf node_upd_at [OF "2.prems"(3), of "push_children [Config k v cs]"] "2.prems"(4) q1 _ 1(4), of rest] 1(1,3) line r
      by (auto simp: upd_upd_at)
  qed
qed

lemma save_lines:
  "list_all wf_node cs \<Longrightarrow> cf_save d (Config k v cs) = concat (map (\<lambda>l. l @ [LF]) (conf_lines d cs))"
proof (induction d cs arbitrary: k v rule: conf_lines.induct)
  case (2 d k' v' cs r)
  have wf: "wf_node (Config k' v' cs)" using "2.prems" by simp
  then have "list_all wf_node cs" "plain v'" "plain k' \<or> k' = ''#''" by (auto simp: key_ok_def split: if_splits)
  then show ?case using "2.IH"(1) [of k' v'] "2.IH"(2) [of k v] "2.prems" wf_is_comment [OF wf] plain_c_chars
    by (auto simp: node_line_def)
qed simp

lemma node_line_plain: "wf_node c \<Longrightarrow> LF \<notin> set (node_line d c)"
  by (cases c) (auto simp: node_line_def plain_def key_ok_def char_defs is_comment_def split: if_splits)

lemma conf_lines_plain: "list_all wf_node cs \<Longrightarrow> l \<in> set (conf_lines d cs) \<Longrightarrow> LF \<notin> set l"
proof (induction d cs rule: conf_lines.induct)
  case (2 d k v cs r)
  then have "list_all wf_node cs" by (auto split: if_splits)
  then show ?case using 2 node_line_plain [of "Config k v cs" d] by auto
qed simp

lemma load_saved:
  assumes "config_ok t" "fits_lines t"
  shows "cf_load (Some (cf_save 0 t)) = Inr (Some t)"
proof -
  obtain cs where t: "t = Config ''root'' [] cs" using assms(1) by (cases t) (simp add: config_ok_def)
  have wf: "list_all wf_node cs" "comments_first cs" using assms(1) by (simp_all add: t config_ok_def)
  have "fgets_lines CONFIG_MAX_LINE (cf_save 0 t) = map (\<lambda>l. l @ [LF]) (conf_lines 0 cs)"
    using fgets_concat [of "conf_lines 0 cs" CONFIG_MAX_LINE] conf_lines_plain [OF wf(1)] assms(2)
    unfolding t save_lines [OF wf(1)] by (simp add: fits_lines_def CONFIG_MAX_LINE_def)
  then show ?thesis using load_forest [OF wf, of "[]" root_config root_config 0 "[]" 0 "[]"]
    by (auto simp: cf_load_def t at_indent_def root_config_def push_children_def)
qed

section \<open>What load returns\<close>

lemma wf_node_at: "wf_node t \<Longrightarrow> conf_at p t = Some n \<Longrightarrow> wf_node n"
proof (induction p arbitrary: t)
  case (Cons i p)
  obtain k v cs where t: "t = Config k v cs" by (cases t)
  then have "i < length cs" "conf_at p (cs ! i) = Some n" using Cons.prems(2) by (simp_all split: if_splits)
  moreover from this(1) have "wf_node (cs ! i)" using Cons.prems(1) by (auto simp: t list_all_length split: if_splits)
  ultimately show ?case using Cons.IH by blast
qed simp

text \<open>Changing the children of a node that is not a comment.\<close>

lemma wf_upd_at:
  assumes "wf_node t" "conf_at p t = Some n" "wf_node (f n)" "is_comment (f n) = is_comment n" "cf_key (f n) = cf_key n"
  shows "wf_node (upd_at p f t) \<and> is_comment (upd_at p f t) = is_comment t"
  using assms
proof (induction p arbitrary: t)
  case (Cons i p)
  obtain k v cs where t: "t = Config k v cs" by (cases t)
  have i: "i < length cs" "conf_at p (cs ! i) = Some n" using Cons.prems(2) by (simp_all add: t split: if_splits)
  then have wf: "k \<noteq> ''#''" "key_ok k" "plain v" "trim v = v" "comments_first cs" "list_all wf_node cs" using Cons.prems(1) by (auto simp: t split: if_splits)
  let ?x = "upd_at p f (cs ! i)"
  have x: "wf_node ?x" "is_comment ?x = is_comment (cs ! i)" using Cons.IH [OF _ i(2) Cons.prems(3-5)] wf(6) i(1) by (simp_all add: list_all_length)
  have "map is_comment (cs[i := ?x]) = map is_comment cs" using x(2) i(1) by (simp add: map_update list_update_same_conv)
  then have "comments_first (cs[i := ?x])" using wf(5) by (simp add: comments_first_def)
  moreover have "list_all wf_node (cs[i := ?x])" using wf(6) x(1) i(1) by (auto simp: list_all_iff dest: set_update_subset_insert [THEN subsetD])
  ultimately show ?case using i wf by (simp add: t is_comment_def)
qed simp

lemma conf_wf_push:
  assumes "wf_node n" "\<not> is_comment n" "wf_node c" "is_comment c \<longrightarrow> list_all is_comment (cf_children n)"
  shows "wf_node (push_children [c] n)" "is_comment (push_children [c] n) = is_comment n"
proof -
  obtain k v cs where n: "n = Config k v cs" by (cases n)
  have "comments_first (cs @ [c])" if "comments_first cs" using that assms(4) by (auto simp: comments_first_def sorted_wrt_append n list_all_iff)
  then show "wf_node (push_children [c] n)" using assms(1-3) by (auto simp: push_children_def n is_comment_def)
  show "is_comment (push_children [c] n) = is_comment n" by (simp add: is_comment_def)
qed

text \<open>The current node is a node whose children are comments only.\<close>

definition load_inv :: "config \<times> cptr \<times> nat \<Rightarrow> bool" where
  "load_inv st \<longleftrightarrow> (case st of (t, q, li) \<Rightarrow> config_ok t \<and> (\<exists>n. conf_at q t = Some n \<and> \<not> is_comment n \<and> list_all is_comment (cf_children n)))"

lemma not_comment_above:
  assumes "wf_node t" "conf_at (p @ i # r) t \<noteq> None" "conf_at p t = Some n"
  shows "\<not> is_comment n"
proof
  assume c: "is_comment n"
  obtain k v cs where n: "n = Config k v cs" by (cases n)
  have "wf_node n" by (rule wf_node_at [OF assms(1,3)])
  then have "cs = []" using c wf_is_comment [of k v cs] by (simp add: n split: if_splits)
  then show False using assms(2,3) by (simp add: node_at_append n)
qed

lemma node_above:
  assumes "load_inv (t, q, li)"
  shows "\<exists>n. conf_at (take d q) t = Some n \<and> \<not> is_comment n"
proof -
  obtain m where m: "conf_at q t = Some m" "\<not> is_comment m" and wf: "wf_node t" using assms by (auto simp: load_inv_def config_ok_def)
  obtain n where n: "conf_at (take d q) t = Some n" using node_at_take [of q t d] m(1) by auto
  show ?thesis
  proof (cases "drop d q")
    case Nil
    then show ?thesis using m by auto
  next
    case (Cons i r)
    then have "q = take d q @ i # r" by (metis append_take_drop_id)
    then have "conf_at (take d q @ i # r) t \<noteq> None" using m(1) by simp
    then show ?thesis using not_comment_above [OF wf _ n] n by blast
  qed
qed

lemma load_inv_push:
  assumes "load_inv (t, q, li)" "conf_at p t = Some n" "\<not> is_comment n" "wf_node c" "is_comment c \<longrightarrow> list_all is_comment (cf_children n)"
  shows "config_ok (upd_at p (push_children [c]) t)"
proof -
  have "config_ok t" using assms(1) by (simp add: load_inv_def)
  then have wf: "wf_node t" "cf_key t = ''root''" "cf_val t = []" by (simp_all add: config_ok_def)
  note push = conf_wf_push [OF wf_node_at [OF wf(1) assms(2)] assms(3-5)]
  have "wf_node (upd_at p (push_children [c]) t)" using wf_upd_at [OF wf(1) assms(2), of "push_children [c]"] push by simp
  moreover have "cf_key (upd_at p (push_children [c]) t) = cf_key t" "cf_val (upd_at p (push_children [c]) t) = cf_val t" by (cases p; simp)+
  ultimately show ?thesis using wf by (simp add: config_ok_def)
qed

lemma plain_c: "LF \<notin> set s \<Longrightarrow> plain (c_chars s)"
  by (auto simp: plain_def c_chars_def dest: set_takeWhileD)

lemma trim_plain: "plain s \<Longrightarrow> plain (trim s)"
  using trim_spec [of s] by (metis Un_iff plain_def set_append)

lemma trim_id:
  assumes "s = [] \<or> (\<not> isspace (hd s) \<and> \<not> isspace (last s))"
  shows "trim s = s"
proof -
  have d: "xs = [] \<or> \<not> isspace (hd xs) \<Longrightarrow> dropWhile isspace xs = xs" for xs by (cases xs) auto
  have "dropWhile isspace s = s" "dropWhile isspace (rev s) = rev s" using assms by (auto intro!: d simp: hd_rev)
  then show ?thesis by (simp add: trim_def ltrim_def rtrim_def)
qed

lemma trim_trim [simp]: "trim (trim s) = trim s"
  using trim_id [OF trim_ends] .

lemma trim_key_ok:
  assumes "plain key" "key \<noteq> []" "\<not> isspace (hd key)" "hd key \<noteq> CHR ''#''"
  shows "key_ok (trim (takeWhile (\<lambda>c. \<not> is_kv_seperator c) key))"
proof -
  let ?k = "takeWhile (\<lambda>c. \<not> is_kv_seperator c) key"
  have pl: "plain ?k" using assms(1) by (auto simp: plain_def dest: set_takeWhileD)
  have "?k = [] \<or> hd ?k = hd key" using assms(2) by (cases key) auto
  then have l: "ltrim ?k = ?k" using assms(3) by (cases ?k) (auto simp: ltrim_def)
  obtain t where t: "?k = trim ?k @ t" using rtrim_prefix [of ?k] l by (auto simp: trim_def)
  have "trim ?k = [] \<or> hd (trim ?k) = hd key" using t \<open>?k = [] \<or> hd ?k = hd key\<close> by (metis Nil_is_append_conv hd_append)
  moreover have "\<forall>c\<in>set (trim ?k). \<not> is_kv_seperator c"
  proof
    fix c assume "c \<in> set (trim ?k)"
    then have "c \<in> set ?k" using t by (metis Un_iff set_append)
    then show "\<not> is_kv_seperator c" by (auto dest: set_takeWhileD)
  qed
  ultimately show ?thesis using trim_plain [OF pl] assms(4) by (auto simp: key_ok_def)
qed

lemma wf_added: "key_ok k \<Longrightarrow> plain v \<Longrightarrow> trim v = v \<Longrightarrow> wf_node (Config k v []) \<and> \<not> is_comment (Config k v [])"
  by (auto simp: comments_first_def is_comment_def key_ok_def split: list.splits)

lemma butlast_c_chars: "set (butlast (c_chars l)) \<subseteq> set (butlast l)"
proof -
  have "butlast l = (if dropWhile (\<lambda>c. c \<noteq> CHR 0x00) l = [] then butlast (c_chars l) else c_chars l @ butlast (dropWhile (\<lambda>c. c \<noteq> CHR 0x00) l))"
    unfolding c_chars_def butlast_append [symmetric] by simp
  then show ?thesis using in_set_butlastD [of _ "c_chars l"] by (auto split: if_splits)
qed

text \<open>The steps of load that change the tree: a comment for the current node, or a new node above.\<close>

lemma load_line_cases:
  assumes "load_line line (t, q, li) = Inr (Some st')" "LF \<notin> set (butlast line)"
  obtains (skip) "st' = (t, q, li)"
  | (comment) v t' c where "plain v" "add_child q ''#'' v t = Inr (t', c)" "st' = (t', q, li)"
  | (node) m k v t' c i where "key_ok k" "plain v" "trim v = v" "add_child (take m q) k v t = Inr (t', c)" "st' = (t', c, i)"
proof -
  define buf where "buf = butlast (c_chars line)"
  define indent where "indent = length (takeWhile (\<lambda>c. c = TAB) buf)"
  define key where "key = drop indent buf"
  define val where "val = dropWhile (\<lambda>c. \<not> is_kv_seperator c) key"
  define cfg2 where "cfg2 = (if indent \<le> li then (butlast ^^ (li - indent + 1)) q else q)"
  have ln: "(if c_chars line = [] then Inl Out_of_bounds
      else if is_empty_str buf then Inr (Some (t, q, li))
      else if hd key = CHR ''#'' then rbind (add_child q ''#'' (tl key) t) (\<lambda>(root2, c). Inr (Some (root2, q, li)))
      else if li + 1 < indent then Inr None else if isspace (hd key) then Inr None else if val = [] then Inr None
      else rbind (add_child cfg2 (trim (takeWhile (\<lambda>c. \<not> is_kv_seperator c) key)) (trim (tl val)) t) (\<lambda>(root2, c). Inr (Some (root2, c, indent)))) = Inr (Some st')"
    using assms(1) unfolding load_line_def Let_def buf_def indent_def key_def val_def cfg2_def by simp
  have "LF \<notin> set buf" using assms(2) butlast_c_chars [of line] by (auto simp: buf_def)
  moreover have "CHR 0x00 \<notin> set buf" by (auto simp: buf_def c_chars_def dest!: in_set_butlastD set_takeWhileD)
  ultimately have pl: "plain key" by (auto simp: plain_def key_def dest: in_set_dropD)
  show thesis
  proof (cases "is_empty_str buf")
    case True
    then show thesis using ln skip by (auto split: if_splits)
  next
    case ne: False
    have key: "key \<noteq> []"
    proof
      assume "key = []"
      then have "takeWhile (\<lambda>c. c = TAB) buf = buf" using takeWhile_eq_take [of "\<lambda>c. c = TAB" buf] by (simp add: key_def indent_def)
      then have "\<forall>c\<in>set buf. c = TAB" by (simp only: takeWhile_eq_all_conv)
      moreover have "isspace TAB" by (simp add: isspace_def TAB_def)
      ultimately have "is_empty_str buf" unfolding is_empty_str_def dropWhile_eq_Nil_conv by auto
      then show False using ne by simp
    qed
    show thesis
    proof (cases "hd key = CHR ''#''")
      case True
      have p: "plain (tl key)" using pl key by (cases key) (auto simp: plain_def)
      obtain t' c where "add_child q ''#'' (tl key) t = Inr (t', c)" "st' = (t', q, li)" using ln ne True by (auto simp: rbind_eq_Inr split: if_splits)
      then show thesis by (rule comment [OF p])
    next
      case False
      have "set val \<subseteq> set key" using set_dropWhileD by (fastforce simp: val_def)
      moreover have "set (tl val) \<subseteq> set val" by (cases val) auto
      ultimately have "plain (tl val)" using pl by (auto simp: plain_def)
      then have v: "plain (trim (tl val))" by (rule trim_plain)
      obtain m where m: "cfg2 = take m q" using pop_take [of "li - indent + 1" q] by (cases "indent \<le> li") (auto simp: cfg2_def intro: that [of "length q"])
      obtain t' c where a: "add_child (take m q) (trim (takeWhile (\<lambda>c. \<not> is_kv_seperator c) key)) (trim (tl val)) t = Inr (t', c)" "st' = (t', c, indent)" "\<not> isspace (hd key)"
        using ln ne False by (auto simp: rbind_eq_Inr m split: if_splits)
      show thesis by (rule node [OF trim_key_ok [OF pl key a(3) False] v trim_trim a(1,2)])
    qed
  qed
qed

lemma load_line_inv:
  assumes "load_inv (t, q, li)" "LF \<notin> set (butlast line)" "load_line line (t, q, li) = Inr (Some st')"
  shows "load_inv st'"
proof (cases rule: load_line_cases [OF assms(3,2)])
  case 1
  then show ?thesis using assms(1) by simp
next
  case (2 v t' c)
  obtain n where n: "conf_at q t = Some n" "\<not> is_comment n" "list_all is_comment (cf_children n)" using assms(1) by (auto simp: load_inv_def)
  let ?c = "Config ''#'' v []"
  have c: "wf_node ?c" "is_comment ?c" using 2(1) by (simp_all add: is_comment_def)
  have t': "t' = upd_at q (push_children [?c]) t" using 2(2) add_childE [OF n(1)] plain_c_chars [OF 2(1)] c_chars_hash by simp
  have "config_ok t'" unfolding t' by (rule load_inv_push [OF assms(1) n(1,2) c(1)]) (use n(3) in simp)
  moreover have "conf_at q t' = Some (push_children [?c] n)" unfolding t' by (rule node_upd_at [OF n(1)])
  ultimately show ?thesis using 2(3) n c by (simp add: load_inv_def is_comment_def)
next
  case (3 m k v t' c i)
  obtain n where n: "conf_at (take m q) t = Some n" "\<not> is_comment n" using node_above [OF assms(1)] by blast
  let ?c = "Config k v []"
  have c: "wf_node ?c" "\<not> is_comment ?c" using wf_added [OF 3(1-3)] by simp_all
  have "plain k" using 3(1) by (simp add: key_ok_def)
  then have t': "t' = upd_at (take m q) (push_children [?c]) t" "c = take m q @ [length (cf_children n)]"
    using 3(4) add_childE [OF n(1)] plain_c_chars [of k] plain_c_chars [OF 3(2)] by simp_all
  have "config_ok t'" unfolding t' by (rule load_inv_push [OF assms(1) n(1,2) c(1)]) (use c(2) in simp)
  moreover have "conf_at c t' = Some ?c" using node_upd_at [OF n(1), of "push_children [?c]"] by (simp add: t' node_at_append)
  ultimately show ?thesis using 3(5) c(2) by (simp add: load_inv_def)
qed

lemma set_butlast_take: "set (butlast (take n s)) \<subseteq> set (take (n - 1) s)"
proof (cases "n \<le> length s")
  case False
  then show ?thesis using set_take_subset_set_take [of "length s - 1" "n - 1" s] by (simp add: butlast_conv_take)
qed (simp add: butlast_take)

lemma fgets_no_LF: "l \<in> set (fgets_lines sz s) \<Longrightarrow> LF \<notin> set (butlast l)"
proof (induction sz s rule: fgets_lines.induct)
  case (1 sz s)
  let ?n = "min (sz - 1) (Suc (length (takeWhile (\<lambda>c. c \<noteq> LF) s)))"
  have "l = take ?n s \<or> l \<in> set (fgets_lines sz (drop ?n s))" "\<not> (s = [] \<or> sz < 2)"
    using "1.prems" by (subst (asm) fgets_lines.simps; auto simp: Let_def split: if_splits)+
  moreover have "set (butlast (take ?n s)) \<subseteq> set (takeWhile (\<lambda>c. c \<noteq> LF) s)"
  proof -
    have "set (butlast (take ?n s)) \<subseteq> set (take (?n - 1) s)" by (rule set_butlast_take)
    also have "\<dots> \<subseteq> set (take (length (takeWhile (\<lambda>c. c \<noteq> LF) s)) s)" by (rule set_take_subset_set_take) simp
    also have "\<dots> = set (takeWhile (\<lambda>c. c \<noteq> LF) s)" by (metis takeWhile_eq_take)
    finally show ?thesis .
  qed
  ultimately show ?case using "1.IH" by (auto dest: set_takeWhileD)
qed

lemma load_loop_inv:
  "load_inv st \<Longrightarrow> \<forall>l\<in>set ls. LF \<notin> set (butlast l) \<Longrightarrow> load_loop ls st = Inr (Some t) \<Longrightarrow> config_ok t"
proof (induction ls arbitrary: st)
  case Nil
  then show ?case by (cases st) (simp add: load_inv_def)
next
  case (Cons l ls)
  obtain st2 where "load_line l st = Inr (Some st2)" "load_loop ls st2 = Inr (Some t)"
    using Cons.prems(3) by (auto simp: rbind_eq_Inr split: option.splits)
  then show ?case using Cons.IH [of st2] Cons.prems load_line_inv [of "fst st" "fst (snd st)" "snd (snd st)" l st2] by simp
qed

lemma loaded_ok:
  assumes "cf_load (Some s) = Inr (Some t)"
  shows "config_ok t"
proof -
  have "trim ''root'' = ''root''" by (rule trim_id) (simp add: isspace_def)
  then have "wf_node root_config"
    by (simp add: root_config_def key_ok_def plain_def LF_def is_kv_seperator_def comments_first_def trim_def ltrim_def rtrim_def)
  then have "load_inv (root_config, [], 0)" by (simp add: load_inv_def config_ok_def root_config_def is_comment_def)
  then show ?thesis using load_loop_inv [of "(root_config, [], 0)" "fgets_lines CONFIG_MAX_LINE s" t] assms fgets_no_LF by (auto simp: cf_load_def)
qed

section \<open>Setting and getting\<close>

text \<open>The effect of set on the tree, as a function of the fields of the path.\<close>

fun insert_path :: "string list \<Rightarrow> string \<Rightarrow> config \<Rightarrow> config" where
  "insert_path [] v n = set_val v n"
| "insert_path (f # fs) v n =
     (case find_child f n of
        Some i \<Rightarrow> Config (cf_key n) (cf_val n) ((cf_children n)[i := insert_path fs v (cf_children n ! i)])
      | None \<Rightarrow> push_children [insert_path fs v (Config f [] [])] n)"

lemma find_from_Some: "find_from key cs m = Some i \<Longrightarrow> i < m \<and> cf_key (cs ! i) = key"
  by (induction m) (auto split: if_splits simp: less_Suc_eq)

lemma find_from_cong: "(\<And>j. j < m \<Longrightarrow> cf_key (cs ! j) = cf_key (ds ! j)) \<Longrightarrow> find_from key cs m = find_from key ds m"
  by (induction m) auto

lemma find_child_Some: "find_child key n = Some i \<Longrightarrow> i < length (cf_children n) \<and> cf_key (cf_children n ! i) = key"
  by (simp add: find_child_def find_from_Some)

lemma insert_path_key [simp]: "cf_key (insert_path fs v n) = cf_key n"
  by (cases fs) (auto simp: set_val_def split: option.splits)

lemma insert_path_val: "fs \<noteq> [] \<Longrightarrow> cf_val (insert_path fs v n) = cf_val n"
  by (cases fs) (auto split: option.splits)

lemma find_child_update:
  assumes "cf_key x = cf_key (cs ! i)" "i < length cs"
  shows "find_child key (Config k v (cs[i := x])) = find_child key (Config k' v' cs)"
  using assms by (auto simp: find_child_def nth_list_update intro!: find_from_cong)

lemma find_child_push: "find_child key (push_children [x] n) = (if cf_key x = key then Some (length (cf_children n)) else find_child key n)"
  by (auto simp: find_child_def nth_append intro!: find_from_cong)

lemma fields_plain: "CHR 0x00 \<notin> set f \<Longrightarrow> CHR 0x00 \<notin> set s \<Longrightarrow> g \<in> set (key_fields f s) \<Longrightarrow> CHR 0x00 \<notin> set g"
  by (induction f s rule: key_fields.induct) (auto split: if_splits)

lemma key_path_plain: "g \<in> set (key_path key) \<Longrightarrow> c_chars g = g"
proof -
  assume g: "g \<in> set (key_path key)"
  have "CHR 0x00 \<notin> set (take (CONFIG_MAX_LINE - 1) (c_chars key))" by (auto simp: c_chars_def dest!: in_set_takeD set_takeWhileD)
  then have "CHR 0x00 \<notin> set g" using fields_plain [of "[]" "take (CONFIG_MAX_LINE - 1) (c_chars key)" g] g by (simp add: key_path_def)
  then show ?thesis by (intro c_chars_id) auto
qed

lemma build_path_insert:
  assumes "conf_at p t = Some n" "\<forall>f\<in>set fs. c_chars f = f"
  shows "\<exists>t2 c. build_path fs p t = Inr (t2, c) \<and> upd_at c (set_val v) t2 = upd_at p (insert_path fs v) t"
  using assms
proof (induction fs arbitrary: p t n)
  case Nil
  have "insert_path [] v = set_val v" by auto
  then show ?case by simp
next
  case (Cons f fs)
  show ?case
  proof (cases "find_child f n")
    case None
    let ?t = "upd_at p (push_children [Config f [] []]) t" and ?p = "p @ [length (cf_children n)]"
    have at: "conf_at p ?t = Some (push_children [Config f [] []] n)" by (rule node_upd_at [OF Cons.prems(1)])
    then have "conf_at ?p ?t = Some (Config f [] [])" by (simp add: node_at_append)
    from Cons.IH [OF this] obtain t2 c where c: "build_path fs ?p ?t = Inr (t2, c)" "upd_at c (set_val v) t2 = upd_at ?p (insert_path fs v) ?t"
      using Cons.prems(2) by auto
    have "upd_at [length (cf_children n)] (insert_path fs v) (push_children [Config f [] []] n) = insert_path (f # fs) v n"
      by (simp add: None push_children_def)
    then have "upd_at ?p (insert_path fs v) ?t = upd_at p (insert_path (f # fs) v) t" unfolding upd_at_append upd_upd_at by (intro upd_at_cong [OF Cons.prems(1)])
    moreover have "build_path (f # fs) p t = Inr (t2, c)" using c(1) None Cons.prems add_childE [OF Cons.prems(1), of f "[]"] c_chars_id [of "[]"] by simp
    ultimately show ?thesis using c(2) by (intro exI [of _ t2] exI [of _ c]) (simp only: simp_thms)
  next
    case (Some i)
    then have i: "i < length (cf_children n)" by (simp add: find_child_Some)
    then have "conf_at (p @ [i]) t = Some (cf_children n ! i)" using Cons.prems(1) by (simp add: node_at_append)
    from Cons.IH [OF this] obtain t2 c where c: "build_path fs (p @ [i]) t = Inr (t2, c)" "upd_at c (set_val v) t2 = upd_at (p @ [i]) (insert_path fs v) t"
      using Cons.prems(2) by auto
    have "upd_at (p @ [i]) (insert_path fs v) t = upd_at p (insert_path (f # fs) v) t"
      unfolding upd_at_append by (rule upd_at_cong [OF Cons.prems(1)]) (simp add: Some i)
    moreover have "build_path (f # fs) p t = Inr (t2, c)" using c(1) Some Cons.prems(1) by simp
    ultimately show ?thesis using c(2) by (intro exI [of _ t2] exI [of _ c]) (simp only: simp_thms)
  qed
qed

lemma set_insert: "\<exists>c. cf_set key v t = Inr (insert_path (key_path key) v t, c)"
  using build_path_insert [of "[]" t t "key_path key" v] key_path_plain by (auto simp: cf_set_def build_key_path_def)

lemma get_inserted: "\<exists>m. get_path fs (insert_path fs v n) = Some m \<and> cf_val m = c_chars v"
proof (induction fs arbitrary: n)
  case (Cons f fs)
  show ?case
  proof (cases "find_child f n")
    case None
    then show ?thesis using Cons.IH [of "Config f [] []"] by (auto simp: find_child_push)
  next
    case (Some i)
    then have i: "i < length (cf_children n)" by (simp add: find_child_Some)
    have "find_child f (insert_path (f # fs) v n) = Some i"
      using find_child_update [OF insert_path_key i, of f "cf_key n" "cf_val n" fs v "cf_key n" "cf_val n"] Some by (simp add: find_child_def)
    then show ?thesis using Cons.IH [of "cf_children n ! i"] i Some by (simp add: i)
  qed
qed (simp add: set_val_def)

text \<open>The value of a path, empty when there is no node: what get_str returns.\<close>

definition path_val :: "string list \<Rightarrow> config \<Rightarrow> string" where
  "path_val fs n = (case get_path fs n of None \<Rightarrow> [] | Some m \<Rightarrow> cf_val m)"

lemma path_val_leaf: "path_val gs (Config f [] []) = []"
  by (cases gs) (simp_all add: path_val_def find_child_def)

lemma other_paths: "gs \<noteq> fs \<Longrightarrow> path_val gs (insert_path fs v n) = path_val gs n"
proof (induction fs arbitrary: gs n)
  case Nil
  then obtain g gs' where gs: "gs = g # gs'" by (cases gs) auto
  have "find_child g (set_val v n) = find_child g n" "cf_children (set_val v n) = cf_children n" by (simp_all add: find_child_def set_val_def)
  then show ?case by (auto simp: path_val_def gs split: option.splits)
next
  case (Cons f fs)
  show ?case
  proof (cases gs)
    case Nil
    then show ?thesis by (auto simp: path_val_def split: option.splits)
  next
    case (Cons g gs')
    show ?thesis
    proof (cases "find_child f n")
      case None
      show ?thesis
      proof (cases "f = g")
        case True
        then have "gs' \<noteq> fs" using Cons \<open>gs \<noteq> f # fs\<close> by simp
        then have "path_val gs' (insert_path fs v (Config f [] [])) = []" using Cons.IH path_val_leaf by simp
        then show ?thesis using True None by (simp add: path_val_def Cons find_child_push)
      next
        case False
        show ?thesis
        proof (cases "find_child g n")
          case (Some j)
          then have "j < length (cf_children n)" by (simp add: find_child_Some)
          then show ?thesis using False Some None by (simp add: path_val_def Cons find_child_push nth_append)
        qed (use False None in \<open>simp add: path_val_def Cons find_child_push\<close>)
      qed
    next
      case (Some i)
      then have i: "i < length (cf_children n)" "cf_key (cf_children n ! i) = f" using find_child_Some by auto
      have fc: "find_child h (insert_path (f # fs) v n) = find_child h n" for h
        using find_child_update [OF insert_path_key i(1), of h "cf_key n" "cf_val n" fs v "cf_key n" "cf_val n"] Some by (simp add: find_child_def)
      show ?thesis
      proof (cases "find_child g n")
        case None
        then show ?thesis using fc [of g] by (simp add: path_val_def Cons)
      next
        case (Some j)
        then have j: "cf_key (cf_children n ! j) = g" using find_child_Some by auto
        have "path_val gs' (insert_path fs v (cf_children n ! i)) = path_val gs' (cf_children n ! i)" if "f = g"
          using that Cons \<open>gs \<noteq> f # fs\<close> Cons.IH by simp
        then show ?thesis using fc [of g] Some \<open>find_child f n = Some i\<close> i j
          by (cases "i = j") (auto simp: path_val_def Cons)
      qed
    qed
  qed
qed

section \<open>Settings\<close>

text \<open>A store of settings: a value is what was set last under the same name.\<close>

locale settings =
  fixes upd :: "'k \<Rightarrow> 'v \<Rightarrow> 's \<Rightarrow> 's" and look :: "'k \<Rightarrow> 's \<Rightarrow> 'v" and stored :: "'v \<Rightarrow> 'v" and name :: "'k \<Rightarrow> 'n"
  assumes look_upd: "name k = name k' \<Longrightarrow> look k' (upd k v s) = stored v"
    and look_other: "name k \<noteq> name k' \<Longrightarrow> look k' (upd k v s) = look k' s"
begin

lemma look_last:
  "look k (foldl (\<lambda>s (k, v). upd k v s) s kvs) =
     (case filter (\<lambda>kv. name (fst kv) = name k) kvs of [] \<Rightarrow> look k s | x # xs \<Rightarrow> stored (snd (last (x # xs))))"
proof (induction kvs rule: rev_induct)
  case (snoc kv kvs)
  obtain k' v where kv: "kv = (k', v)" by (cases kv)
  show ?case
  proof (cases "name k' = name k")
    case True
    then show ?thesis by (cases "filter (\<lambda>kv. name (fst kv) = name k) kvs") (simp_all add: kv look_upd)
  next
    case False
    then show ?thesis using snoc.IH by (simp add: kv look_other)
  qed
qed simp

end

definition set_tree :: "string \<Rightarrow> string \<Rightarrow> config \<Rightarrow> config" where
  "set_tree key v t = insert_path (key_path key) v t"

interpretation cfg: settings set_tree get_str c_chars key_path
proof
  have g: "get_str k t = path_val (key_path k) t" for k t by (simp add: get_str_def cf_get_def path_val_def)
  show "get_str k' (set_tree k v s) = c_chars v" if "key_path k = key_path k'" for k k' v s
    using get_inserted [of "key_path k" v s] that by (auto simp: get_str_def cf_get_def set_tree_def)
  show "get_str k' (set_tree k v s) = get_str k' s" if "key_path k \<noteq> key_path k'" for k k' v s
    using other_paths [of "key_path k'" "key_path k" v s] that by (simp add: g set_tree_def)
qed

text \<open>A sequence of calls of set.\<close>

fun set_all :: "(string \<times> string) list \<Rightarrow> config \<Rightarrow> config res" where
  "set_all [] t = Inr t"
| "set_all ((k, v) # kvs) t = rbind (cf_set k v t) (\<lambda>(t2, c). set_all kvs t2)"

lemma set_all_tree: "set_all kvs t = Inr (foldl (\<lambda>s (k, v). set_tree k v s) t kvs)"
proof (induction kvs arbitrary: t)
  case (Cons kv kvs)
  obtain k v where "kv = (k, v)" by (cases kv)
  then show ?case using Cons.IH set_insert [of k v t] by (auto simp: set_tree_def)
qed simp

text \<open>
  The last character of a line is cut off without a look at it, so the last line of a file that does
  not end in a newline loses one of its own.
\<close>

lemma unterminated_line: "cf_load (Some ''port: 8888'') = Inr (Some (Config ''root'' [] [Config ''port'' ''888'' []]))"
proof -
  have "fgets_lines CONFIG_MAX_LINE ''port: 8888'' = [''port: 8888'']" by (simp add: fgets_lines.simps CONFIG_MAX_LINE_def LF_def)
  moreover have "load_loop [''port: 8888''] (root_config, [], 0) = Inr (Some (Config ''root'' [] [Config ''port'' ''888'' []]))" by code_simp
  ultimately show ?thesis by (simp add: cf_load_def)
qed

section \<open>Properties\<close>

text \<open>C24: every tree that load returns is well formed: keys and values are trimmed and without newlines, keys contain no separator and do not start like a comment, comments have no children and precede the other children of their node, and the root is the node root.\<close>

theorem config_loaded_well_formed:
  assumes "cf_load (Some s) = Inr (Some t)"
  shows "config_ok t"
  using assms by (rule loaded_ok)

theorem config_loaded_well_formed_witness: "config_ok (Config ''root'' [] [Config ''port'' ''888'' []])"
  by (rule config_loaded_well_formed [OF unterminated_line])

text \<open>C23: a configuration that was loaded, saved and loaded again is the same tree, when the lines that save prints fit the buffer of load.\<close>

theorem config_reload:
  assumes "cf_load (Some s) = Inr (Some t)" "fits_lines t"
  shows "cf_load (Some (cf_save 0 t)) = Inr (Some t)"
  using load_saved [OF loaded_ok [OF assms(1)] assms(2)] .

theorem config_reload_witness:
  "cf_load (Some (cf_save 0 (Config ''root'' [] [Config ''port'' ''888'' []]))) = Inr (Some (Config ''root'' [] [Config ''port'' ''888'' []]))"
  by (rule config_reload [OF unterminated_line]) (simp add: fits_lines_def CONFIG_MAX_LINE_def node_line_def is_comment_def)

text \<open>After any sequence of calls of set, get_str returns for a key the value of the last call whose path was the same, and what it returned before when there was none; no call fails.\<close>

theorem config_set_get:
  "\<exists>t'. set_all kvs t = Inr t' \<and> (\<forall>key. get_str key t' =
     (case filter (\<lambda>kv. key_path (fst kv) = key_path key) kvs of [] \<Rightarrow> get_str key t | x # xs \<Rightarrow> c_chars (snd (last (x # xs)))))"
  using cfg.look_last by (simp add: set_all_tree)

end
