(* ===== verification/Resp.thy ===== *)
theory Resp
  imports Util_Strings
begin

text \<open>
  The replies of src/src/resp.cpp: class Response, a list of strings to which status, numbers and
  values are added. Numbers are printed into buffers of 20 characters; it is shown for which numbers
  the terminating zero still fits, and that a client reads back what was added.
\<close>

type_synonym response = "string list"

definition resp_size :: "response \<Rightarrow> int" where
  "resp_size r = to_int32 (int (length r))"

definition resp_push_back :: "string \<Rightarrow> response \<Rightarrow> response" where
  "resp_push_back s r = r @ [s]"

text \<open>sprintf into buf[20]: the text and its terminating zero.\<close>

definition sprintf20 :: "string \<Rightarrow> string res" where
  "sprintf20 s = (if length s + 1 \<le> 20 then Inr s else Inl Out_of_bounds)"

definition add_int64 :: "int \<Rightarrow> response \<Rightarrow> response res" where
  "add_int64 s r = rbind (sprintf20 (dec_int s)) (\<lambda>buf. Inr (r @ [buf]))"

definition add_int :: "int \<Rightarrow> response \<Rightarrow> response res" where
  "add_int s r = add_int64 s r"

definition add_uint64 :: "nat \<Rightarrow> response \<Rightarrow> response res" where
  "add_uint64 s r = rbind (sprintf20 (dec_nat s)) (\<lambda>buf. Inr (r @ [buf]))"

definition add_str :: "string \<Rightarrow> response \<Rightarrow> response" where
  "add_str s r = r @ [s]"

text \<open>errmsg is a null pointer or a string.\<close>

definition errmsg_list :: "string option \<Rightarrow> string list" where
  "errmsg_list m = (case m of None \<Rightarrow> [] | Some s \<Rightarrow> [s])"

definition reply_status :: "int \<Rightarrow> string option \<Rightarrow> response \<Rightarrow> response" where
  "reply_status status errmsg r = (if status = -1 then r @ [''error''] @ errmsg_list errmsg else r @ [''ok''])"

definition reply_bool :: "int \<Rightarrow> string option \<Rightarrow> response \<Rightarrow> response" where
  "reply_bool status errmsg r =
     (if status = -1 then r @ [''error''] @ errmsg_list errmsg
      else if status = 0 then r @ [''ok'', ''0''] else r @ [''ok'', ''1''])"

definition reply_int :: "int \<Rightarrow> int \<Rightarrow> response \<Rightarrow> response res" where
  "reply_int status val r = (if status = -1 then Inr (r @ [''error'']) else add_int64 val (r @ [''ok'']))"

definition reply_get :: "int \<Rightarrow> string option \<Rightarrow> string option \<Rightarrow> response \<Rightarrow> response" where
  "reply_get status val errmsg r =
     (if status = -1 then r @ [''error''] @ errmsg_list errmsg
      else if status = 0 then r @ [''not_found''] @ errmsg_list errmsg
      else r @ [''ok''] @ (case val of None \<Rightarrow> [] | Some v \<Rightarrow> [v]))"

definition reply_list :: "int \<Rightarrow> string list \<Rightarrow> response \<Rightarrow> response" where
  "reply_list status xs r = (if status = -1 then r @ [''error''] else r @ [''ok''] @ xs)"

section \<open>Lengths of numbers\<close>

lemma dec_nat_lower: "10 ^ k \<le> n \<Longrightarrow> k < length (dec_nat n)"
proof (induction k arbitrary: n)
  case (Suc k)
  have "(1::nat) \<le> 10 ^ k" by simp
  then have "\<not> n < 10" using mult_le_mono2 [of 1 "10 ^ k" 10] Suc.prems unfolding power_Suc by linarith
  moreover have "10 ^ k \<le> n div 10" using Suc.prems by (simp add: less_eq_div_iff_mult_less_eq mult.commute)
  ultimately show ?case using Suc.IH [of "n div 10"] by (subst dec_nat.simps) simp
qed (simp add: dec_nat.simps)

lemma length_dec_nat_le: "0 < k \<Longrightarrow> length (dec_nat n) \<le> k \<longleftrightarrow> n < 10 ^ k"
  using length_dec_nat [of n k] dec_nat_lower [of k n] by linarith

lemma sprintf20_int: "- (2 ^ 63) \<le> v \<Longrightarrow> v < 2 ^ 63 \<Longrightarrow> sprintf20 (dec_int v) = (if - (10 ^ 18) < v then Inr (dec_int v) else Inl Out_of_bounds)"
proof -
  assume v: "- (2 ^ 63) \<le> v" "v < 2 ^ 63"
  have "length (dec_int v) \<le> 19 \<longleftrightarrow> - (10 ^ 18) < v"
  proof (cases "v < 0")
    case True
    then have "length (dec_int v) \<le> 19 \<longleftrightarrow> length (dec_nat (nat (- v))) \<le> 18" by (simp add: dec_int_def)
    then show ?thesis using length_dec_nat_le [of 18 "nat (- v)"] True by (simp add: nat_less_iff) linarith
  next
    case False
    then have "nat v < 10 ^ 19" using v(2) by (simp add: nat_less_iff)
    then show ?thesis using length_dec_nat_le [of 19 "nat v"] False by (simp add: dec_int_def)
  qed
  then show ?thesis by (auto simp: sprintf20_def)
qed

section \<open>Properties\<close>

text \<open>The reply to a command that returns a number: with a status other than -1 the reply is ok and a text from which the number is read back with errno 0, unless the number is at most -10^18; then the text of 20 characters overflows the buffer of 20 bytes.\<close>

theorem reply_int_overflows_iff:
  assumes "- (2 ^ 63) \<le> val" "val < 2 ^ 63" "status \<noteq> -1"
  shows "reply_int status val r =
     (if - (10 ^ 18) < val then Inr (r @ [''ok'', dec_int val]) else Inl Out_of_bounds) \<and> str_to_int64 e (dec_int val) = (val, E_NONE)"
  using assms sprintf20_int [OF assms(1,2)] strtol_dec_int [of val "[]"]
  by (simp add: reply_int_def add_int64_def str_to_int64_def LONG_MIN_def LONG_MAX_def)

theorem reply_int_overflows_iff_witness:
  "reply_int 1 (-(10 ^ 18)) [] = Inl Out_of_bounds \<and> reply_int 1 (- 999999999999999999) [] = Inr [''ok'', dec_int (- 999999999999999999)]"
  using reply_int_overflows_iff [of "-(10 ^ 18)" 1 "[]" E_NONE] reply_int_overflows_iff [of "- 999999999999999999" 1 "[]" E_NONE] by simp

end
