(* ===== verification/Redis_Lock.thy ===== *)
theory Redis_Lock
  imports C_Lib
begin

text \<open>
  Locks in Redis, part one: what the code relies on of a Redis server, and the lock with a single
  server that the proxy takes around writes under active-active replication with strong consistency
  (src/src/redlock-cpp/redlock-cpp/ConLock.cpp). The server and the network are parameters. Two
  clients are shown never to hold the lock of a key at the same time while every holder releases it
  within the 500 ms it lasts; a holder that releases it later deletes the lock of another client.
\<close>

section \<open>A Redis server\<close>

text \<open>
  The commands used: get, set with the options px and nx, and del, on a state of the server at a
  time in milliseconds. A reply of set is its status text; a reply of del the number of keys.
\<close>

record 'r redis =
  rs_get :: "'r \<Rightarrow> int \<Rightarrow> string \<Rightarrow> string option"
  rs_set_nx :: "'r \<Rightarrow> int \<Rightarrow> string \<Rightarrow> string \<Rightarrow> int \<Rightarrow> 'r \<times> string option"
  rs_del :: "'r \<Rightarrow> int \<Rightarrow> string \<Rightarrow> 'r \<times> int"

text \<open>Their documented behaviour: keys only disappear by expiry, set with nx needs an absent key, del removes it.\<close>

definition redis_ok :: "('r, 'z) redis_scheme \<Rightarrow> bool" where
  "redis_ok R \<longleftrightarrow>
     (\<forall>r t t' k v. t \<le> t' \<longrightarrow> rs_get R r t' k = Some v \<longrightarrow> rs_get R r t k = Some v) \<and>
     (\<forall>r t k v ttl. rs_get R r t k \<noteq> None \<longrightarrow> snd (rs_set_nx R r t k v ttl) \<noteq> Some ''OK'' \<and>
        (\<forall>t'\<ge>t. rs_get R (fst (rs_set_nx R r t k v ttl)) t' = rs_get R r t')) \<and>
     (\<forall>r t k v ttl. rs_get R r t k = None \<longrightarrow> snd (rs_set_nx R r t k v ttl) = Some ''OK'' \<and>
        (\<forall>t'\<ge>t. rs_get R (fst (rs_set_nx R r t k v ttl)) t' = (rs_get R r t')(k := if t' < t + ttl then Some v else None))) \<and>
     (\<forall>r t k. snd (rs_del R r t k) = (if rs_get R r t k = None then 0 else 1) \<and>
        (\<forall>t'\<ge>t. rs_get R (fst (rs_del R r t k)) t' = (rs_get R r t')(k := None)))"

text \<open>What happens to a command on its way: redisCommand returns NULL unless the reply arrives.\<close>

datatype net = Answered | Not_delivered | Reply_lost

definition redisCommand :: "net \<Rightarrow> ('r \<Rightarrow> 'r \<times> 'a) \<Rightarrow> 'r \<Rightarrow> 'r \<times> 'a option" where
  "redisCommand n f r =
     (case n of
        Answered \<Rightarrow> (fst (f r), Some (snd (f r)))
      | Not_delivered \<Rightarrow> (r, None)
      | Reply_lost \<Rightarrow> (fst (f r), None))"

section \<open>ConLock\<close>

text \<open>The ttl that the caller passes is not used.\<close>

definition ConLock_lock :: "('r, 'z) redis_scheme \<Rightarrow> net \<Rightarrow> int \<Rightarrow> string \<Rightarrow> int \<Rightarrow> 'r \<Rightarrow> 'r \<times> bool" where
  "ConLock_lock R n t key ttl r =
     (case redisCommand n (\<lambda>r. rs_set_nx R r t key ''1'' 500) r of
        (r', reply) \<Rightarrow> (r', reply = Some (Some ''OK'')))"

definition ConLock_unlock :: "('r, 'z) redis_scheme \<Rightarrow> net \<Rightarrow> int \<Rightarrow> string \<Rightarrow> 'r \<Rightarrow> 'r \<times> bool" where
  "ConLock_unlock R n t key r =
     (case redisCommand n (\<lambda>r. rs_del R r t key) r of
        (r', reply) \<Rightarrow> (r', reply = Some 1))"

text \<open>
  Clients of one server. A client holds the lock of a key since the time its call of lock returned
  true; punctual restricts unlock to the 500 ms after that.
\<close>

record 'r con_world =
  cw_srv :: 'r
  cw_now :: int
  cw_held :: "nat \<Rightarrow> (string \<times> int) option"

inductive con_step :: "('r, 'z) redis_scheme \<Rightarrow> bool \<Rightarrow> 'r con_world \<Rightarrow> 'r con_world \<Rightarrow> bool" for R punctual where
  tick: "cw_now w \<le> t \<Longrightarrow> con_step R punctual w (w\<lparr>cw_now := t\<rparr>)"
| lock: "cw_held w c = None \<Longrightarrow> ConLock_lock R n (cw_now w) key ttl (cw_srv w) = (r', ok) \<Longrightarrow>
    con_step R punctual w (w\<lparr>cw_srv := r', cw_held := (cw_held w)(c := if ok then Some (key, cw_now w) else None)\<rparr>)"
| unlock: "cw_held w c = Some (key, s) \<Longrightarrow> (punctual \<longrightarrow> cw_now w < s + 500) \<Longrightarrow> ConLock_unlock R n (cw_now w) key (cw_srv w) = (r', ok) \<Longrightarrow>
    con_step R punctual w (w\<lparr>cw_srv := r', cw_held := (cw_held w)(c := None)\<rparr>)"

text \<open>The lock of a client that has not expired.\<close>

definition con_holds :: "'r con_world \<Rightarrow> nat \<Rightarrow> string \<Rightarrow> bool" where
  "con_holds w c key \<longleftrightarrow> (\<exists>s. cw_held w c = Some (key, s) \<and> cw_now w < s + 500)"

definition con_start :: "'r \<Rightarrow> 'r con_world" where
  "con_start r = \<lparr>cw_srv = r, cw_now = 0, cw_held = (\<lambda>_. None)\<rparr>"

section \<open>Server laws\<close>

lemma redis_expiry: "redis_ok R \<Longrightarrow> t \<le> t' \<Longrightarrow> rs_get R r t' k = Some v \<Longrightarrow> rs_get R r t k = Some v"
  by (simp add: redis_ok_def)

lemma redis_set_taken:
  "redis_ok R \<Longrightarrow> rs_get R r t k \<noteq> None \<Longrightarrow> snd (rs_set_nx R r t k v ttl) \<noteq> Some ''OK''"
  "redis_ok R \<Longrightarrow> rs_get R r t k \<noteq> None \<Longrightarrow> t \<le> t' \<Longrightarrow> rs_get R (fst (rs_set_nx R r t k v ttl)) t' = rs_get R r t'"
  unfolding redis_ok_def by blast+

lemma redis_set_free:
  "redis_ok R \<Longrightarrow> rs_get R r t k = None \<Longrightarrow> snd (rs_set_nx R r t k v ttl) = Some ''OK''"
  "redis_ok R \<Longrightarrow> rs_get R r t k = None \<Longrightarrow> t \<le> t' \<Longrightarrow>
     rs_get R (fst (rs_set_nx R r t k v ttl)) t' = (rs_get R r t')(k := if t' < t + ttl then Some v else None)"
  unfolding redis_ok_def by blast+

lemma redis_del_get:
  "redis_ok R \<Longrightarrow> t \<le> t' \<Longrightarrow> rs_get R (fst (rs_del R r t k)) t' = (rs_get R r t')(k := None)"
  "redis_ok R \<Longrightarrow> snd (rs_del R r t k) = (if rs_get R r t k = None then 0 else 1)"
  unfolding redis_ok_def by blast+

lemmas redis_laws = redis_set_taken redis_set_free redis_del_get

text \<open>What a command can do: nothing, or what the server does; a reply means the latter.\<close>

lemma redisCommandE:
  assumes "redisCommand n f r = (r', reply)"
  obtains "r' = r" "reply = None" | "r' = fst (f r)" "reply = None \<or> reply = Some (snd (f r))"
  using assms by (cases n) (auto simp: redisCommand_def)

text \<open>A key that is set stays set until it expires, whoever else tries to set it.\<close>

lemma set_nx_keeps:
  assumes "redis_ok R" "t \<le> t'" "rs_get R r t' k' = Some v'"
  shows "rs_get R (fst (rs_set_nx R r t k v ttl)) t' k' = Some v'"
proof (cases "rs_get R r t k")
  case None
  then have "k \<noteq> k'" using redis_expiry [OF assms] by auto
  then show ?thesis using redis_set_free(2) [OF assms(1) None assms(2)] assms(3) by simp
next
  case (Some x)
  then show ?thesis using redis_set_taken(2) [OF assms(1) _ assms(2), of r k] assms(3) by simp
qed

section \<open>Mutual exclusion\<close>

text \<open>Every unexpired lock is on the server until it expires, and no two clients have one for the same key.\<close>

definition con_inv :: "('r, 'z) redis_scheme \<Rightarrow> 'r con_world \<Rightarrow> bool" where
  "con_inv R w \<longleftrightarrow>
     (\<forall>c key s t. cw_held w c = Some (key, s) \<longrightarrow> cw_now w \<le> t \<longrightarrow> t < s + 500 \<longrightarrow> rs_get R (cw_srv w) t key \<noteq> None) \<and>
     (\<forall>c d key. con_holds w c key \<longrightarrow> con_holds w d key \<longrightarrow> c = d)"

lemma con_step_inv:
  assumes "redis_ok R" "con_step R True w w'" "con_inv R w"
  shows "con_inv R w'"
  using assms(2)
proof cases
  case (tick t)
  then show ?thesis using assms(3) by (fastforce simp: con_inv_def con_holds_def)
next
  case (lock c n key ttl r' ok)
  let ?set = "\<lambda>r. rs_set_nx R r (cw_now w) key ''1'' 500"
  obtain reply where rep: "redisCommand n ?set (cw_srv w) = (r', reply)" "ok \<longleftrightarrow> reply = Some (Some ''OK'')"
    using lock(3) by (cases "redisCommand n ?set (cw_srv w)") (auto simp: ConLock_lock_def)
  have keep: "rs_get R r' t k \<noteq> None" if "cw_now w \<le> t" "rs_get R (cw_srv w) t k \<noteq> None" for t k
    using rep(1) set_nx_keeps [OF assms(1) that(1), of "cw_srv w" k] that(2) by (auto elim!: redisCommandE)
  have set: "rs_get R (cw_srv w) (cw_now w) key = None \<and> (\<forall>t\<ge>cw_now w. t < cw_now w + 500 \<longrightarrow> rs_get R r' t key \<noteq> None)" if ok
  proof -
    have r: "r' = fst (?set (cw_srv w))" "snd (?set (cw_srv w)) = Some ''OK''" using rep that by (auto elim!: redisCommandE)
    then have "rs_get R (cw_srv w) (cw_now w) key = None" using redis_set_taken(1) [OF assms(1)] by blast
    then show ?thesis using redis_set_free(2) [OF assms(1)] r(1) by auto
  qed
  have live: "rs_get R (cw_srv w) (cw_now w) k \<noteq> None" if "con_holds w d k" for d k
    using that assms(3) unfolding con_inv_def con_holds_def by (meson order_refl)
  have "\<not> con_holds w d key" if ok for d using live set [OF that] by blast
  then show ?thesis using assms(3) keep set lock(1,2) unfolding con_inv_def con_holds_def
    by (auto split: if_splits)
next
  case (unlock c key s n r' ok)
  let ?del = "\<lambda>r. rs_del R r (cw_now w) key"
  obtain reply where rep: "redisCommand n ?del (cw_srv w) = (r', reply)"
    using unlock(4) by (cases "redisCommand n ?del (cw_srv w)") (auto simp: ConLock_unlock_def)
  have keep: "rs_get R r' t k \<noteq> None" if "cw_now w \<le> t" "rs_get R (cw_srv w) t k \<noteq> None" "k \<noteq> key" for t k
    using rep redis_del_get(1) [OF assms(1) that(1)] that(2,3) by (auto elim!: redisCommandE)
  have "con_holds w c key" using unlock(2,3) by (auto simp: con_holds_def)
  then have only: "d = c" if "con_holds w d key" for d using assms(3) that unfolding con_inv_def by blast
  have own: "cw_held w d \<noteq> Some (key, s')" if "d \<noteq> c" "cw_now w < s' + 500" for d s' using only [of d] that by (auto simp: con_holds_def)
  have "rs_get R r' t k \<noteq> None" if h: "d \<noteq> c" "cw_held w d = Some (k, s')" "cw_now w \<le> t" "t < s' + 500" for d k s' t
  proof -
    have "k \<noteq> key" using own [OF h(1)] h(2-4) by force
    moreover have "rs_get R (cw_srv w) t k \<noteq> None" using assms(3) h(2-4) unfolding con_inv_def by blast
    ultimately show ?thesis using keep h(3) by blast
  qed
  then show ?thesis using assms(3) unlock(1) unfolding con_inv_def con_holds_def by (auto split: if_splits)
qed

lemma con_run_inv: "(con_step R True)\<^sup>*\<^sup>* w w' \<Longrightarrow> redis_ok R \<Longrightarrow> con_inv R w \<Longrightarrow> con_inv R w'"
  by (induction rule: rtranclp_induct) (auto intro: con_step_inv)

lemma con_start_inv: "con_inv R (con_start r)"
  by (simp add: con_inv_def con_start_def con_holds_def)

section \<open>An instance\<close>

text \<open>A server as a map from keys to values with the time they expire.\<close>

type_synonym redis_map = "string \<Rightarrow> (string \<times> int) option"

definition map_get :: "redis_map \<Rightarrow> int \<Rightarrow> string \<Rightarrow> string option" where
  "map_get r t k = (case r k of None \<Rightarrow> None | Some (v, e) \<Rightarrow> if t < e then Some v else None)"

definition redis_map :: "redis_map redis" where
  "redis_map = \<lparr>rs_get = map_get,
     rs_set_nx = (\<lambda>r t k v ttl. if map_get r t k = None then (r(k \<mapsto> (v, t + ttl)), Some ''OK'') else (r, None)),
     rs_del = (\<lambda>r t k. (r(k := None), if map_get r t k = None then 0 else 1))\<rparr>"

lemma redis_map_ok: "redis_ok redis_map"
  by (auto simp: redis_ok_def redis_map_def map_get_def fun_eq_iff split: option.splits if_splits)

section \<open>Properties\<close>



text \<open>C35: a client that releases its lock after it has expired deletes the lock of the client that got it meanwhile, as every lock has the same value: a third client then gets the lock of the same key while the second still has it.\<close>

theorem conlock_late_unlock_steals:
  "\<exists>w. (con_step redis_map False)\<^sup>*\<^sup>* (con_start Map.empty) w \<and> con_holds w 1 ''k'' \<and> con_holds w 2 ''k''"
proof -
  let ?R = redis_map and ?s = "\<lambda>e::int. [''k'' \<mapsto> (''1'', e)]"
  define h0 h1 h2 h3 where "h0 = (\<lambda>_::nat. None)(0 := Some (''k'', 0::int))" and "h1 = h0(1 := Some (''k'', 500))" and "h2 = h1(0 := None)" and "h3 = h2(2 := Some (''k'', 501))"
  define w0 w1 w2 w3 w4 w5 where "w0 = \<lparr>cw_srv = ?s 500, cw_now = 0, cw_held = h0\<rparr>" and "w1 = w0\<lparr>cw_now := 500\<rparr>"
    and "w2 = w1\<lparr>cw_srv := ?s 1000, cw_held := h1\<rparr>" and "w3 = w2\<lparr>cw_now := 501\<rparr>" and "w4 = w3\<lparr>cw_srv := Map.empty, cw_held := h2\<rparr>" and "w5 = w4\<lparr>cw_srv := ?s 1001, cw_held := h3\<rparr>"
  note d = w0_def w1_def w2_def w3_def w4_def w5_def con_start_def ConLock_lock_def ConLock_unlock_def redisCommand_def redis_map_def map_get_def h0_def h1_def h2_def h3_def
  have 1: "con_step ?R False (con_start Map.empty) w0"
    using con_step.lock [of "con_start Map.empty" 0 ?R Answered "''k''" 50 "?s 500" True False] by (simp add: d)
  have 2: "con_step ?R False w0 w1" using con_step.tick [of w0 500 ?R False] by (simp add: d)
  have 3: "con_step ?R False w1 w2"
    using con_step.lock [of w1 1 ?R Answered "''k''" 50 "?s 1000" True False] by (simp add: d fun_eq_iff)
  have 4: "con_step ?R False w2 w3" using con_step.tick [of w2 501 ?R False] by (simp add: d)
  have 5: "con_step ?R False w3 w4"
    using con_step.unlock [of w3 0 "''k''" 0 False ?R Answered Map.empty True] by (simp add: d fun_eq_iff)
  have 6: "con_step ?R False w4 w5"
    using con_step.lock [of w4 2 ?R Answered "''k''" 50 "?s 1001" True False] by (simp add: d fun_eq_iff)
  have "(con_step ?R False)\<^sup>*\<^sup>* (con_start Map.empty) w5" by (rule rtranclp_trans [of _ _ w2]) (use 1 2 3 4 5 6 in \<open>blast intro: converse_rtranclp_into_rtranclp\<close>)+
  moreover have "con_holds w5 1 ''k''" "con_holds w5 2 ''k''" by (simp_all add: con_holds_def d)
  ultimately show ?thesis by blast
qed

end
