(* ===== verification/Redlock.thy ===== *)
theory Redlock
  imports C_Float Redis_Lock
begin

text \<open>
  Locks in Redis, part two: the lock over several servers, class CRedLock of
  src/src/redlock-cpp/redlock-cpp/redlock.cpp. A call of Lock, ContinueLock or Unlock is a machine
  that executes one command on one server per step, so that the calls of several clients interleave;
  the servers, the network, the clock and the identifiers are parameters. While the keys of a client
  last on a majority of the servers, no other client gets the lock. The validity that Lock reports
  is computed from a clock with a resolution of one second and can outlast these keys.
\<close>

section \<open>Scripts\<close>

definition unlock_script :: "('r, 'z) redis_scheme \<Rightarrow> int \<Rightarrow> string \<Rightarrow> string \<Rightarrow> 'r \<Rightarrow> 'r \<times> int" where
  "unlock_script R t key v r = (if rs_get R r t key = Some v then rs_del R r t key else (r, 0))"

definition continue_script :: "('r, 'z) redis_scheme \<Rightarrow> int \<Rightarrow> string \<Rightarrow> string \<Rightarrow> string \<Rightarrow> int \<Rightarrow> 'r \<Rightarrow> 'r \<times> string option" where
  "continue_script R t key old v ttl r =
     (let r1 = (if rs_get R r t key = Some old then fst (rs_del R r t key) else r) in rs_set_nx R r1 t key v ttl)"

definition LockInstance :: "('r, 'z) redis_scheme \<Rightarrow> net \<Rightarrow> int \<Rightarrow> string \<Rightarrow> string \<Rightarrow> int \<Rightarrow> 'r \<Rightarrow> 'r \<times> bool" where
  "LockInstance R n t resource v ttl c =
     (case redisCommand n (\<lambda>r. rs_set_nx R r t resource v ttl) c of (c', reply) \<Rightarrow> (c', reply = Some (Some ''OK'')))"

definition ContinueLockInstance :: "('r, 'z) redis_scheme \<Rightarrow> net \<Rightarrow> int \<Rightarrow> string \<Rightarrow> string \<Rightarrow> string \<Rightarrow> int \<Rightarrow> 'r \<Rightarrow> 'r \<times> bool" where
  "ContinueLockInstance R n t resource old v ttl c =
     (case redisCommand n (continue_script R t resource old v ttl) c of (c', reply) \<Rightarrow> (c', reply = Some (Some ''OK'')))"

definition UnlockInstance :: "('r, 'z) redis_scheme \<Rightarrow> net \<Rightarrow> int \<Rightarrow> string \<Rightarrow> string \<Rightarrow> 'r \<Rightarrow> 'r" where
  "UnlockInstance R n t resource v c = fst (redisCommand n (unlock_script R t resource v) c)"

text \<open>
  GetUniqueLockId prints the codes of the first 20 of the 36 characters of a generated UUID, which
  is a parameter. Calls below are given identifiers that were not used before.
\<close>

definition hex_upper :: "nat \<Rightarrow> char" where
  "hex_upper d = (if d < 10 then char_of (48 + d) else char_of (55 + d))"

definition GetUniqueLockId :: "string \<Rightarrow> string" where
  "GetUniqueLockId uuid = concat (map (\<lambda>c. [hex_upper (cval c div 16), hex_upper (cval c mod 16)]) (take 20 uuid))"

text \<open>UUIDs that differ only in their last 16 characters give the same identifier.\<close>

lemma lock_ids_collide: "take 20 u = take 20 v \<Longrightarrow> GetUniqueLockId u = GetUniqueLockId v"
  by (simp add: GetUniqueLockId_def)

section \<open>Times\<close>

text \<open>(int)time(NULL) * 1000 for a clock in milliseconds; the product wraps around.\<close>

definition clock_ms :: "int \<Rightarrow> int" where
  "clock_ms now = to_int32 (to_int32 (now div 1000) * 1000)"

text \<open>m_clockDriftFactor is the float nearest to 0.01; drift is computed in float and cut to an integer.\<close>

definition m_clockDriftFactor :: dbl where "m_clockDriftFactor = (10737418, -30)"

definition drift :: "int \<Rightarrow> int" where
  "drift ttl = ftrunc (fplus 24 (ftimes 24 (fround 24 (ttl, 0)) m_clockDriftFactor) (2, 0))"

definition validityTime :: "int \<Rightarrow> int \<Rightarrow> int \<Rightarrow> int" where
  "validityTime ttl startTime now = to_int32 (ttl - to_int32 (clock_ms now - startTime) - drift ttl)"

section \<open>The client\<close>

text \<open>
  Where a call stands: at server i of an attempt with n locks so far, releasing after a failed
  attempt, returned with the lock, in Unlock, or stopped by a division by zero.
\<close>

datatype lock_pc =
    Idle
  | Locking int nat int int
  | Unlocking int nat
  | Held int
  | Releasing nat
  | Crashed

text \<open>
  The fields of CRedLock, m_continueLock.m_val, the arguments and the identifier of the call, and
  the history variables cl_began and cl_got, the times at which the last attempt began and the call
  returned.
\<close>

record redlock =
  m_retryCount :: int
  m_retryDelay :: int
  m_quoRum :: int
  m_continue :: "string option"
  cl_cont :: bool
  cl_resource :: string
  cl_ttl :: int
  cl_val :: string
  cl_began :: int
  cl_got :: int
  cl_pc :: lock_pc

definition CRedLock_new :: "redlock \<Rightarrow> redlock" where
  "CRedLock_new junk = junk\<lparr>m_retryCount := 3, m_retryDelay := 200, m_quoRum := 0, m_continue := None, cl_pc := Idle\<rparr>"

text \<open>
  The vector m_redisServer stands beside the record, as the clients share what it points to. The
  connection is what redisConnectWithTimeout returns, None for NULL.
\<close>

definition AddServerUrl :: "'r option \<Rightarrow> redlock \<times> 'r list \<Rightarrow> redlock \<times> 'r list" where
  "AddServerUrl con st =
     (case st of (c, srv) \<Rightarrow>
      let srv' = (case con of None \<Rightarrow> srv | Some r \<Rightarrow> srv @ [r]) in (c\<lparr>m_quoRum := int (length srv') div 2 + 1\<rparr>, srv'))"

definition SetRetry :: "int \<Rightarrow> int \<Rightarrow> redlock \<Rightarrow> redlock" where
  "SetRetry count delay c = c\<lparr>m_retryCount := count, m_retryDelay := delay\<rparr>"

definition begin_attempt :: "int \<Rightarrow> int \<Rightarrow> redlock \<Rightarrow> redlock" where
  "begin_attempt now retry c = c\<lparr>cl_began := now, cl_pc := Locking retry 0 0 (clock_ms now)\<rparr>"

definition Lock :: "int \<Rightarrow> string \<Rightarrow> int \<Rightarrow> string \<Rightarrow> redlock \<Rightarrow> redlock" where
  "Lock now resource ttl v c =
     begin_attempt now (m_retryCount c) (c\<lparr>cl_cont := False, cl_resource := resource, cl_ttl := ttl, cl_val := v\<rparr>)"

definition ContinueLock :: "int \<Rightarrow> string \<Rightarrow> int \<Rightarrow> string \<Rightarrow> redlock \<Rightarrow> redlock" where
  "ContinueLock now resource ttl v c =
     begin_attempt now (m_retryCount c) (c\<lparr>cl_cont := True, cl_resource := resource, cl_ttl := ttl, cl_val := v,
       m_continue := (if m_continue c = None then Some v else m_continue c)\<rparr>)"

definition Unlock :: "redlock \<Rightarrow> redlock" where
  "Unlock c = c\<lparr>cl_pc := Releasing 0\<rparr>"

text \<open>The command of an attempt at one server.\<close>

definition acquire :: "('r, 'z) redis_scheme \<Rightarrow> net \<Rightarrow> int \<Rightarrow> redlock \<Rightarrow> 'r \<Rightarrow> 'r \<times> bool" where
  "acquire R n now c r =
     (if cl_cont c then ContinueLockInstance R n now (cl_resource c) (case m_continue c of None \<Rightarrow> [] | Some w \<Rightarrow> w) (cl_val c) (cl_ttl c) r
      else LockInstance R n now (cl_resource c) (cl_val c) (cl_ttl c) r)"

text \<open>
  One step of a call: a command, or what the code computes after the loop over the servers. The wait
  before the next attempt is time that passes between two steps; its length is computed modulo
  m_retryDelay, after the last attempt as well.
\<close>

definition redlock_step :: "('r, 'z) redis_scheme \<Rightarrow> net \<Rightarrow> int \<Rightarrow> redlock \<times> 'r list \<Rightarrow> redlock \<times> 'r list" where
  "redlock_step R net now st =
     (case st of (c, srv) \<Rightarrow>
      case cl_pc c of
        Idle \<Rightarrow> st
      | Held v \<Rightarrow> st
      | Crashed \<Rightarrow> st
      | Locking retry i n startTime \<Rightarrow>
          if i < length srv then
            (case acquire R net now c (srv ! i) of
               (r, ok) \<Rightarrow> (c\<lparr>cl_pc := Locking retry (Suc i) (if ok then n + 1 else n) startTime\<rparr>, srv[i := r]))
          else
            let c2 = (if cl_cont c then c\<lparr>m_continue := Some (cl_val c)\<rparr> else c); v = validityTime (cl_ttl c) startTime now
            in if n \<ge> m_quoRum c \<and> v > 0 then (c2\<lparr>cl_got := now, cl_pc := Held v\<rparr>, srv) else (c2\<lparr>cl_pc := Unlocking retry 0\<rparr>, srv)
      | Unlocking retry i \<Rightarrow>
          if i < length srv then (c\<lparr>cl_pc := Unlocking retry (Suc i)\<rparr>, srv[i := UnlockInstance R net now (cl_resource c) (cl_val c) (srv ! i)])
          else if m_retryDelay c = 0 then (c\<lparr>cl_pc := Crashed\<rparr>, srv)
          else if retry - 1 > 0 then (begin_attempt now (retry - 1) c, srv) else (c\<lparr>cl_pc := Idle\<rparr>, srv)
      | Releasing i \<Rightarrow>
          if i < length srv then (c\<lparr>cl_pc := Releasing (Suc i)\<rparr>, srv[i := UnlockInstance R net now (cl_resource c) (cl_val c) (srv ! i)])
          else (c\<lparr>cl_pc := Idle\<rparr>, srv))"

section \<open>Clients and servers together\<close>

text \<open>rw_owner records which client was given an identifier; GetUniqueLockId is assumed to return new ones.\<close>

record 'r red_world =
  rw_srv :: "'r list"
  rw_now :: int
  rw_cl :: "nat \<Rightarrow> redlock"
  rw_owner :: "string \<Rightarrow> nat option"

definition at_rest :: "redlock \<Rightarrow> bool" where
  "at_rest c \<longleftrightarrow> (case cl_pc c of Idle \<Rightarrow> True | Held v \<Rightarrow> True | _ \<Rightarrow> False)"

inductive red_step :: "('r, 'z) redis_scheme \<Rightarrow> 'r red_world \<Rightarrow> 'r red_world \<Rightarrow> bool" for R where
  tick: "rw_now w \<le> t \<Longrightarrow> red_step R w (w\<lparr>rw_now := t\<rparr>)"
| call: "at_rest (rw_cl w c) \<Longrightarrow> rw_owner w v = None \<Longrightarrow> cl = Lock (rw_now w) key ttl v (rw_cl w c) \<or> cl = ContinueLock (rw_now w) key ttl v (rw_cl w c) \<Longrightarrow>
    red_step R w (w\<lparr>rw_cl := (rw_cl w)(c := cl), rw_owner := (rw_owner w)(v \<mapsto> c)\<rparr>)"
| release: "cl_pc (rw_cl w c) = Held v \<Longrightarrow> red_step R w (w\<lparr>rw_cl := (rw_cl w)(c := Unlock (rw_cl w c))\<rparr>)"
| run: "redlock_step R n (rw_now w) (rw_cl w c, rw_srv w) = (cl, srv) \<Longrightarrow> red_step R w (w\<lparr>rw_cl := (rw_cl w)(c := cl), rw_srv := srv\<rparr>)"

text \<open>Every client adds the same servers.\<close>

definition connect_all :: "redlock \<Rightarrow> 'r list \<Rightarrow> redlock \<times> 'r list" where
  "connect_all junk srv = foldl (\<lambda>st r. AddServerUrl (Some r) st) (CRedLock_new junk, []) srv"

definition red_start :: "redlock \<Rightarrow> 'r list \<Rightarrow> 'r red_world" where
  "red_start junk srv = \<lparr>rw_srv = srv, rw_now = 0, rw_cl = (\<lambda>_. fst (connect_all junk srv)), rw_owner = (\<lambda>_. None)\<rparr>"

text \<open>The client has the lock and its keys have not expired.\<close>

definition red_holds :: "'r red_world \<Rightarrow> nat \<Rightarrow> string \<Rightarrow> bool" where
  "red_holds w c key \<longleftrightarrow> (case cl_pc (rw_cl w c) of Held v \<Rightarrow> True | _ \<Rightarrow> False) \<and> cl_resource (rw_cl w c) = key \<and> rw_now w < cl_began (rw_cl w c) + cl_ttl (rw_cl w c)"

text \<open>The client has the lock and the validity it was told has not passed.\<close>

definition red_valid :: "'r red_world \<Rightarrow> nat \<Rightarrow> string \<Rightarrow> bool" where
  "red_valid w c key \<longleftrightarrow> (case cl_pc (rw_cl w c) of Held v \<Rightarrow> rw_now w < cl_got (rw_cl w c) + v | _ \<Rightarrow> False) \<and> cl_resource (rw_cl w c) = key"

section \<open>Majorities\<close>

locale quorum_system =
  fixes quorum :: "nat set \<Rightarrow> bool"
  assumes meet: "quorum A \<Longrightarrow> quorum B \<Longrightarrow> A \<inter> B \<noteq> {}"
begin

text \<open>What two quorums agree on server by server, they agree on.\<close>

lemma agree: "quorum A \<Longrightarrow> quorum B \<Longrightarrow> (\<And>i. i \<in> A \<Longrightarrow> f i = Some x) \<Longrightarrow> (\<And>i. i \<in> B \<Longrightarrow> f i = Some y) \<Longrightarrow> x = y"
  using meet [of A B] by fastforce

end

definition majority :: "nat \<Rightarrow> nat set \<Rightarrow> bool" where
  "majority n Q \<longleftrightarrow> Q \<subseteq> {..<n} \<and> int (card Q) \<ge> int n div 2 + 1"

interpretation maj: quorum_system "majority n" for n
proof
  fix A B assume q: "majority n A" "majority n B"
  show "A \<inter> B \<noteq> {}"
  proof
    assume "A \<inter> B = {}"
    moreover have "finite A" "finite B" using q by (auto simp: majority_def intro: finite_subset)
    ultimately have "card A + card B = card (A \<union> B)" by (simp add: card_Un_disjoint)
    also have "\<dots> \<le> card {..<n}" using q by (intro card_mono) (auto simp: majority_def)
    finally have "int (card A) + int (card B) \<le> int n" by simp
    moreover have "int n \<le> 2 * (int n div 2) + 1" by presburger
    ultimately show False using q unfolding majority_def by linarith
  qed
qed

section \<open>Commands and other keys\<close>

lemma unlock_script_keeps:
  assumes "redis_ok R" "now \<le> t" "rs_get R r t k = Some a" "a \<noteq> v"
  shows "rs_get R (fst (unlock_script R now key v r)) t k = Some a"
proof (cases "rs_get R r now key = Some v")
  case True
  then have "k \<noteq> key" using redis_expiry [OF assms(1-3)] assms(4) by auto
  then show ?thesis using True assms(3) redis_del_get(1) [OF assms(1,2)] by (simp add: unlock_script_def)
qed (simp add: unlock_script_def assms(3))

lemma UnlockInstance_keeps:
  assumes "redis_ok R" "now \<le> t" "rs_get R r t k = Some a" "a \<noteq> v"
  shows "rs_get R (UnlockInstance R n now key v r) t k = Some a"
  using unlock_script_keeps [OF assms] assms(3) by (cases n) (simp_all add: UnlockInstance_def redisCommand_def)

text \<open>The command of ContinueLock is a set after the key with the old identifier was removed.\<close>

lemma continue_script_keeps:
  assumes "redis_ok R" "now \<le> t" "rs_get R r t k = Some a" "a \<noteq> old"
  shows "rs_get R (fst (continue_script R now key old v ttl r)) t k = Some a"
proof -
  have "continue_script R now key old v ttl r = rs_set_nx R (fst (unlock_script R now key old r)) now key v ttl"
    by (simp add: continue_script_def unlock_script_def)
  then show ?thesis using set_nx_keeps [OF assms(1,2) unlock_script_keeps [OF assms]] by simp
qed

definition old_val :: "redlock \<Rightarrow> string" where
  "old_val c = (case m_continue c of None \<Rightarrow> [] | Some w \<Rightarrow> w)"

lemma acquire_keeps:
  assumes "redis_ok R" "now \<le> t" "rs_get R r t k = Some a" "cl_cont c \<longrightarrow> a \<noteq> old_val c" "acquire R n now c r = (r', ok)"
  shows "rs_get R r' t k = Some a"
proof -
  have "rs_get R (fst (if cl_cont c then continue_script R now (cl_resource c) (old_val c) (cl_val c) (cl_ttl c) r
      else rs_set_nx R r now (cl_resource c) (cl_val c) (cl_ttl c))) t k = Some a"
    using continue_script_keeps [OF assms(1-3), of "old_val c"] set_nx_keeps [OF assms(1-3)] assms(4) by simp
  then show ?thesis using assms(3,5)
    by (cases n) (auto simp: acquire_def LockInstance_def ContinueLockInstance_def redisCommand_def old_val_def split: if_splits)
qed

lemma set_nx_sets:
  assumes "redis_ok R" "snd (rs_set_nx R r now key v ttl) = Some ''OK''" "now \<le> t" "t < now + ttl"
  shows "rs_get R (fst (rs_set_nx R r now key v ttl)) t key = Some v"
proof -
  have "rs_get R r now key = None" using redis_set_taken(1) [OF assms(1)] assms(2) by blast
  then show ?thesis using redis_set_free(2) [OF assms(1) _ assms(3)] assms(4) by simp
qed

lemma acquire_sets:
  assumes "redis_ok R" "acquire R n now c r = (r', True)" "now \<le> t" "t < now + cl_ttl c"
  shows "rs_get R r' t (cl_resource c) = Some (cl_val c)"
  using assms(2) set_nx_sets [OF assms(1) _ assms(3,4)]
  by (cases n) (auto simp: acquire_def LockInstance_def ContinueLockInstance_def redisCommand_def continue_script_def Let_def split: if_splits)

section \<open>Invariant\<close>

definition leased :: "('r, 'z) redis_scheme \<Rightarrow> int \<Rightarrow> redlock \<Rightarrow> 'r \<Rightarrow> bool" where
  "leased R now c r \<longleftrightarrow> (\<forall>t\<ge>now. t < cl_began c + cl_ttl c \<longrightarrow> rs_get R r t (cl_resource c) = Some (cl_val c))"

definition client_ok :: "('r, 'z) redis_scheme \<Rightarrow> 'r list \<Rightarrow> int \<Rightarrow> (string \<Rightarrow> nat option) \<Rightarrow> nat \<Rightarrow> redlock \<Rightarrow> bool" where
  "client_ok R srv now own i c \<longleftrightarrow>
     m_quoRum c = int (length srv) div 2 + 1 \<and> (\<forall>x. m_continue c = Some x \<longrightarrow> own x = Some i) \<and>
     (case cl_pc c of
        Idle \<Rightarrow> True
      | Locking r k n st \<Rightarrow> own (cl_val c) = Some i \<and> (cl_cont c \<longrightarrow> m_continue c \<noteq> None) \<and> cl_began c \<le> now \<and> st = clock_ms (cl_began c) \<and> k \<le> length srv \<and>
          (\<exists>Q\<subseteq>{..<k}. int (card Q) = n \<and> (\<forall>j\<in>Q. leased R now c (srv ! j)))
      | Unlocking r k \<Rightarrow> own (cl_val c) = Some i \<and> (cl_cont c \<longrightarrow> m_continue c \<noteq> None)
      | Held v \<Rightarrow> own (cl_val c) = Some i \<and> cl_began c \<le> cl_got c \<and> cl_got c \<le> now \<and> v = validityTime (cl_ttl c) (clock_ms (cl_began c)) (cl_got c) \<and>
          (\<exists>Q. majority (length srv) Q \<and> (\<forall>j\<in>Q. leased R now c (srv ! j)))
      | Releasing k \<Rightarrow> own (cl_val c) = Some i
      | Crashed \<Rightarrow> True)"

definition red_inv :: "('r, 'z) redis_scheme \<Rightarrow> 'r red_world \<Rightarrow> bool" where
  "red_inv R w \<longleftrightarrow> (\<forall>i. client_ok R (rw_srv w) (rw_now w) (rw_owner w) i (rw_cl w i))"

lemma leased_later: "leased R now c r \<Longrightarrow> now \<le> t \<Longrightarrow> leased R t c r"
  by (auto simp: leased_def)

lemma client_ok_leases:
  assumes "client_ok R srv now own i c" "length srv' = length srv" "now \<le> now'"
    "\<And>j. own (cl_val c) = Some i \<Longrightarrow> leased R now c (srv ! j) \<Longrightarrow> leased R now' c (srv' ! j)"
  shows "client_ok R srv' now' own i c"
proof (cases "cl_pc c")
  case (Locking r k n st)
  then obtain Q where Q: "Q \<subseteq> {..<k}" "int (card Q) = n" "\<forall>j\<in>Q. leased R now c (srv ! j)" and o: "own (cl_val c) = Some i"
    using assms(1) by (auto simp: client_ok_def)
  then have "\<forall>j\<in>Q. leased R now' c (srv' ! j)" using assms(4) by blast
  then show ?thesis using Q Locking assms(1-3) by (auto simp: client_ok_def)
next
  case (Held v)
  then obtain Q where Q: "majority (length srv) Q" "\<forall>j\<in>Q. leased R now c (srv ! j)" and o: "own (cl_val c) = Some i"
    using assms(1) by (auto simp: client_ok_def)
  then have "\<forall>j\<in>Q. leased R now' c (srv' ! j)" using assms(4) by blast
  then show ?thesis using Q Held assms(1-3) by (auto simp: client_ok_def)
qed (use assms in \<open>auto simp: client_ok_def\<close>)

lemma client_ok_later: "client_ok R srv now own i c \<Longrightarrow> now \<le> t \<Longrightarrow> client_ok R srv t own i c"
  by (erule client_ok_leases) (auto intro: leased_later)

text \<open>A command of one client at one server keeps what the others have there.\<close>

lemma client_ok_other:
  assumes "client_ok R srv now own d c" "k < length srv"
    "\<And>t x a. now \<le> t \<Longrightarrow> rs_get R (srv ! k) t x = Some a \<Longrightarrow> own a = Some d \<Longrightarrow> rs_get R r t x = Some a"
  shows "client_ok R (srv[k := r]) now own d c"
proof (rule client_ok_leases [OF assms(1)])
  show "leased R now c (srv[k := r] ! j)" if "own (cl_val c) = Some d" "leased R now c (srv ! j)" for j
    using that assms(2,3) by (cases "j = k") (auto simp: leased_def)
qed simp_all

text \<open>A new identifier has no effect on the clients that have others.\<close>

lemma client_ok_fresh: "client_ok R srv now own d c \<Longrightarrow> own v = None \<Longrightarrow> client_ok R srv now (own(v \<mapsto> i)) d c"
  by (auto simp: client_ok_def split: lock_pc.splits)

text \<open>The step of a call: what the client itself has, and what it keeps of the others.\<close>

lemma redlock_step_self:
  assumes "redis_ok R" "client_ok R srv now own i c" "redlock_step R n now (c, srv) = (c', srv')"
  shows "client_ok R srv' now own i c'"
proof (cases "cl_pc c")
  case (Locking r k m st)
  obtain Q where Q: "Q \<subseteq> {..<k}" "int (card Q) = m" "\<forall>j\<in>Q. leased R now c (srv ! j)" and o: "own (cl_val c) = Some i" "k \<le> length srv"
    "cl_began c \<le> now" "st = clock_ms (cl_began c)" "cl_cont c \<longrightarrow> m_continue c \<noteq> None" "m_quoRum c = int (length srv) div 2 + 1" "\<forall>x. m_continue c = Some x \<longrightarrow> own x = Some i"
    using assms(2) Locking by (auto simp: client_ok_def)
  show ?thesis
  proof (cases "k < length srv")
    case True
    obtain r1 ok where a: "acquire R n now c (srv ! k) = (r1, ok)" by (cases "acquire R n now c (srv ! k)")
    define Q' where "Q' = (if ok then insert k Q else Q)"
    have c': "c' = c\<lparr>cl_pc := Locking r (Suc k) (if ok then m + 1 else m) st\<rparr>" "srv' = srv[k := r1]" using assms(3) Locking True a by (auto simp: redlock_step_def)
    have "finite Q" "k \<notin> Q" using Q(1) by (auto intro: finite_subset)
    then have "int (card Q') = (if ok then m + 1 else m)" "Q' \<subseteq> {..<Suc k}" using Q(1,2) by (auto simp: Q'_def)
    moreover have "leased R now c' (srv' ! j)" if "j \<in> Q'" for j
    proof (cases "j = k")
      case True
      then have "ok" using that \<open>k \<notin> Q\<close> by (auto simp: Q'_def split: if_splits)
      then show ?thesis using acquire_sets [OF assms(1), of n now c "srv ! k" r1] a o(3) True \<open>k < length srv\<close> by (auto simp: leased_def c')
    next
      case False
      then show ?thesis using that Q(3) by (auto simp: leased_def c' Q'_def split: if_splits)
    qed
    ultimately show ?thesis using o True unfolding client_ok_def by (auto simp: c')
  next
    case False
    then have k: "k = length srv" using o(2) by simp
    show ?thesis
    proof (cases "m \<ge> m_quoRum c \<and> validityTime (cl_ttl c) st now > 0")
      case True
      then have "majority (length srv) Q" using Q(1,2) o(6) k by (simp add: majority_def)
      then show ?thesis using assms(3) Locking False True Q(3) o by (auto simp: redlock_step_def Let_def client_ok_def leased_def split: if_splits)
    next
      case f: False
      then show ?thesis using assms(3) Locking False o by (auto simp: redlock_step_def Let_def client_ok_def split: if_splits)
    qed
  qed
next
  case (Unlocking r k)
  then show ?thesis using assms(2,3) by (auto simp: redlock_step_def client_ok_def begin_attempt_def split: if_splits intro!: exI [of _ "{}"])
next
  case (Releasing k)
  then show ?thesis using assms(2,3) by (auto simp: redlock_step_def client_ok_def split: if_splits)
qed (use assms in \<open>auto simp: redlock_step_def\<close>)

lemma redlock_step_other:
  assumes "redis_ok R" "client_ok R srv now own i c" "client_ok R srv now own d cd" "i \<noteq> d" "redlock_step R n now (c, srv) = (c', srv')"
  shows "client_ok R srv' now own d cd"
proof -
  have mine: "own (cl_val c) = Some i" if "cl_pc c \<noteq> Idle" "cl_pc c \<noteq> Crashed" using assms(2) that by (auto simp: client_ok_def split: lock_pc.splits)
  have old: "own (old_val c) = Some i" if "cl_cont c" "m_continue c \<noteq> None" using assms(2) that by (auto simp: client_ok_def old_val_def)
  have unl: "client_ok R (srv[k := UnlockInstance R n now key (cl_val c) (srv ! k)]) now own d cd" if "cl_pc c \<noteq> Idle" "cl_pc c \<noteq> Crashed" "k < length srv" for k key
    by (rule client_ok_other [OF assms(3) that(3)]) (rule UnlockInstance_keeps [OF assms(1)], use mine [OF that(1,2)] assms(4) in auto)
  have acq: "client_ok R (srv[k := r']) now own d cd" if "k < length srv" "acquire R n now c (srv ! k) = (r', ok)" "cl_cont c \<longrightarrow> m_continue c \<noteq> None" for k r' ok
    by (rule client_ok_other [OF assms(3) that(1)]) (rule acquire_keeps [OF assms(1) _ _ _ that(2)], use old that(3) assms(4) in auto)
  show ?thesis
  proof (cases "cl_pc c")
    case (Locking r k m st)
    then have "cl_cont c \<longrightarrow> m_continue c \<noteq> None" using assms(2) by (simp add: client_ok_def)
    then show ?thesis using assms(3,5) Locking acq by (auto simp: redlock_step_def Let_def split: if_splits prod.splits)
  next
    case (Unlocking r k)
    then show ?thesis using assms(3,5) unl by (auto simp: redlock_step_def split: if_splits)
  next
    case (Releasing k)
    then show ?thesis using assms(3,5) unl by (auto simp: redlock_step_def split: if_splits)
  qed (use assms in \<open>auto simp: redlock_step_def\<close>)
qed

lemma red_step_inv:
  assumes "redis_ok R" "red_step R w w'" "red_inv R w"
  shows "red_inv R w'"
proof -
  have ok: "client_ok R (rw_srv w) (rw_now w) (rw_owner w) j (rw_cl w j)" for j using assms(3) by (simp add: red_inv_def)
  show ?thesis using assms(2)
  proof cases
    case (tick t)
    then show ?thesis using client_ok_later [OF ok tick(2)] by (simp add: red_inv_def)
  next
    case (call i v cl key ttl)
    have "client_ok R (rw_srv w) (rw_now w) ((rw_owner w)(v \<mapsto> i)) i cl"
      using ok [of i] call(3,4) by (auto simp: client_ok_def Lock_def ContinueLock_def begin_attempt_def split: if_splits intro!: exI [of _ "{}"])
    then show ?thesis using client_ok_fresh [OF ok call(3)] by (simp add: red_inv_def call(1))
  next
    case (release i v)
    have "client_ok R (rw_srv w) (rw_now w) (rw_owner w) i (Unlock (rw_cl w i))" using ok [of i] release(2) by (simp add: client_ok_def Unlock_def)
    then show ?thesis using ok by (simp add: red_inv_def release(1))
  next
    case (run n i cl srv)
    have "client_ok R srv (rw_now w) (rw_owner w) j (if j = i then cl else rw_cl w j)" for j
      using redlock_step_self [OF assms(1) ok run(2)] redlock_step_other [OF assms(1) ok ok _ run(2), of j] by simp
    then show ?thesis by (simp add: red_inv_def run(1))
  qed
qed

lemma red_run_inv: "(red_step R)\<^sup>*\<^sup>* w w' \<Longrightarrow> redis_ok R \<Longrightarrow> red_inv R w \<Longrightarrow> red_inv R w'"
  by (induction rule: rtranclp_induct) (auto intro: red_step_inv)

text \<open>The quorum after the servers were added; with none it stays 0 and any attempt would do.\<close>

lemma connect_all_eq: "srv \<noteq> [] \<Longrightarrow> connect_all junk srv = ((CRedLock_new junk)\<lparr>m_quoRum := int (length srv) div 2 + 1\<rparr>, srv)"
  unfolding connect_all_def
proof (induction srv rule: rev_nonempty_induct)
  case (single r)
  then show ?case by (simp add: AddServerUrl_def CRedLock_new_def)
next
  case (snoc r srv)
  then show ?case by (simp add: AddServerUrl_def Let_def)
qed

lemma red_start_inv: "srv \<noteq> [] \<Longrightarrow> red_inv R (red_start junk srv)"
  by (simp add: red_inv_def red_start_def client_ok_def connect_all_eq CRedLock_new_def)

text \<open>A key that lasts on a majority keeps every other client from the lock.\<close>

lemma holds_owner:
  assumes "red_inv R w" "red_holds w c key"
  shows "\<exists>Q. majority (length (rw_srv w)) Q \<and> (\<forall>j\<in>Q. rs_get R (rw_srv w ! j) (rw_now w) key = Some (cl_val (rw_cl w c))) \<and> rw_owner w (cl_val (rw_cl w c)) = Some c"
proof -
  obtain v where v: "cl_pc (rw_cl w c) = Held v" "cl_resource (rw_cl w c) = key" "rw_now w < cl_began (rw_cl w c) + cl_ttl (rw_cl w c)" using assms(2) by (auto simp: red_holds_def split: lock_pc.splits)
  have "client_ok R (rw_srv w) (rw_now w) (rw_owner w) c (rw_cl w c)" using assms(1) by (simp add: red_inv_def)
  then obtain Q where Q: "majority (length (rw_srv w)) Q" "\<forall>j\<in>Q. leased R (rw_now w) (rw_cl w c) (rw_srv w ! j)" "rw_owner w (cl_val (rw_cl w c)) = Some c"
    using v(1) by (auto simp: client_ok_def)
  then show ?thesis using v(2,3) by (auto simp: leased_def)
qed

lemma holders_equal:
  assumes "red_inv R w" "red_holds w c key" "red_holds w d key"
  shows "c = d"
proof -
  obtain A where A: "majority (length (rw_srv w)) A" "\<forall>j\<in>A. rs_get R (rw_srv w ! j) (rw_now w) key = Some (cl_val (rw_cl w c))" "rw_owner w (cl_val (rw_cl w c)) = Some c"
    using holds_owner [OF assms(1,2)] by blast
  obtain B where B: "majority (length (rw_srv w)) B" "\<forall>j\<in>B. rs_get R (rw_srv w ! j) (rw_now w) key = Some (cl_val (rw_cl w d))" "rw_owner w (cl_val (rw_cl w d)) = Some d"
    using holds_owner [OF assms(1,3)] by blast
  have "cl_val (rw_cl w c) = cl_val (rw_cl w d)"
    by (rule maj.agree [OF A(1) B(1), of "\<lambda>j. rs_get R (rw_srv w ! j) (rw_now w) key"]) (use A(2) B(2) in auto)
  then have "Some c = Some d" using A(3) B(3) by metis
  then show ?thesis by (rule option.inject [THEN iffD1])
qed

section \<open>The validity\<close>

lemma to_int32_mod: "to_int32 v mod 2 ^ 32 = v mod 2 ^ 32"
  unfolding to_int32_eq by (simp add: mod_diff_left_eq)

lemma to_int32_cong: "x mod 2 ^ 32 = y mod 2 ^ 32 \<Longrightarrow> to_int32 x = to_int32 y"
  unfolding to_int32_eq by (metis mod_add_left_eq)

lemma clock_ms_mod: "clock_ms now mod 2 ^ 32 = (now div 1000 * 1000) mod 2 ^ 32"
  unfolding clock_ms_def to_int32_mod by (metis mod_mult_left_eq to_int32_mod)

lemma int_powers: "(2 :: int) ^ 29 = 536870912" "(2 :: int) ^ 30 = 1073741824" "(2 :: int) ^ 31 = 2147483648"
  by simp_all

text \<open>The wrap-around of the milliseconds cancels in their difference.\<close>

lemma elapsed_exact:
  assumes "began \<le> got" "got - began < 2 ^ 30"
  shows "to_int32 (clock_ms got - clock_ms began) = got div 1000 * 1000 - began div 1000 * 1000"
proof -
  let ?d = "got div 1000 * 1000 - began div 1000 * 1000"
  have "to_int32 (clock_ms got - clock_ms began) = to_int32 ?d" by (rule to_int32_cong) (metis clock_ms_mod mod_diff_cong)
  moreover have "to_int32 ?d = ?d" by (rule to_int32_id) (use assms in \<open>unfold int_powers, linarith\<close>)+
  ultimately show ?thesis by simp
qed

lemma dval_times: "dval (a * b, e + f) = dval (a, e) * dval (b, f)"
  by (simp add: dval_def power_int_add)

lemma dval_align: "e \<le> f \<Longrightarrow> dval (m * 2 ^ nat (f - e), e) = dval (m, f)"
proof -
  assume e: "e \<le> f"
  have "(2::real) powi (e + (f - e)) = 2 powi e * 2 powi (f - e)" by (rule power_int_add) simp
  then show ?thesis using e by (simp add: dval_def power_int_def)
qed

lemma dval_add: "dval (a + b, e) = dval (a, e) + dval (b, e)"
  by (simp add: dval_def distrib_right)

lemma drift_bounds:
  assumes "0 < ttl" "ttl < 2 ^ 30"
  shows "2 \<le> drift ttl" "drift ttl < 2 ^ 29"
proof -
  obtain m0 e0 where x0: "fround 24 (ttl, 0) = (m0, e0)" by (cases "fround 24 (ttl, 0)")
  have 0: "0 \<le> m0" "dval (m0, e0) \<le> 2 * real_of_int ttl" using fround_bounds [of ttl 24 0] assms(1) by (simp_all add: x0 dval_def)
  obtain m1 e1 where x1: "fround 24 (m0 * 10737418, e0 - 30) = (m1, e1)" by (cases "fround 24 (m0 * 10737418, e0 - 30)")
  have "dval (m0 * 10737418, e0 - 30) = dval (m0, e0) * dval (10737418, -30)" using dval_times [of m0 10737418 e0 "-30"] by simp
  moreover have "dval (10737418, -30) \<le> 1 / 64" by (simp add: dval_def power_int_def power_divide)
  ultimately have "dval (m0 * 10737418, e0 - 30) \<le> 2 * real_of_int ttl * (1 / 64)" using 0 assms(1)
    by (metis mult_mono' dval_def mult_nonneg_nonneg of_int_0_le_iff zero_le_power_int zero_le_numeral fst_conv snd_conv)
  then have 1: "0 \<le> m1" "dval (m1, e1) \<le> real_of_int ttl / 16" using fround_bounds [of "m0 * 10737418" 24 "e0 - 30"] 0 by (simp_all add: x1)
  let ?e = "min e1 0" let ?m = "m1 * 2 ^ nat (e1 - ?e) + 2 * 2 ^ nat (0 - ?e)"
  have d: "drift ttl = ftrunc (fround 24 (?m, ?e))" by (simp add: drift_def fplus_def ftimes_def m_clockDriftFactor_def x0 x1 Let_def)
  have "dval (?m, ?e) = dval (m1, e1) + dval (2, 0)" unfolding dval_add by (simp add: dval_align del: diff_0)
  then have m: "dval (?m, ?e) \<le> real_of_int ttl / 16 + 2" using 1(2) by (simp add: dval_def)
  have nn: "0 \<le> ?m" using 1(1) by simp
  obtain m2 e2 where x2: "fround 24 (?m, ?e) = (m2, e2)" by (cases "fround 24 (?m, ?e)")
  have 2: "0 \<le> m2" "dval (m2, e2) \<le> real_of_int ttl / 8 + 4" using fround_bounds [OF nn, of 24 ?e, unfolded x2] m by simp_all
  have "real_of_int (drift ttl) \<le> real_of_int ttl / 8 + 4" using ftrunc_le [OF 2(1), of e2] 2(2) unfolding d x2 by linarith
  then have "8 * drift ttl \<le> ttl + 32" by linarith
  then show "drift ttl < 2 ^ 29" using assms by simp
  have "2 * 2 ^ nat (- ?e) \<le> ?m" using 1(1) by simp
  then show "2 \<le> drift ttl" unfolding d by (intro fround_ge_2) simp_all
qed

text \<open>The time at which the reported validity ends: at most 999 ms beyond the life of the keys, less the drift.\<close>

lemma validity_end:
  assumes "began \<le> got" "got - began < 2 ^ 30" "0 < ttl" "ttl < 2 ^ 30"
  shows "got + validityTime ttl (clock_ms began) got \<le> began + ttl + 999 - drift ttl"
proof -
  let ?x = "ttl - (got div 1000 * 1000 - began div 1000 * 1000) - drift ttl"
  have "validityTime ttl (clock_ms began) got = to_int32 ?x" by (simp add: validityTime_def elapsed_exact [OF assms(1,2)])
  moreover have "to_int32 ?x = ?x" by (rule to_int32_id) (use drift_bounds [OF assms(3,4)] assms in \<open>unfold int_powers, linarith\<close>)+
  ultimately show ?thesis by linarith
qed

lemma valid_holds:
  assumes "red_inv R w" "red_valid w c key" "0 < cl_ttl (rw_cl w c)" "cl_ttl (rw_cl w c) < 2 ^ 30" "cl_got (rw_cl w c) - cl_began (rw_cl w c) < 2 ^ 30"
    "999 \<le> drift (cl_ttl (rw_cl w c))"
  shows "red_holds w c key"
proof -
  obtain v where v: "cl_pc (rw_cl w c) = Held v" "rw_now w < cl_got (rw_cl w c) + v" "cl_resource (rw_cl w c) = key"
    using assms(2) by (auto simp: red_valid_def split: lock_pc.splits)
  have "client_ok R (rw_srv w) (rw_now w) (rw_owner w) c (rw_cl w c)" using assms(1) by (simp add: red_inv_def)
  then have "v = validityTime (cl_ttl (rw_cl w c)) (clock_ms (cl_began (rw_cl w c))) (cl_got (rw_cl w c))" "cl_began (rw_cl w c) \<le> cl_got (rw_cl w c)"
    using v(1) by (simp_all add: client_ok_def)
  then show ?thesis using validity_end [OF _ assms(5,3,4)] assms(6) v by (simp add: red_holds_def)
qed

section \<open>Calls return\<close>

fun run_call :: "('r, 'z) redis_scheme \<Rightarrow> (net \<times> int) list \<Rightarrow> redlock \<times> 'r list \<Rightarrow> redlock \<times> 'r list" where
  "run_call R [] st = st"
| "run_call R ((n, now) # sched) st = run_call R sched (redlock_step R n now st)"

definition steps_left :: "nat \<Rightarrow> redlock \<Rightarrow> nat" where
  "steps_left n c =
     (case cl_pc c of
        Idle \<Rightarrow> 0
      | Held v \<Rightarrow> 0
      | Locking r i m st \<Rightarrow> (n - i + 1) + (n + 1) + nat (r - 1) * (2 * n + 2)
      | Unlocking r i \<Rightarrow> (n - i + 1) + nat (r - 1) * (2 * n + 2)
      | Releasing i \<Rightarrow> n - i + 1
      | Crashed \<Rightarrow> 0)"

lemma steps_left_dec:
  assumes "redlock_step R n now (c, srv) = (c', srv')"
  shows "length srv' = length srv \<and> steps_left (length srv) c' \<le> steps_left (length srv) c - 1"
proof (cases "cl_pc c")
  case (Locking r i m st)
  then show ?thesis using assms by (auto simp: redlock_step_def steps_left_def Let_def split: if_splits prod.splits)
next
  case (Unlocking r i)
  have "nat (r - 1) = Suc (nat (r - 2))" if "1 < r" using that by linarith
  then show ?thesis using assms Unlocking by (auto simp: redlock_step_def steps_left_def begin_attempt_def split: if_splits)
qed (use assms in \<open>auto simp: redlock_step_def steps_left_def split: if_splits\<close>)

lemma run_call_left: "run_call R sched (c, srv) = (c', srv') \<Longrightarrow> steps_left (length srv) c' \<le> steps_left (length srv) c - length sched"
proof (induction sched arbitrary: c srv)
  case (Cons x sched)
  obtain n now where x: "x = (n, now)" by (cases x)
  obtain c1 srv1 where s: "redlock_step R n now (c, srv) = (c1, srv1)" by (cases "redlock_step R n now (c, srv)")
  then show ?case using Cons.IH [of c1 srv1] Cons.prems steps_left_dec [OF s] by (simp add: x) linarith
qed simp

lemma steps_left_0: "steps_left n c = 0 \<longleftrightarrow> at_rest c \<or> cl_pc c = Crashed"
  by (auto simp: steps_left_def at_rest_def split: lock_pc.splits)

text \<open>A delay other than zero never stops a call.\<close>

lemma step_no_crash:
  "redlock_step R n now (c, srv) = (c', srv') \<Longrightarrow> m_retryDelay c \<noteq> 0 \<Longrightarrow> cl_pc c \<noteq> Crashed \<Longrightarrow> m_retryDelay c' \<noteq> 0 \<and> cl_pc c' \<noteq> Crashed"
  by (cases "cl_pc c") (auto simp: redlock_step_def Let_def begin_attempt_def split: if_splits prod.splits)

lemma run_no_crash:
  "run_call R sched (c, srv) = (c', srv') \<Longrightarrow> m_retryDelay c \<noteq> 0 \<Longrightarrow> cl_pc c \<noteq> Crashed \<Longrightarrow> cl_pc c' \<noteq> Crashed"
proof (induction sched arbitrary: c srv)
  case (Cons x sched)
  obtain n now where x: "x = (n, now)" by (cases x)
  obtain c1 srv1 where s: "redlock_step R n now (c, srv) = (c1, srv1)" by (cases "redlock_step R n now (c, srv)")
  then show ?case using Cons.IH [of c1 srv1] Cons.prems step_no_crash [OF s] by (simp add: x)
qed simp

section \<open>Executions\<close>

datatype red_event = Tick int | Call nat string int string | Run nat net

text \<open>A run given by its events; None when an event is not possible.\<close>

fun red_exec :: "('r, 'z) redis_scheme \<Rightarrow> red_event list \<Rightarrow> 'r red_world \<Rightarrow> 'r red_world option" where
  "red_exec R [] w = Some w"
| "red_exec R (Tick t # es) w = (if rw_now w \<le> t then red_exec R es (w\<lparr>rw_now := t\<rparr>) else None)"
| "red_exec R (Call c key ttl v # es) w =
     (if at_rest (rw_cl w c) \<and> rw_owner w v = None
      then red_exec R es (w\<lparr>rw_cl := (rw_cl w)(c := Lock (rw_now w) key ttl v (rw_cl w c)), rw_owner := (rw_owner w)(v \<mapsto> c)\<rparr>) else None)"
| "red_exec R (Run c n # es) w =
     (case redlock_step R n (rw_now w) (rw_cl w c, rw_srv w) of (cl, srv) \<Rightarrow> red_exec R es (w\<lparr>rw_cl := (rw_cl w)(c := cl), rw_srv := srv\<rparr>))"

lemma red_exec_run: "red_exec R es w = Some w' \<Longrightarrow> (red_step R)\<^sup>*\<^sup>* w w'"
proof (induction R es w rule: red_exec.induct)
  case (2 R t es w)
  then show ?case by (auto intro: converse_rtranclp_into_rtranclp red_step.tick split: if_splits)
next
  case (3 R c key ttl v es w)
  then show ?case by (auto intro: converse_rtranclp_into_rtranclp red_step.call split: if_splits)
next
  case (4 R c n es w)
  then show ?case by (auto intro: converse_rtranclp_into_rtranclp red_step.run split: prod.splits)
qed simp

definition blank_redlock :: redlock where
  "blank_redlock = \<lparr>m_retryCount = 0, m_retryDelay = 0, m_quoRum = 0, m_continue = None, cl_cont = False, cl_resource = [], cl_ttl = 0, cl_val = [], cl_began = 0, cl_got = 0, cl_pc = Idle\<rparr>"

lemma drift_values: "drift 1000 = 12" "drift 100000 = 1002"
  by code_simp+

lemma lock_values: "clock_ms 0 = 0" "clock_ms 1000 = 1000" "validityTime 1000 0 999 = 988" "validityTime 1000 1000 1000 = 988" "validityTime 100000 0 0 = 98998"
  by (simp_all add: validityTime_def clock_ms_def drift_values to_int32_id)

lemmas redlock_exec = redlock_step_def acquire_def LockInstance_def redisCommand_def redis_map_def map_get_def Lock_def begin_attempt_def
  red_start_def connect_all_def AddServerUrl_def CRedLock_new_def blank_redlock_def at_rest_def

text \<open>A run in which a client gets the lock.\<close>

lemma redlock_example:
  "\<exists>w. (red_step redis_map)\<^sup>*\<^sup>* (red_start blank_redlock [Map.empty]) w \<and> red_valid w 0 ''key'' \<and> red_holds w 0 ''key'' \<and>
     cl_ttl (rw_cl w 0) = 100000 \<and> cl_got (rw_cl w 0) = 0 \<and> cl_began (rw_cl w 0) = 0"
proof -
  let ?run = "red_exec redis_map [Call 0 ''key'' 100000 ''a'', Run 0 Answered, Run 0 Answered] (red_start blank_redlock [Map.empty])"
  have "case ?run of None \<Rightarrow> False | Some w \<Rightarrow> red_valid w 0 ''key'' \<and> red_holds w 0 ''key'' \<and> cl_ttl (rw_cl w 0) = 100000 \<and> cl_got (rw_cl w 0) = 0 \<and> cl_began (rw_cl w 0) = 0"
    by (simp add: redlock_exec lock_values red_valid_def red_holds_def)
  then obtain w where "?run = Some w" "red_valid w 0 ''key''" "red_holds w 0 ''key''" "cl_ttl (rw_cl w 0) = 100000" "cl_got (rw_cl w 0) = 0" "cl_began (rw_cl w 0) = 0"
    by (cases ?run) auto
  then show ?thesis using red_exec_run by blast
qed

section \<open>Properties\<close>

text \<open>C8: mutual exclusion: in every interleaving of the calls of any number of clients on the same servers, at least one, whatever the network loses, two clients that were both given the lock of a resource, and whose time to live since their attempt began has not passed, are the same client.\<close>

theorem redlock_mutual_exclusion:
  assumes "srv \<noteq> []" "redis_ok R" "(red_step R)\<^sup>*\<^sup>* (red_start junk srv) w" "red_holds w c key" "red_holds w d key"
  shows "c = d"
  using holders_equal [OF red_run_inv [OF assms(3,2) red_start_inv [OF assms(1)]] assms(4,5)] .

theorem redlock_mutual_exclusion_witness:
  "\<exists>w. (red_step redis_map)\<^sup>*\<^sup>* (red_start blank_redlock [Map.empty]) w \<and> red_holds w 0 ''key'' \<and> \<not> red_holds w 1 ''key''"
  using redlock_example redlock_mutual_exclusion [OF _ redis_map_ok, of "[Map.empty]" blank_redlock _ 0 "''key''" 1] by auto

text \<open>C13: for a time to live whose drift is at least 999 ms, about 100 seconds, the validity that Lock reports is safe: while it has not passed the client holds the lock and no other client does.\<close>

theorem redlock_validity_safe:
  assumes "srv \<noteq> []" "redis_ok R" "(red_step R)\<^sup>*\<^sup>* (red_start junk srv) w" "red_valid w c key"
    "0 < cl_ttl (rw_cl w c)" "cl_ttl (rw_cl w c) < 2 ^ 30" "cl_got (rw_cl w c) - cl_began (rw_cl w c) < 2 ^ 30" "999 \<le> drift (cl_ttl (rw_cl w c))"
  shows "red_holds w c key \<and> (\<forall>d. red_holds w d key \<longrightarrow> d = c)"
proof -
  note inv = red_run_inv [OF assms(3,2) red_start_inv [OF assms(1)]]
  have "red_holds w c key" by (rule valid_holds [OF inv assms(4-8)])
  then show ?thesis using holders_equal [OF inv] by blast
qed

theorem redlock_validity_safe_witness:
  "\<exists>w. (red_step redis_map)\<^sup>*\<^sup>* (red_start blank_redlock [Map.empty]) w \<and> red_holds w 0 ''key'' \<and> (\<forall>d. red_holds w d ''key'' \<longrightarrow> d = 0)"
proof -
  obtain w where w: "(red_step redis_map)\<^sup>*\<^sup>* (red_start blank_redlock [Map.empty]) w" "red_valid w 0 ''key''" "cl_ttl (rw_cl w 0) = 100000" "cl_got (rw_cl w 0) = 0" "cl_began (rw_cl w 0) = 0"
    using redlock_example by blast
  then show ?thesis using redlock_validity_safe [OF _ redis_map_ok w(1,2)] drift_values(2) by auto
qed

text \<open>C34: for the time to live of one second that the proxy uses, the reported validity is not safe: the clock is read in whole seconds, so a client that took 999 ms to get the lock is told that no time has passed, and another client gets the lock while the first still counts on it.\<close>

theorem redlock_validity_overshoots:
  "\<exists>w. (red_step redis_map)\<^sup>*\<^sup>* (red_start blank_redlock [Map.empty]) w \<and> red_valid w 0 ''key'' \<and> red_valid w 1 ''key''"
proof -
  let ?run = "red_exec redis_map [Call 0 ''key'' 1000 ''a'', Run 0 Answered, Tick 999, Run 0 Answered, Tick 1000, Call 1 ''key'' 1000 ''b'', Run 1 Answered, Run 1 Answered] (red_start blank_redlock [Map.empty])"
  have "case ?run of None \<Rightarrow> False | Some w \<Rightarrow> red_valid w 0 ''key'' \<and> red_valid w 1 ''key''" 
    by (simp add: redlock_exec lock_values red_valid_def)
  then obtain w where "?run = Some w" "red_valid w 0 ''key''" "red_valid w 1 ''key''" by (auto split: option.splits)
  then show ?thesis using red_exec_run by blast
qed

text \<open>C12: with a retry delay other than zero every call of Lock returns after a number of its own commands and computations that depends only on the number of servers and of retries, whatever the servers answer and however long they take.\<close>

theorem redlock_lock_returns:
  assumes "m_retryDelay c \<noteq> 0" "(2 * length srv + 2) * nat (max 1 (m_retryCount c)) \<le> length sched"
  shows "at_rest (fst (run_call R sched (Lock now key ttl v c, srv)))"
proof -
  obtain c' srv' where r: "run_call R sched (Lock now key ttl v c, srv) = (c', srv')" by (cases "run_call R sched (Lock now key ttl v c, srv)")
  have "nat (max 1 (m_retryCount c)) = Suc (nat (m_retryCount c - 1))" by linarith
  then have "steps_left (length srv) (Lock now key ttl v c) \<le> length sched" using assms(2) by (simp add: Lock_def begin_attempt_def steps_left_def algebra_simps)
  then have "steps_left (length srv) c' = 0" using run_call_left [OF r] by simp
  moreover have "cl_pc c' \<noteq> Crashed" using run_no_crash [OF r] assms(1) by (simp add: Lock_def begin_attempt_def)
  ultimately show ?thesis by (simp add: r steps_left_0)
qed

theorem redlock_lock_returns_witness:
  "at_rest (fst (run_call redis_map (replicate 12 (Not_delivered, 0)) (Lock 0 ''key'' 1000 ''a'' (CRedLock_new blank_redlock), [Map.empty])))"
  by (rule redlock_lock_returns) (simp_all add: CRedLock_new_def)

end
