(* ===== verification/Zookeeper.thy ===== *)
theory Zookeeper
  imports Redis_Lock Proxy_State
begin

text \<open>
  The ZooKeeper client src/src/co_zk.cpp and the registration of a proxy in src/src/server.cpp. A
  function that talks to the service is a program: a tree of requests, each with the continuation
  for its reply, so that the same text runs alone or interleaved with other clients. The service is
  a parameter with its documented effect on the tree of nodes. A registration is shown to leave the
  topology of the proxy in the tree and nothing else changed, whatever was registered before.
\<close>

section \<open>The service\<close>

datatype zcode = ZOK | ZNONODE | ZNODEEXISTS | ZNOTEMPTY | ZBADVERSION | ZCONNECTIONLOSS | Zcode int

record node_stat =
  st_version :: int
  st_dataLength :: nat

definition ZOO_EPHEMERAL :: int where "ZOO_EPHEMERAL = 1"
definition ZOO_SEQUENCE :: int where "ZOO_SEQUENCE = 2"

text \<open>The requests of the C client that the code makes; the flag of create is 0 or ZOO_EPHEMERAL | ZOO_SEQUENCE.\<close>

datatype zreq =
    Q_create string string int
  | Q_exists string
  | Q_delete string int
  | Q_get string nat
  | Q_set string string int
  | Q_children string

record zreply =
  rc :: zcode
  r_text :: string
  r_stat :: node_stat
  r_children :: "string list"

text \<open>A node: its data, version and, for a sequence node, the number it was given.\<close>

record znode =
  z_data :: string
  z_version :: int
  z_seq :: "nat option"

type_synonym ztree = "string \<rightharpoonup> znode"

definition zparent :: "string \<Rightarrow> string" where
  "zparent p = rev (tl (dropWhile (\<lambda>c. c \<noteq> CHR ''/'') (rev p)))"

definition parent_there :: "ztree \<Rightarrow> string \<Rightarrow> bool" where
  "parent_there t p \<longleftrightarrow> zparent p = [] \<or> t (zparent p) \<noteq> None"

text \<open>A component of a path.\<close>

definition zname :: "string \<Rightarrow> bool" where
  "zname a \<longleftrightarrow> a \<noteq> [] \<and> CHR ''/'' \<notin> set a"

definition zpath :: "string list \<Rightarrow> string" where
  "zpath as = concat (map (\<lambda>a. CHR ''/'' # a) as)"

definition good_path :: "string \<Rightarrow> bool" where
  "good_path p \<longleftrightarrow> (\<exists>as. as \<noteq> [] \<and> list_all zname as \<and> p = zpath as)"

text \<open>The number of a sequence node has ten digits.\<close>

definition seq_suffix :: "nat \<Rightarrow> string" where
  "seq_suffix n = replicate (10 - length (dec_nat n)) CHR ''0'' @ dec_nat n"

text \<open>
  The documented effect of a request on the tree. A request with a path that is none fails. A
  sequence number is greater than those of the other sequence nodes of the same parent.
\<close>

fun zk_effect :: "ztree \<Rightarrow> zreq \<Rightarrow> ztree \<Rightarrow> zreply \<Rightarrow> bool" where
  "zk_effect t (Q_create p v flag) t' r \<longleftrightarrow>
     (if \<not> good_path p then rc r \<notin> {ZOK, ZNODEEXISTS} \<and> t' = t
      else if flag = 0 then
        (if t p \<noteq> None then rc r = ZNODEEXISTS \<and> t' = t
         else if \<not> parent_there t p then rc r = ZNONODE \<and> t' = t
         else rc r = ZOK \<and> r_text r = p \<and> t' = t(p \<mapsto> \<lparr>z_data = v, z_version = 0, z_seq = None\<rparr>))
      else if \<not> parent_there t p then rc r = ZNONODE \<and> t' = t
      else (\<exists>n. (\<forall>q x m. t q = Some x \<longrightarrow> z_seq x = Some m \<longrightarrow> zparent q = zparent p \<longrightarrow> m < n) \<and>
             (if t (p @ seq_suffix n) \<noteq> None then rc r = ZNODEEXISTS \<and> t' = t
              else rc r = ZOK \<and> r_text r = p @ seq_suffix n \<and>
                t' = t(p @ seq_suffix n \<mapsto> \<lparr>z_data = v, z_version = 0, z_seq = Some n\<rparr>))))"
| "zk_effect t (Q_exists p) t' r \<longleftrightarrow> t' = t \<and>
     (case t p of None \<Rightarrow> if good_path p then rc r = ZNONODE else rc r \<notin> {ZOK, ZNONODE}
      | Some x \<Rightarrow> rc r = ZOK \<and> r_stat r = \<lparr>st_version = z_version x, st_dataLength = length (z_data x)\<rparr>)"
| "zk_effect t (Q_delete p ver) t' r \<longleftrightarrow>
     (case t p of
        None \<Rightarrow> rc r \<noteq> ZOK \<and> (good_path p \<longrightarrow> rc r = ZNONODE) \<and> t' = t
      | Some x \<Rightarrow>
          if ver \<noteq> -1 \<and> ver \<noteq> z_version x then rc r = ZBADVERSION \<and> t' = t
          else if \<exists>q. t q \<noteq> None \<and> zparent q = p then rc r = ZNOTEMPTY \<and> t' = t
          else rc r = ZOK \<and> t' = t(p := None))"
| "zk_effect t (Q_get p len) t' r \<longleftrightarrow> t' = t \<and>
     (case t p of None \<Rightarrow> rc r \<noteq> ZOK | Some x \<Rightarrow> rc r = ZOK \<and> r_text r = take len (z_data x))"
| "zk_effect t (Q_set p v ver) t' r \<longleftrightarrow>
     (case t p of
        None \<Rightarrow> rc r \<noteq> ZOK \<and> t' = t
      | Some x \<Rightarrow>
          if ver \<noteq> -1 \<and> ver \<noteq> z_version x then rc r = ZBADVERSION \<and> t' = t
          else rc r = ZOK \<and> t' = t(p \<mapsto> x\<lparr>z_data := v, z_version := z_version x + 1\<rparr>))"
| "zk_effect t (Q_children p) t' r \<longleftrightarrow> t' = t \<and>
     (case t p of
        None \<Rightarrow> rc r \<noteq> ZOK
      | Some x \<Rightarrow> rc r = ZOK \<and> distinct (r_children r) \<and> set (r_children r) = {a. zname a \<and> t (p @ CHR ''/'' # a) \<noteq> None})"

text \<open>A service with states of any kind and a view of them as trees of nodes.\<close>

definition zk_ok :: "('z \<Rightarrow> ztree) \<Rightarrow> ('z \<Rightarrow> zreq \<Rightarrow> 'z \<times> zreply) \<Rightarrow> bool" where
  "zk_ok tree srv \<longleftrightarrow> (\<forall>z q. zk_effect (tree z) q (tree (fst (srv z q))) (snd (srv z q)))"

section \<open>Programs\<close>

text \<open>
  A function of the client: it returns, throws a ZooException, stops the process, or makes a request
  and goes on with the reply.
\<close>

datatype 'a zprog = Ret 'a | Throw zcode | Die fault | Ask zreq "zreply \<Rightarrow> 'a zprog"

primrec zbind :: "'a zprog \<Rightarrow> ('a \<Rightarrow> 'b zprog) \<Rightarrow> 'b zprog" where
  "zbind (Ret x) f = f x"
| "zbind (Throw c) f = Throw c"
| "zbind (Die e) f = Die e"
| "zbind (Ask q k) f = Ask q (\<lambda>r. zbind (k r) f)"

text \<open>A run with nobody else at work.\<close>

datatype 'a zout = Z_returned 'a | Z_threw zcode | Z_died fault

primrec zrun :: "('z \<Rightarrow> zreq \<Rightarrow> 'z \<times> zreply) \<Rightarrow> 'a zprog \<Rightarrow> 'z \<Rightarrow> 'a zout \<times> 'z" where
  "zrun srv (Ret x) z = (Z_returned x, z)"
| "zrun srv (Throw c) z = (Z_threw c, z)"
| "zrun srv (Die e) z = (Z_died e, z)"
| "zrun srv (Ask q k) z = zrun srv (k (snd (srv z q))) (fst (srv z q))"

section \<open>Requests\<close>

definition CHECK_ZOOCODE_AND_THROW :: "zcode \<Rightarrow> 'a zprog \<Rightarrow> 'a zprog" where
  "CHECK_ZOOCODE_AND_THROW code p = (if code \<noteq> ZOK then Throw code else p)"

text \<open>Exists with the stat it fills in.\<close>

definition zk_Exists :: "string \<Rightarrow> node_stat option zprog" where
  "zk_Exists path = Ask (Q_exists path) (\<lambda>r.
     if rc r = ZNONODE then Ret None else CHECK_ZOOCODE_AND_THROW (rc r) (Ret (Some (r_stat r))))"

definition zk_Stat :: "string \<Rightarrow> node_stat zprog" where
  "zk_Stat path = Ask (Q_exists path) (\<lambda>r. CHECK_ZOOCODE_AND_THROW (rc r) (Ret (r_stat r)))"

definition zk_Create :: "string \<Rightarrow> string \<Rightarrow> int \<Rightarrow> string zprog" where
  "zk_Create path v flag = Ask (Q_create path v flag) (\<lambda>r. CHECK_ZOOCODE_AND_THROW (rc r) (Ret (r_text r)))"

definition zk_CreateIfNotExists :: "string \<Rightarrow> string \<Rightarrow> int \<Rightarrow> string zprog" where
  "zk_CreateIfNotExists path v flag = Ask (Q_create path v flag) (\<lambda>r.
     if rc r = ZNODEEXISTS then (if flag div ZOO_SEQUENCE mod 2 = 0 then Ret path else Die Check_failed)
     else CHECK_ZOOCODE_AND_THROW (rc r) (Ret (r_text r)))"

definition zk_Delete :: "string \<Rightarrow> unit zprog" where
  "zk_Delete path = zbind (zk_Exists path) (\<lambda>stat. case stat of
       None \<Rightarrow> Throw ZNONODE
     | Some st \<Rightarrow> Ask (Q_delete path (st_version st)) (\<lambda>r. CHECK_ZOOCODE_AND_THROW (rc r) (Ret ())))"

definition zk_DeleteIfExists :: "string \<Rightarrow> unit zprog" where
  "zk_DeleteIfExists path = zbind (zk_Exists path) (\<lambda>stat. case stat of
       None \<Rightarrow> Ret ()
     | Some st \<Rightarrow> Ask (Q_delete path (st_version st)) (\<lambda>r.
         if rc r = ZNONODE then Ret () else CHECK_ZOOCODE_AND_THROW (rc r) (Ret ())))"

definition zk_Get :: "string \<Rightarrow> string zprog" where
  "zk_Get path = zbind (zk_Stat path) (\<lambda>st.
     Ask (Q_get path (st_dataLength st)) (\<lambda>r. CHECK_ZOOCODE_AND_THROW (rc r) (Ret (r_text r))))"

definition zk_Set :: "string \<Rightarrow> string \<Rightarrow> unit zprog" where
  "zk_Set path v = zbind (zk_Stat path) (\<lambda>st.
     Ask (Q_set path v (st_version st)) (\<lambda>r. CHECK_ZOOCODE_AND_THROW (rc r) (Ret ())))"

definition zk_GetChildren :: "string \<Rightarrow> string list zprog" where
  "zk_GetChildren path = Ask (Q_children path) (\<lambda>r. CHECK_ZOOCODE_AND_THROW (rc r) (Ret (r_children r)))"

section \<open>Topology\<close>

text \<open>CreateIfNotExists where its result is not used.\<close>

definition touch :: "string \<Rightarrow> string \<Rightarrow> unit zprog" where
  "touch path v = zbind (zk_CreateIfNotExists path v 0) (\<lambda>_. Ret ())"

definition zthen :: "'a zprog \<Rightarrow> 'b zprog \<Rightarrow> 'b zprog" where
  "zthen p q = zbind p (\<lambda>_. q)"

fun zeach :: "('a \<Rightarrow> unit zprog) \<Rightarrow> 'a list \<Rightarrow> unit zprog" where
  "zeach f [] = Ret ()"
| "zeach f (x # xs) = zthen (f x) (zeach f xs)"

fun zcollect :: "('a \<Rightarrow> 'b list zprog) \<Rightarrow> 'a list \<Rightarrow> 'b list zprog" where
  "zcollect f [] = Ret []"
| "zcollect f (x # xs) = zbind (f x) (\<lambda>ys. zbind (zcollect f xs) (\<lambda>zs. Ret (ys @ zs)))"

definition GetProxies :: "string list zprog" where
  "GetProxies = zk_GetChildren ''/con-map''"

definition GetDumbNodesOfProxy :: "string \<Rightarrow> string list zprog" where
  "GetDumbNodesOfProxy proxy = zk_GetChildren (''/con-map/'' @ proxy)"

definition GetMasters :: "string list zprog" where
  "GetMasters = zk_GetChildren ''/con-top''"

definition GetSlavesOfMaster :: "string \<Rightarrow> string list zprog" where
  "GetSlavesOfMaster master = zk_GetChildren (''/con-top/'' @ master)"

definition GetDumbNodesAll :: "bool \<Rightarrow> string list zprog" where
  "GetDumbNodesAll fullPath = zbind GetProxies (zcollect (\<lambda>ip. zbind (GetDumbNodesOfProxy ip) (\<lambda>sub.
     Ret (if \<not> fullPath then sub else map (\<lambda>i. ''/con-map/'' @ ip @ ''/'' @ i) sub))))"

text \<open>The slaves of a master are asked for with GetDumbNodesOfProxy, below /con-map.\<close>

definition GetSlavesAll :: "bool \<Rightarrow> string list zprog" where
  "GetSlavesAll fullPath = zbind GetMasters (zcollect (\<lambda>ip. zbind (GetDumbNodesOfProxy ip) (\<lambda>sub.
     Ret (if \<not> fullPath then sub else map (\<lambda>i. ''/con-top/'' @ ip @ ''/'' @ i) sub))))"

definition GetPhysicalMap :: "(string \<times> string list) list zprog" where
  "GetPhysicalMap = zbind GetProxies (zcollect (\<lambda>i. zbind (GetDumbNodesOfProxy i) (\<lambda>ds. Ret [(i, ds)])))"

definition GetLogicalTop :: "(string \<times> string list) list zprog" where
  "GetLogicalTop = zbind GetMasters (zcollect (\<lambda>i. zbind (GetSlavesOfMaster i) (\<lambda>ds. Ret [(i, ds)])))"

definition role_text :: "bool \<Rightarrow> string" where
  "role_text master = (if master then ''master'' else ''slave'')"

definition SetPhysicalMap :: "string \<times> string \<Rightarrow> bool \<Rightarrow> unit zprog" where
  "SetPhysicalMap m master =
     zthen (touch ''/pm'' [])
    (zthen (touch (''/pm/'' @ fst m) [])
    (zthen (touch (''/pm/'' @ fst m @ ''/'' @ snd m) (role_text master))
           (zk_Set (''/pm/'' @ fst m @ ''/'' @ snd m) (role_text master))))"

definition SetReversePhysicalMap :: "string \<times> string \<Rightarrow> bool \<Rightarrow> unit zprog" where
  "SetReversePhysicalMap m master =
     zthen (touch ''/rpm'' [])
    (zthen (touch (''/rpm/'' @ snd m) [])
    (zthen (zk_Set (''/rpm/'' @ snd m) (role_text master))
           (touch (''/rpm/'' @ snd m @ ''/'' @ fst m) [])))"

definition SetShardInfo :: "string \<times> string \<Rightarrow> unit zprog" where
  "SetShardInfo si =
     zthen (touch ''/si'' []) (zthen (touch (''/si/'' @ fst si) []) (touch (''/si/'' @ fst si @ ''/'' @ snd si) []))"

definition SetShardTop :: "string \<times> string \<Rightarrow> unit zprog" where
  "SetShardTop si =
     zthen (touch ''/st'' []) (zthen (touch (''/st/'' @ snd si) []) (touch (''/st/'' @ snd si @ ''/'' @ fst si) []))"

definition SetHeartBeat :: "string \<times> string \<Rightarrow> string \<Rightarrow> unit zprog" where
  "SetHeartBeat m counter =
     zthen (touch ''/hb'' []) (zthen (touch (''/hb/'' @ fst m) []) (zk_Set (''/hb/'' @ fst m) counter))"

text \<open>The role is not used.\<close>

definition RegisterHeartBeat :: "string \<times> string \<Rightarrow> bool \<Rightarrow> unit zprog" where
  "RegisterHeartBeat m master =
     zthen (touch ''/hb'' []) (zthen (touch (''/hb/'' @ fst m) []) (zk_Set (''/hb/'' @ fst m) ''0''))"

definition SetChain :: "string \<times> string list \<Rightarrow> unit zprog" where
  "SetChain tp =
     zthen (touch ''/msc'' []) (zthen (touch (''/msc/'' @ fst tp) [])
       (zeach (\<lambda>s. touch (''/msc/'' @ fst tp @ ''/'' @ s) []) (snd tp)))"

definition SetPhysicalMap_old :: "(string \<times> string list) list \<Rightarrow> unit zprog" where
  "SetPhysicalMap_old m = zthen (touch ''/con-map'' []) (zeach (\<lambda>(proxy, dumbnodes).
     zthen (touch (''/con-map/'' @ proxy) []) (zeach (\<lambda>d. touch (''/con-map/'' @ proxy @ ''/'' @ d) []) dumbnodes)) m)"

definition SetLogicalTop_old :: "(string \<times> string list) list \<Rightarrow> unit zprog" where
  "SetLogicalTop_old tp = zthen (touch ''/con-top'' []) (zeach (\<lambda>(master, slaves).
     zthen (touch (''/con-top/'' @ master) []) (zeach (\<lambda>s. touch (''/con-top/'' @ master @ ''/'' @ s) []) slaves)) tp)"

text \<open>std::string::compare is 0, which is false, for equal strings.\<close>

definition isMaster :: "string \<Rightarrow> string \<Rightarrow> bool zprog" where
  "isMaster proxy dumbnode = zbind (zk_Get (''/con-map/'' @ proxy @ ''/'' @ dumbnode)) (\<lambda>master. Ret (master \<noteq> ''M''))"

definition GetAllMastersFromMap :: "string list zprog" where
  "GetAllMastersFromMap = zbind (GetDumbNodesAll True) (zcollect (\<lambda>i. zbind (zk_Get i) (\<lambda>m. Ret (if m \<noteq> ''M'' then [i] else []))))"

definition GetAllSlavesFromMap :: "string list zprog" where
  "GetAllSlavesFromMap = zbind (GetDumbNodesAll True) (zcollect (\<lambda>i. zbind (zk_Get i) (\<lambda>m. Ret (if m = ''M'' then [i] else []))))"

section \<open>Registration of a proxy\<close>

text \<open>The members and variables that main of server.cpp fills in from the table of datalets.\<close>

record registration =
  rg_map :: "string \<times> string"
  rg_shard :: "string \<times> string"
  rg_chain :: "string \<times> string list"

definition no_registration :: registration where
  "no_registration = \<lparr>rg_map = ([], []), rg_shard = ([], []), rg_chain = ([], [])\<rparr>"

definition endpoint :: "string \<Rightarrow> int \<Rightarrow> string" where
  "endpoint addr port = c_chars addr @ '':'' @ dec_int port"

definition own_entry :: "string \<Rightarrow> int \<Rightarrow> string \<Rightarrow> DumbNode \<Rightarrow> registration \<Rightarrow> registration" where
  "own_entry addr port topic nd g = g\<lparr>rg_map := (endpoint addr port, endpoint (n_addr nd) (n_port nd)), rg_shard := (endpoint addr port, topic)\<rparr>"

definition ms_entry :: "string \<Rightarrow> int \<Rightarrow> string \<Rightarrow> registration \<Rightarrow> string \<times> DumbNode \<Rightarrow> registration" where
  "ms_entry addr port topic g e =
     (let nd = snd e; ep = endpoint (n_addr nd) (n_port nd) in
      if n_role nd = Master_t then own_entry addr port topic nd g\<lparr>rg_chain := (ep, snd (rg_chain g))\<rparr>
      else g\<lparr>rg_chain := (fst (rg_chain g), snd (rg_chain g) @ [ep])\<rparr>)"

definition role_entry :: "replica_role_t \<Rightarrow> string \<Rightarrow> int \<Rightarrow> string \<Rightarrow> registration \<Rightarrow> string \<times> DumbNode \<Rightarrow> registration" where
  "role_entry role addr port topic g e = (if n_role (snd e) = role then own_entry addr port topic (snd e) g else g)"

definition register_own :: "registration \<Rightarrow> bool \<Rightarrow> unit zprog" where
  "register_own g master =
     zthen (SetPhysicalMap (rg_map g) master)
    (zthen (SetReversePhysicalMap (rg_map g) master)
    (zthen (SetShardInfo (rg_shard g))
    (zthen (SetShardTop (rg_shard g))
           (RegisterHeartBeat (rg_map g) master))))"

text \<open>The loop of the topologies in which every datalet must be a master and is registered at once.\<close>

fun register_masters :: "string \<Rightarrow> int \<Rightarrow> string \<Rightarrow> (string \<times> DumbNode) list \<Rightarrow> registration \<Rightarrow> registration zprog" where
  "register_masters addr port topic [] g = Ret g"
| "register_masters addr port topic (e # es) g =
     (if n_role (snd e) = Master_t
      then let g' = own_entry addr port topic (snd e) g in zthen (register_own g' True) (register_masters addr port topic es g')
      else Die Check_failed)"

definition server_register :: "string \<Rightarrow> int \<Rightarrow> proxy \<Rightarrow> registration zprog" where
  "server_register addr port p =
     (case topology p of
        Ms \<Rightarrow> let g = foldl (ms_entry addr port (kafka_topic p)) no_registration (dumb_map p)
              in zthen (register_own g True) (zthen (SetChain (rg_chain g)) (Ret g))
      | Slave \<Rightarrow> let g = foldl (role_entry Slave_t addr port (kafka_topic p)) no_registration (dumb_map p)
              in if length (dumb_map p) < 2 then zthen (register_own g False) (Ret g) else Die Check_failed
      | Aa \<Rightarrow>
          (case consistency_model p of
             Eventual \<Rightarrow> register_masters addr port (kafka_topic p) (dumb_map p) no_registration
           | Strong \<Rightarrow> let g = foldl (role_entry Master_t addr port (kafka_topic p)) no_registration (dumb_map p)
                in zthen (register_own g True) (Ret g)
           | Without \<Rightarrow> Ret no_registration)
      | No \<Rightarrow> register_masters addr port (kafka_topic p) (dumb_map p) no_registration)"

section \<open>Paths\<close>

lemma zparent_child: "zname a \<Longrightarrow> zparent (p @ CHR ''/'' # a) = p"
proof -
  assume "zname a"
  then have "dropWhile (\<lambda>c. c \<noteq> CHR ''/'') (rev a @ CHR ''/'' # rev p) = CHR ''/'' # rev p"
    by (subst dropWhile_append2) (auto simp: zname_def)
  then show ?thesis by (simp add: zparent_def)
qed

lemma good_path1: "zname a \<Longrightarrow> good_path (CHR ''/'' # a)"
  unfolding good_path_def by (rule exI [of _ "[a]"]) (simp add: zpath_def)

lemma good_path_child: "good_path p \<Longrightarrow> zname a \<Longrightarrow> good_path (p @ CHR ''/'' # a)"
  unfolding good_path_def by (elim exE conjE, rename_tac as, rule_tac x = "as @ [a]" in exI) (simp add: zpath_def)

lemma good_path2: "zname a \<Longrightarrow> zname b \<Longrightarrow> good_path (CHR ''/'' # a @ CHR ''/'' # b)"
  using good_path_child [OF good_path1] by simp

lemma good_path3: "zname a \<Longrightarrow> zname b \<Longrightarrow> zname c \<Longrightarrow> good_path (CHR ''/'' # a @ CHR ''/'' # b @ CHR ''/'' # c)"
  using good_path_child [OF good_path2] by simp

lemma zparent1: "zname a \<Longrightarrow> zparent (CHR ''/'' # a) = []"
  using zparent_child [of a "[]"] by simp

lemma zparent2: "zname b \<Longrightarrow> zparent (CHR ''/'' # a @ CHR ''/'' # b) = CHR ''/'' # a"
  using zparent_child [of b "CHR ''/'' # a"] by simp

lemma zparent3: "zname c \<Longrightarrow> zparent (CHR ''/'' # a @ CHR ''/'' # b @ CHR ''/'' # c) = CHR ''/'' # a @ CHR ''/'' # b"
  using zparent_child [of c "CHR ''/'' # a @ CHR ''/'' # b"] by simp

section \<open>Programs that only add\<close>

lemma zrun_bind: "zrun srv (zbind p f) z = (case zrun srv p z of (Z_returned x, z') \<Rightarrow> zrun srv (f x) z' | (Z_threw c, z') \<Rightarrow> (Z_threw c, z') | (Z_died e, z') \<Rightarrow> (Z_died e, z'))"
  by (induction p arbitrary: z) auto

text \<open>
  t' is t after updates U: a path with None is there, with Some v it has the data v, and all other
  paths are as before. A program adds to U, from any state of the service.
\<close>

definition updated :: "ztree \<Rightarrow> (string \<times> string option) list \<Rightarrow> ztree \<Rightarrow> bool" where
  "updated t U t' \<longleftrightarrow>
     (\<forall>q. q \<notin> fst ` set U \<longrightarrow> t' q = t q) \<and> (\<forall>q. t q \<noteq> None \<longrightarrow> t' q \<noteq> None) \<and>
     (\<forall>(q, d)\<in>set U. \<exists>x. t' q = Some x \<and> (\<forall>v. d = Some v \<longrightarrow> z_data x = v))"

definition adds :: "('z \<Rightarrow> ztree) \<Rightarrow> ('z \<Rightarrow> zreq \<Rightarrow> 'z \<times> zreply) \<Rightarrow> ztree \<Rightarrow> (string \<times> string option) list \<Rightarrow> 'a zprog \<Rightarrow> (string \<times> string option) list \<Rightarrow> bool" where
  "adds tree srv t U p V \<longleftrightarrow>
     (\<forall>z. updated t U (tree z) \<longrightarrow> (\<exists>x z'. zrun srv p z = (Z_returned x, z') \<and> updated t (U @ V) (tree z')))"

lemma adds_then: "adds tree srv t U p V \<Longrightarrow> adds tree srv t (U @ V) q W \<Longrightarrow> adds tree srv t U (zthen p q) (V @ W)"
  unfolding adds_def zthen_def by (fastforce simp: zrun_bind)

lemma adds_Ret: "adds tree srv t U (Ret x) []"
  by (simp add: adds_def)

lemma adds_touch:
  assumes "zk_ok tree srv" "good_path p" "zparent p = [] \<or> zparent p \<in> fst ` set U"
  shows "adds tree srv t U (touch p v) [(p, None)]"
  unfolding adds_def
proof (intro allI impI)
  fix z assume u: "updated t U (tree z)"
  obtain z' r where s: "srv z (Q_create p v 0) = (z', r)" by (cases "srv z (Q_create p v 0)")
  have "zk_effect (tree z) (Q_create p v 0) (tree z') r" using assms(1) s unfolding zk_ok_def by (metis fst_conv snd_conv)
  moreover have "parent_there (tree z) p" using u assms(3) unfolding updated_def parent_there_def by fastforce
  ultimately have e: "rc r = ZNODEEXISTS \<and> tree z' = tree z \<and> tree z p \<noteq> None \<or>
      rc r = ZOK \<and> tree z p = None \<and> tree z' = (tree z)(p \<mapsto> \<lparr>z_data = v, z_version = 0, z_seq = None\<rparr>)"
    using assms(2) by (auto split: if_splits)
  then have "\<exists>x. zrun srv (touch p v) z = (Z_returned x, z')"
    by (auto simp: touch_def zk_CreateIfNotExists_def s CHECK_ZOOCODE_AND_THROW_def)
  moreover have "updated t (U @ [(p, None)]) (tree z')" using e u unfolding updated_def by fastforce
  ultimately show "\<exists>x z'. zrun srv (touch p v) z = (Z_returned x, z') \<and> updated t (U @ [(p, None)]) (tree z')" by blast
qed

lemma adds_Set:
  assumes "zk_ok tree srv" "p \<in> fst ` set U" "\<forall>w. (p, Some w) \<in> set U \<longrightarrow> w = v"
  shows "adds tree srv t U (zk_Set p v) [(p, Some v)]"
  unfolding adds_def
proof (intro allI impI)
  fix z assume u: "updated t U (tree z)"
  obtain x where x: "tree z p = Some x" using u assms(2) unfolding updated_def by fastforce
  obtain z1 r1 where s1: "srv z (Q_exists p) = (z1, r1)" by (cases "srv z (Q_exists p)")
  have "zk_effect (tree z) (Q_exists p) (tree z1) r1" using assms(1) s1 unfolding zk_ok_def by (metis fst_conv snd_conv)
  then have e1: "tree z1 = tree z" "rc r1 = ZOK" "st_version (r_stat r1) = z_version x" using x by auto
  let ?q = "Q_set p v (st_version (r_stat r1))"
  obtain z' r where s: "srv z1 ?q = (z', r)" by (cases "srv z1 ?q")
  have "zk_effect (tree z1) ?q (tree z') r" using assms(1) s unfolding zk_ok_def by (metis fst_conv snd_conv)
  then have e: "rc r = ZOK" "tree z' = (tree z)(p \<mapsto> x\<lparr>z_data := v, z_version := z_version x + 1\<rparr>)" using x e1 by auto
  have "zrun srv (zk_Set p v) z = (Z_returned (), z')"
    by (simp add: zk_Set_def zk_Stat_def s1 CHECK_ZOOCODE_AND_THROW_def e1(2) e(1) s)
  moreover have "updated t (U @ [(p, Some v)]) (tree z')" using e(2) u assms(3) unfolding updated_def by fastforce
  ultimately show "\<exists>x z'. zrun srv (zk_Set p v) z = (Z_returned x, z') \<and> updated t (U @ [(p, Some v)]) (tree z')" by blast
qed

section \<open>What a registration adds\<close>

definition map_updates :: "string \<times> string \<Rightarrow> bool \<Rightarrow> (string \<times> string option) list" where
  "map_updates m master =
     [(''/pm'', None), (''/pm/'' @ fst m, None), (''/pm/'' @ fst m @ ''/'' @ snd m, None), (''/pm/'' @ fst m @ ''/'' @ snd m, Some (role_text master))]"

definition reverse_updates :: "string \<times> string \<Rightarrow> bool \<Rightarrow> (string \<times> string option) list" where
  "reverse_updates m master =
     [(''/rpm'', None), (''/rpm/'' @ snd m, None), (''/rpm/'' @ snd m, Some (role_text master)), (''/rpm/'' @ snd m @ ''/'' @ fst m, None)]"

definition shard_updates :: "string \<times> string \<Rightarrow> (string \<times> string option) list" where
  "shard_updates si =
     [(''/si'', None), (''/si/'' @ fst si, None), (''/si/'' @ fst si @ ''/'' @ snd si, None),
      (''/st'', None), (''/st/'' @ snd si, None), (''/st/'' @ snd si @ ''/'' @ fst si, None)]"

definition beat_updates :: "string \<times> string \<Rightarrow> string \<Rightarrow> (string \<times> string option) list" where
  "beat_updates m counter = [(''/hb'', None), (''/hb/'' @ fst m, None), (''/hb/'' @ fst m, Some counter)]"

definition chain_updates :: "string \<times> string list \<Rightarrow> (string \<times> string option) list" where
  "chain_updates tp = [(''/msc'', None), (''/msc/'' @ fst tp, None)] @ map (\<lambda>s. (''/msc/'' @ fst tp @ ''/'' @ s, None)) (snd tp)"

lemma zname_tops: "zname ''pm''" "zname ''rpm''" "zname ''si''" "zname ''st''" "zname ''hb''" "zname ''msc''"
  by (simp_all add: zname_def)

lemmas path_facts = good_path1 good_path2 good_path3 zparent1 zparent2 zparent3

text \<open>Two and three levels below the root.\<close>

lemma adds_touch1: "zk_ok tree srv \<Longrightarrow> zname a \<Longrightarrow> adds tree srv t U (touch (CHR ''/'' # a) v) [(CHR ''/'' # a, None)]"
  by (rule adds_touch) (simp_all add: path_facts)

lemma adds_touch2: "zk_ok tree srv \<Longrightarrow> zname a \<Longrightarrow> zname b \<Longrightarrow> CHR ''/'' # a \<in> fst ` set U \<Longrightarrow>
    adds tree srv t U (touch (CHR ''/'' # a @ CHR ''/'' # b) v) [(CHR ''/'' # a @ CHR ''/'' # b, None)]"
  by (rule adds_touch) (simp_all add: path_facts)

lemma adds_touch3: "zk_ok tree srv \<Longrightarrow> zname a \<Longrightarrow> zname b \<Longrightarrow> zname c \<Longrightarrow> CHR ''/'' # a @ CHR ''/'' # b \<in> fst ` set U \<Longrightarrow>
    adds tree srv t U (touch (CHR ''/'' # a @ CHR ''/'' # b @ CHR ''/'' # c) v) [(CHR ''/'' # a @ CHR ''/'' # b @ CHR ''/'' # c, None)]"
  by (rule adds_touch) (simp_all add: path_facts)

lemma adds_Cons: "adds tree srv t U p [e] \<Longrightarrow> adds tree srv t (U @ [e]) q W \<Longrightarrow> adds tree srv t U (zthen p q) (e # W)"
  using adds_then [of tree srv t U p "[e]" q W] by simp

lemmas adds_top = zname_tops [THEN adds_touch1 [rotated]]
lemmas adds_sub = zname_tops [THEN adds_touch2 [rotated], simplified]
lemmas adds_leaf = zname_tops [THEN adds_touch3 [rotated], simplified]
lemmas adds_intros = adds_Cons adds_top adds_sub adds_leaf adds_Set

lemma adds_SetPhysicalMap:
  assumes "zk_ok tree srv" "zname (fst m)" "zname (snd m)" "\<forall>w. (''/pm/'' @ fst m @ ''/'' @ snd m, Some w) \<notin> set U"
  shows "adds tree srv t U (SetPhysicalMap m master) (map_updates m master)"
  by (simp add: SetPhysicalMap_def map_updates_def, intro adds_intros) (use assms in auto)

lemma adds_SetReversePhysicalMap:
  assumes "zk_ok tree srv" "zname (fst m)" "zname (snd m)" "\<forall>w. (''/rpm/'' @ snd m, Some w) \<notin> set U"
  shows "adds tree srv t U (SetReversePhysicalMap m master) (reverse_updates m master)"
  by (simp add: SetReversePhysicalMap_def reverse_updates_def, intro adds_intros) (use assms in auto)

lemma adds_SetShardInfo:
  assumes "zk_ok tree srv" "zname (fst si)" "zname (snd si)"
  shows "adds tree srv t U (SetShardInfo si) (take 3 (shard_updates si))"
  by (simp add: SetShardInfo_def shard_updates_def, intro adds_intros) (use assms in auto)

lemma adds_SetShardTop:
  assumes "zk_ok tree srv" "zname (fst si)" "zname (snd si)"
  shows "adds tree srv t U (SetShardTop si) (drop 3 (shard_updates si))"
  by (simp add: SetShardTop_def shard_updates_def, intro adds_intros) (use assms in auto)

lemma adds_RegisterHeartBeat:
  assumes "zk_ok tree srv" "zname (fst m)" "\<forall>w. (''/hb/'' @ fst m, Some w) \<notin> set U"
  shows "adds tree srv t U (RegisterHeartBeat m master) (beat_updates m ''0'')"
  by (simp add: RegisterHeartBeat_def beat_updates_def, intro adds_intros) (use assms in auto)

lemma adds_slaves:
  assumes "zk_ok tree srv" "zname m" "list_all zname ss" "''/msc/'' @ m \<in> fst ` set U"
  shows "adds tree srv t U (zeach (\<lambda>s. touch (''/msc/'' @ m @ ''/'' @ s) []) ss) (map (\<lambda>s. (''/msc/'' @ m @ ''/'' @ s, None)) ss)"
  using assms(3,4)
proof (induction ss arbitrary: U)
  case (Cons s ss)
  let ?e = "(''/msc/'' @ m @ ''/'' @ s, None)"
  have 1: "adds tree srv t U (touch (''/msc/'' @ m @ ''/'' @ s) []) [?e]"
    using Cons.prems adds_leaf(6) [OF assms(2) _ _ assms(1), where c = s and U = U and t = t and v = "[]"] by simp
  have 2: "adds tree srv t (U @ [?e]) (zeach (\<lambda>s. touch (''/msc/'' @ m @ ''/'' @ s) []) ss) (map (\<lambda>s. (''/msc/'' @ m @ ''/'' @ s, None)) ss)"
    by (rule Cons.IH) (use Cons.prems in auto)
  show ?case unfolding zeach.simps list.map by (rule adds_Cons [OF 1 2])
qed (simp add: adds_Ret)

lemma adds_SetChain:
  assumes "zk_ok tree srv" "zname (fst tp)" "list_all zname (snd tp)"
  shows "adds tree srv t U (SetChain tp) (chain_updates tp)"
proof -
  have 1: "adds tree srv t U (touch ''/msc'' []) [(''/msc'', None)]" by (rule adds_top(6) [OF assms(1)])
  have 2: "adds tree srv t (U @ [(''/msc'', None)]) (touch (''/msc/'' @ fst tp) []) [(''/msc/'' @ fst tp, None)]"
    using adds_sub(6) [OF assms(2) _ assms(1), where U = "U @ [(''/msc'', None)]" and t = t and v = "[]"] by simp
  note 3 = adds_slaves [OF assms, of "(U @ [(''/msc'', None)]) @ [(''/msc/'' @ fst tp, None)]" t]
  show ?thesis using adds_Cons [OF 1 adds_Cons [OF 2 3]] by (simp add: SetChain_def chain_updates_def)
qed

definition own_updates :: "registration \<Rightarrow> bool \<Rightarrow> (string \<times> string option) list" where
  "own_updates g master = map_updates (rg_map g) master @ reverse_updates (rg_map g) master @ shard_updates (rg_shard g) @ beat_updates (rg_map g) ''0''"

lemma adds_register_own:
  assumes "zk_ok tree srv" "zname (fst (rg_map g))" "zname (snd (rg_map g))" "zname (fst (rg_shard g))" "zname (snd (rg_shard g))"
  shows "adds tree srv t [] (register_own g master) (own_updates g master)"
proof -
  let ?m = "map_updates (rg_map g) master" and ?r = "reverse_updates (rg_map g) master" and ?s = "shard_updates (rg_shard g)"
  have 1: "adds tree srv t [] (SetPhysicalMap (rg_map g) master) ?m" by (rule adds_SetPhysicalMap [OF assms(1-3)]) simp
  have 2: "adds tree srv t ([] @ ?m) (SetReversePhysicalMap (rg_map g) master) ?r"
    by (rule adds_SetReversePhysicalMap [OF assms(1-3)]) (simp add: map_updates_def)
  have 5: "adds tree srv t (((([] @ ?m) @ ?r) @ take 3 ?s) @ drop 3 ?s) (RegisterHeartBeat (rg_map g) master) (beat_updates (rg_map g) ''0'')"
    by (rule adds_RegisterHeartBeat [OF assms(1,2)]) (simp add: map_updates_def reverse_updates_def shard_updates_def)
  note 3 = adds_SetShardInfo [OF assms(1,4,5), of t "([] @ ?m) @ ?r"] and 4 = adds_SetShardTop [OF assms(1,4,5), of t "(([] @ ?m) @ ?r) @ take 3 ?s"]
  have td: "take 3 ?s @ drop 3 ?s @ y = ?s @ y" for y by (simp flip: append_assoc)
  show ?thesis using adds_then [OF 1 adds_then [OF 2 adds_then [OF 3 adds_then [OF 4 5]]]] by (simp add: register_own_def own_updates_def td)
qed

lemma adds_register_ms:
  assumes "zk_ok tree srv" "zname (fst (rg_map g))" "zname (snd (rg_map g))" "zname (fst (rg_shard g))" "zname (snd (rg_shard g))" "zname (fst (rg_chain g))" "list_all zname (snd (rg_chain g))"
  shows "\<exists>z'. zrun srv (zthen (register_own g True) (zthen (SetChain (rg_chain g)) (Ret g))) z = (Z_returned g, z') \<and> updated (tree z) (own_updates g True @ chain_updates (rg_chain g)) (tree z')"
proof -
  have "updated (tree z) [] (tree z)" by (simp add: updated_def)
  then obtain z1 where 1: "zrun srv (register_own g True) z = (Z_returned (), z1)" "updated (tree z) (own_updates g True) (tree z1)"
    using adds_register_own [OF assms(1-5)] unfolding adds_def by fastforce
  then obtain z2 where "zrun srv (SetChain (rg_chain g)) z1 = (Z_returned (), z2)" "updated (tree z) (own_updates g True @ chain_updates (rg_chain g)) (tree z2)"
    using adds_SetChain [OF assms(1,6,7)] unfolding adds_def by fastforce
  then show ?thesis using 1 by (simp add: zthen_def zrun_bind)
qed

section \<open>The table of datalets\<close>

definition node_endpoint :: "DumbNode \<Rightarrow> string" where
  "node_endpoint nd = endpoint (n_addr nd) (n_port nd)"

lemma zname_endpoint: "CHR ''/'' \<notin> set addr \<Longrightarrow> zname (endpoint addr port)"
proof -
  assume a: "CHR ''/'' \<notin> set addr"
  have "CHR ''/'' \<notin> set (dec_nat n)" for n using dec_nat_digits [of n] by (auto simp: isdigit_def)
  then show ?thesis using a by (auto simp: endpoint_def zname_def c_chars_def dec_int_def dest: set_takeWhileD)
qed

text \<open>What the loop over the table collects when it has one master.\<close>

lemma ms_entries:
  assumes "filter (\<lambda>e. n_role (snd e) = Master_t) es = [m]"
  shows "foldl (ms_entry addr port topic) g es =
    own_entry addr port topic (snd m) g\<lparr>rg_chain := (node_endpoint (snd m), snd (rg_chain g) @ map (node_endpoint \<circ> snd) (filter (\<lambda>e. n_role (snd e) \<noteq> Master_t) es))\<rparr>"
proof -
  have slaves: "foldl (ms_entry addr port topic) g es = g\<lparr>rg_chain := (fst (rg_chain g), snd (rg_chain g) @ map (node_endpoint \<circ> snd) es)\<rparr>"
    if "\<forall>e\<in>set es. n_role (snd e) \<noteq> Master_t" for g es
    using that by (induction es arbitrary: g) (auto simp: ms_entry_def node_endpoint_def)
  obtain xs ys where es: "es = xs @ m # ys" "\<forall>e\<in>set xs. n_role (snd e) \<noteq> Master_t" "n_role (snd m) = Master_t" "[] = filter (\<lambda>e. n_role (snd e) = Master_t) ys"
    using filter_eq_ConsD [OF assms] by blast
  have ys: "\<forall>e\<in>set ys. n_role (snd e) \<noteq> Master_t" using es(4) [symmetric] by (simp add: filter_empty_conv)
  then have "filter (\<lambda>e. n_role (snd e) \<noteq> Master_t) es = xs @ ys" using es(1-3) by (simp add: filter_id_conv)
  then show ?thesis by (simp add: es(1,3) slaves [OF es(2)] slaves [OF ys] ms_entry_def own_entry_def node_endpoint_def Let_def)
qed

section \<open>An instance\<close>

text \<open>A service with its nodes in a list; sequence numbers go on from zm_base.\<close>

record zmap =
  zm_nodes :: "(string \<times> znode) list"
  zm_base :: nat

definition zm_tree :: "zmap \<Rightarrow> ztree" where
  "zm_tree z = map_of (zm_nodes z)"

fun zm_next :: "nat \<Rightarrow> (string \<times> znode) list \<Rightarrow> nat" where
  "zm_next b [] = b"
| "zm_next b ((p, x) # ns) = max (case z_seq x of None \<Rightarrow> 0 | Some m \<Rightarrow> Suc m) (zm_next b ns)"

definition zm_reply :: "zcode \<Rightarrow> zreply" where
  "zm_reply c = \<lparr>rc = c, r_text = [], r_stat = \<lparr>st_version = 0, st_dataLength = 0\<rparr>, r_children = []\<rparr>"

definition zm_put :: "string \<Rightarrow> znode \<Rightarrow> zmap \<Rightarrow> zmap" where
  "zm_put p x z = z\<lparr>zm_nodes := (p, x) # zm_nodes z\<rparr>"

definition zm_names :: "string \<Rightarrow> zmap \<Rightarrow> string list" where
  "zm_names p z = filter zname (map (drop (Suc (length p))) (remdups (filter (\<lambda>q. take (Suc (length p)) q = p @ ''/'') (map fst (zm_nodes z)))))"

definition zm_bad :: "zmap \<Rightarrow> zcode \<Rightarrow> zmap \<times> zreply" where
  "zm_bad z c = (z, zm_reply c)"

fun zk_map :: "zmap \<Rightarrow> zreq \<Rightarrow> zmap \<times> zreply" where
  "zk_map z (Q_create p v flag) =
     (let n = zm_next (zm_base z) (zm_nodes z); q = (if flag = 0 then p else p @ seq_suffix n) in
      if \<not> good_path p then zm_bad z (Zcode (-8))
      else if flag \<noteq> 0 \<and> \<not> parent_there (zm_tree z) p then zm_bad z ZNONODE
      else if zm_tree z q \<noteq> None then zm_bad z ZNODEEXISTS
      else if \<not> parent_there (zm_tree z) p then zm_bad z ZNONODE
      else (zm_put q \<lparr>z_data = v, z_version = 0, z_seq = (if flag = 0 then None else Some n)\<rparr> z, (zm_reply ZOK)\<lparr>r_text := q\<rparr>))"
| "zk_map z (Q_exists p) =
     (case zm_tree z p of None \<Rightarrow> zm_bad z (if good_path p then ZNONODE else Zcode (-8))
      | Some x \<Rightarrow> (z, (zm_reply ZOK)\<lparr>r_stat := \<lparr>st_version = z_version x, st_dataLength = length (z_data x)\<rparr>\<rparr>))"
| "zk_map z (Q_delete p ver) =
     (case zm_tree z p of None \<Rightarrow> zm_bad z ZNONODE
      | Some x \<Rightarrow>
          if ver \<noteq> -1 \<and> ver \<noteq> z_version x then zm_bad z ZBADVERSION
          else if list_ex (\<lambda>(q, x). zparent q = p) (zm_nodes z) then zm_bad z ZNOTEMPTY
          else (z\<lparr>zm_nodes := filter (\<lambda>(q, x). q \<noteq> p) (zm_nodes z)\<rparr>, zm_reply ZOK))"
| "zk_map z (Q_get p len) =
     (case zm_tree z p of None \<Rightarrow> zm_bad z ZNONODE | Some x \<Rightarrow> (z, (zm_reply ZOK)\<lparr>r_text := take len (z_data x)\<rparr>))"
| "zk_map z (Q_set p v ver) =
     (case zm_tree z p of None \<Rightarrow> zm_bad z ZNONODE
      | Some x \<Rightarrow>
          if ver \<noteq> -1 \<and> ver \<noteq> z_version x then zm_bad z ZBADVERSION
          else (zm_put p (x\<lparr>z_data := v, z_version := z_version x + 1\<rparr>) z, zm_reply ZOK))"
| "zk_map z (Q_children p) =
     (case zm_tree z p of None \<Rightarrow> zm_bad z ZNONODE | Some x \<Rightarrow> (z, (zm_reply ZOK)\<lparr>r_children := zm_names p z\<rparr>))"

lemma zm_next_bound: "(p, x) \<in> set ns \<Longrightarrow> z_seq x = Some m \<Longrightarrow> m < zm_next b ns"
  by (induction ns) (auto simp: less_max_iff_disj)

lemma zm_names_set: "set (zm_names p z) = {a. zname a \<and> zm_tree z (p @ CHR ''/'' # a) \<noteq> None}"
proof -
  have "a \<in> drop (Suc (length p)) ` {q \<in> fst ` set ns. take (Suc (length p)) q = p @ ''/''} \<longleftrightarrow> p @ CHR ''/'' # a \<in> fst ` set ns" for a and ns :: "(string \<times> znode) list"
  proof
    assume "a \<in> drop (Suc (length p)) ` {q \<in> fst ` set ns. take (Suc (length p)) q = p @ ''/''}"
    then obtain q where q: "q \<in> fst ` set ns" "take (Suc (length p)) q = p @ ''/''" "a = drop (Suc (length p)) q" by blast
    have "q = p @ CHR ''/'' # a" using append_take_drop_id [of "Suc (length p)" q] q(2,3) by simp
    then show "p @ CHR ''/'' # a \<in> fst ` set ns" using q(1) by simp
  qed (force intro: image_eqI [of _ _ "p @ CHR ''/'' # a"])
  then show ?thesis by (auto simp: zm_names_def zm_tree_def map_of_eq_None_iff)
qed

lemma zm_names_distinct: "distinct (zm_names p z)"
proof -
  have "inj_on (drop (Suc (length p))) {q. take (Suc (length p)) q = p @ ''/''}"
  proof (rule inj_onI)
    fix q r assume "q \<in> {q. take (Suc (length p)) q = p @ ''/''}" "r \<in> {q. take (Suc (length p)) q = p @ ''/''}" "drop (Suc (length p)) q = drop (Suc (length p)) r"
    then show "q = r" using append_take_drop_id [of "Suc (length p)" q] append_take_drop_id [of "Suc (length p)" r] by simp
  qed
  then show ?thesis unfolding zm_names_def by (intro distinct_filter) (auto simp: distinct_map intro: inj_on_subset)
qed

lemma zm_drop: "zm_tree (z\<lparr>zm_nodes := filter (\<lambda>(q, x). q \<noteq> p) (zm_nodes z)\<rparr>) = (zm_tree z)(p := None)"
proof -
  have "map_of (filter (\<lambda>(q, x). q \<noteq> p) ns) = (map_of ns)(p := None)" for ns :: "(string \<times> znode) list"
    by (induction ns) (auto simp: fun_eq_iff)
  then show ?thesis by (simp add: zm_tree_def)
qed

lemma zm_has_child: "list_ex (\<lambda>(q, x). zparent q = p) (zm_nodes z) \<longleftrightarrow> (\<exists>q. zm_tree z q \<noteq> None \<and> zparent q = p)"
  by (force simp: list_ex_iff zm_tree_def map_of_eq_None_iff)

lemma zm_next_fresh: "zm_tree z q = Some x \<Longrightarrow> z_seq x = Some m \<Longrightarrow> m < zm_next (zm_base z) (zm_nodes z)"
  unfolding zm_tree_def by (drule map_of_SomeD) (rule zm_next_bound)

lemma zm_put_tree: "zm_tree (zm_put p x z) = (zm_tree z)(p \<mapsto> x)"
  by (simp add: zm_put_def zm_tree_def)

lemma zk_map_ok: "zk_ok zm_tree zk_map"
  unfolding zk_ok_def
proof (intro allI)
  fix z q
  show "zk_effect (zm_tree z) q (zm_tree (fst (zk_map z q))) (snd (zk_map z q))"
  proof (cases q)
    case (Q_create p v flag)
    then show ?thesis using zm_next_fresh [of z]
      by (auto simp: Let_def zm_bad_def zm_reply_def zm_put_tree intro!: exI [of _ "zm_next (zm_base z) (zm_nodes z)"])
  next
    case (Q_delete p ver)
    then show ?thesis by (cases "zm_tree z p") (simp_all add: zm_bad_def zm_reply_def zm_has_child zm_drop, metis option.distinct(1))
  qed (auto simp: zm_bad_def zm_reply_def zm_put_tree zm_names_set zm_names_distinct split: option.splits)
qed

section \<open>Properties\<close>

definition registered :: "ztree \<Rightarrow> string \<Rightarrow> string \<Rightarrow> string \<Rightarrow> string list \<Rightarrow> bool" where
  "registered t me master topic slaves \<longleftrightarrow>
     map_option z_data (t (''/pm/'' @ me @ ''/'' @ master)) = Some ''master'' \<and>
     map_option z_data (t (''/rpm/'' @ master)) = Some ''master'' \<and> t (''/rpm/'' @ master @ ''/'' @ me) \<noteq> None \<and>
     t (''/si/'' @ me @ ''/'' @ topic) \<noteq> None \<and> t (''/st/'' @ topic @ ''/'' @ me) \<noteq> None \<and>
     map_option z_data (t (''/hb/'' @ me)) = Some ''0'' \<and> (\<forall>s\<in>set slaves. t (''/msc/'' @ master @ ''/'' @ s) \<noteq> None)"

lemma updated_data: "updated t U t' \<Longrightarrow> (q, Some v) \<in> set U \<Longrightarrow> map_option z_data (t' q) = Some v"
  unfolding updated_def by fastforce

lemma updated_there: "updated t U t' \<Longrightarrow> (q, d) \<in> set U \<Longrightarrow> t' q \<noteq> None"
  unfolding updated_def by fastforce

lemma updated_registered:
  assumes "updated t (own_updates g True @ chain_updates (rg_chain g)) t'" "rg_map g = (me, m)" "rg_shard g = (me, topic)" "rg_chain g = (m, ss)"
  shows "registered t' me m topic ss"
proof -
  note d = updated_data [OF assms(1)] and i = updated_there [OF assms(1)]
  note defs = own_updates_def chain_updates_def map_updates_def reverse_updates_def shard_updates_def beat_updates_def role_text_def assms(2-4)
  have "map_option z_data (t' (''/pm/'' @ me @ ''/'' @ m)) = Some ''master''" by (rule d) (simp add: defs)
  moreover have "map_option z_data (t' (''/rpm/'' @ m)) = Some ''master''" by (rule d) (simp add: defs)
  moreover have "map_option z_data (t' (''/hb/'' @ me)) = Some ''0''" by (rule d) (simp add: defs)
  moreover have "t' (''/rpm/'' @ m @ ''/'' @ me) \<noteq> None" by (rule i [of _ None]) (simp add: defs)
  moreover have "t' (''/si/'' @ me @ ''/'' @ topic) \<noteq> None" by (rule i [of _ None]) (simp add: defs)
  moreover have "t' (''/st/'' @ topic @ ''/'' @ me) \<noteq> None" by (rule i [of _ None]) (simp add: defs)
  moreover have "t' (''/msc/'' @ m @ ''/'' @ s) \<noteq> None" if "s \<in> set ss" for s by (rule i [of _ None]) (use that in \<open>simp add: defs\<close>)
  ultimately show ?thesis by (simp add: registered_def)
qed

text \<open>C11: registration with the M-S topology: whatever is in the tree, a proxy whose table has one master registers without an exception; afterwards the tree has its role, its shard, its heartbeat and the chain of the master to all slaves, no node was lost, and only nodes of this registration were added or changed.\<close>

theorem registration_visible:
  assumes "zk_ok tree srv" "topology p = Ms" "filter (\<lambda>e. n_role (snd e) = Master_t) (dumb_map p) = [m]"
    "\<forall>e\<in>set (dumb_map p). CHR ''/'' \<notin> set (n_addr (snd e))" "CHR ''/'' \<notin> set addr" "zname (kafka_topic p)"
  shows "\<exists>g z'. zrun srv (server_register addr port p) z = (Z_returned g, z') \<and> rg_map g = (endpoint addr port, node_endpoint (snd m)) \<and>
    registered (tree z') (endpoint addr port) (node_endpoint (snd m)) (kafka_topic p) (map (node_endpoint \<circ> snd) (filter (\<lambda>e. n_role (snd e) \<noteq> Master_t) (dumb_map p))) \<and>
    (\<forall>q. tree z q \<noteq> None \<longrightarrow> tree z' q \<noteq> None) \<and> (\<forall>q. tree z' q \<noteq> tree z q \<longrightarrow> q \<in> fst ` set (own_updates g True @ chain_updates (rg_chain g)))"
proof -
  define ss where "ss = map (node_endpoint \<circ> snd) (filter (\<lambda>e. n_role (snd e) \<noteq> Master_t) (dumb_map p))"
  define g where "g = foldl (ms_entry addr port (kafka_topic p)) no_registration (dumb_map p)"
  have g: "rg_map g = (endpoint addr port, node_endpoint (snd m))" "rg_shard g = (endpoint addr port, kafka_topic p)" "rg_chain g = (node_endpoint (snd m), ss)"
    unfolding g_def ms_entries [OF assms(3)] by (simp_all add: own_entry_def no_registration_def node_endpoint_def ss_def)
  have m: "m \<in> set (dumb_map p)" using arg_cong [OF assms(3), of set] by auto
  have ne: "zname (node_endpoint (snd e))" if "e \<in> set (dumb_map p)" for e
    unfolding node_endpoint_def by (rule zname_endpoint) (use that assms(4) in blast)
  have ss: "list_all zname ss" unfolding ss_def list_all_iff using ne by simp
  obtain z' where z': "zrun srv (zthen (register_own g True) (zthen (SetChain (rg_chain g)) (Ret g))) z = (Z_returned g, z')" "updated (tree z) (own_updates g True @ chain_updates (rg_chain g)) (tree z')"
    using adds_register_ms [OF assms(1), of g z] g ne [OF m] zname_endpoint [OF assms(5)] ss assms(6) by (metis fst_conv snd_conv)
  have "zrun srv (server_register addr port p) z = (Z_returned g, z')" using z'(1) by (simp add: server_register_def assms(2) g_def Let_def)
  moreover have "registered (tree z') (endpoint addr port) (node_endpoint (snd m)) (kafka_topic p) ss" by (rule updated_registered [OF z'(2) g])
  moreover have "\<forall>q. tree z q \<noteq> None \<longrightarrow> tree z' q \<noteq> None" "\<forall>q. tree z' q \<noteq> tree z q \<longrightarrow> q \<in> fst ` set (own_updates g True @ chain_updates (rg_chain g))"
    using z'(2) unfolding updated_def by blast+
  ultimately show ?thesis unfolding ss_def using g(1) by blast
qed

definition demo_table :: proxy where
  "demo_table = blank_proxy\<lparr>topology := Ms, kafka_topic := ''s1'', dumb_map := [(''a:1'', \<lparr>n_addr = ''a'', n_port = 1, n_weight = 1, n_role = Master_t\<rparr>),
     (''b:2'', \<lparr>n_addr = ''b'', n_port = 2, n_weight = 1, n_role = Slave_t\<rparr>)]\<rparr>"

lemma demo_endpoints: "endpoint ''p'' 3 = ''p:3''" "endpoint ''a'' 1 = ''a:1''" "endpoint ''b'' 2 = ''b:2''"
  by code_simp+

theorem registration_visible_witness:
  "\<exists>g z'. zrun zk_map (server_register ''p'' 3 demo_table) \<lparr>zm_nodes = [], zm_base = 0\<rparr> = (Z_returned g, z') \<and> registered (zm_tree z') ''p:3'' ''a:1'' ''s1'' [''b:2'']"
  using registration_visible [OF zk_map_ok, of demo_table "(''a:1'', \<lparr>n_addr = ''a'', n_port = 1, n_weight = 1, n_role = Master_t\<rparr>)" "''p''" 3 "\<lparr>zm_nodes = [], zm_base = 0\<rparr>"]
  by (auto simp: demo_table_def zname_def node_endpoint_def demo_endpoints)

end
