(* ===== verification/Zk_Lock.thy ===== *)
theory Zk_Lock
  imports Zookeeper
begin

text \<open>
  The locks of src/src/co_zk.cpp: Lock puts a sequence node below the node of the resource and waits
  until no earlier one is in its way, Unlock removes it and, after the last one, the node of the
  resource. The calls of several clients interleave request by request, replies can be lost and
  sessions can expire. A writer is shown to exclude every other holder while the numbers have at
  most eight digits; beyond that two writers get in, and an Unlock can throw when another client comes.
\<close>

section \<open>Lock and Unlock\<close>

text \<open>atoi of the last k characters; substr throws when there are fewer.\<close>

definition tail_num :: "nat \<Rightarrow> string \<Rightarrow> int option" where
  "tail_num k s = (if length s < k then None else Some (atoi (drop (length s - k) s)))"

text \<open>
  The loop at write_label and read_label: lock_scan lists the children, lock_check goes through
  them and lock_wait asks for one until it is gone. The fuel counts the requests; a call that waits
  longer diverges.
\<close>

function lock_scan :: "nat \<Rightarrow> string \<Rightarrow> bool \<Rightarrow> string \<Rightarrow> int \<Rightarrow> string zprog"
  and lock_check :: "nat \<Rightarrow> string \<Rightarrow> bool \<Rightarrow> string \<Rightarrow> int \<Rightarrow> string list \<Rightarrow> string zprog"
  and lock_wait :: "nat \<Rightarrow> string \<Rightarrow> bool \<Rightarrow> string \<Rightarrow> int \<Rightarrow> string \<Rightarrow> string zprog" where
  "lock_scan 0 guid rw req i = Die Diverges"
| "lock_scan (Suc f) guid rw req i =
     zbind (zk_GetChildren guid) (\<lambda>children. if length children > 1 then lock_check f guid rw req i children else Ret req)"
| "lock_check f guid rw req i [] = Ret req"
| "lock_check f guid rw req i (a # children) =
     (if \<not> rw \<and> hd a = CHR ''r'' then lock_check f guid rw req i children
      else case tail_num 10 a of
             None \<Rightarrow> Die Out_of_range
           | Some child_id \<Rightarrow> if i > child_id then lock_wait f guid rw req i a else lock_check f guid rw req i children)"
| "lock_wait 0 guid rw req i a = Die Diverges"
| "lock_wait (Suc f) guid rw req i a =
     zbind (zk_Exists (guid @ CHR ''/'' # a)) (\<lambda>st. if st = None then lock_scan f guid rw req i else lock_wait f guid rw req i a)"
  by pat_completeness auto
termination
  by (relation "measures [(\<lambda>x. case x of Inl (f, _) \<Rightarrow> f | Inr (Inl (f, _)) \<Rightarrow> f | Inr (Inr (f, _)) \<Rightarrow> f),
      (\<lambda>x. case x of Inl _ \<Rightarrow> 0 | Inr (Inl (f, guid, rw, req, i, as)) \<Rightarrow> Suc (length as) | Inr (Inr _) \<Rightarrow> 0)]") auto

definition zk_Lock :: "nat \<Rightarrow> string \<Rightarrow> bool \<Rightarrow> string zprog" where
  "zk_Lock f path rw =
     zbind (zk_CreateIfNotExists path [] 0) (\<lambda>guid.
     zbind (zk_CreateIfNotExists (path @ (if rw then ''/w'' else ''/r'')) [] (ZOO_EPHEMERAL + ZOO_SEQUENCE)) (\<lambda>req_id.
     case tail_num 8 req_id of None \<Rightarrow> Die Out_of_range | Some i \<Rightarrow> lock_scan f guid rw req_id i))"

text \<open>The length of a substring is unsigned, so that of a short path is taken whole.\<close>

definition zk_Unlock :: "string \<Rightarrow> unit zprog" where
  "zk_Unlock path =
     (let key = (if length path < 12 then path else take (length path - 12) path) in
      zbind (zk_GetChildren key) (\<lambda>children.
        if length children > 1 then zk_DeleteIfExists path else zthen (zk_DeleteIfExists path) (zk_DeleteIfExists key)))"

section \<open>Numbers of sequence nodes\<close>

lemma seq_digits: "\<forall>c\<in>set (seq_suffix n). isdigit c"
  using dec_nat_digits [of n] by (auto simp: seq_suffix_def isdigit_def)

lemma seq_length: "n < 10 ^ 10 \<Longrightarrow> length (seq_suffix n) = 10"
  using length_dec_nat [of n 10] by (simp add: seq_suffix_def)

lemma digits_val_zeros: "digits_val (replicate k CHR ''0'' @ ds) = digits_val ds"
proof -
  have "foldl (\<lambda>v c. 10 * v + digit_val c) 0 (replicate k CHR ''0'') = 0" by (induction k) (auto simp: digit_val_def)
  then show ?thesis by (simp add: digits_val_def)
qed

lemma atoi_digits:
  assumes "ds \<noteq> []" "\<forall>c\<in>set ds. isdigit c" "digits_val ds < 2 ^ 31"
  shows "atoi ds = int (digits_val ds)"
proof -
  obtain c cs where c: "ds = c # cs" "isdigit c" using assms(1,2) by (cases ds) auto
  then have "\<not> isspace c" "c \<noteq> CHR ''-''" "c \<noteq> CHR ''+''" by (auto simp: isdigit_not_isspace) (auto simp: isdigit_def)
  moreover have tw: "takeWhile isdigit cs = cs" "dropWhile isdigit cs = []" using c(1) assms(2) by (simp_all add: takeWhile_eq_all_conv)
  ultimately have "strtol_body (dropWhile isspace ds) = Some (int (digits_val ds), [])"
    using c by (simp add: strtol_body_def tw)
  moreover have "clamp_long (int (digits_val ds)) = int (digits_val ds)" using assms(3) by (simp add: clamp_long_def LONG_MAX_def LONG_MIN_def)
  moreover have "to_int32 (int (digits_val ds)) = int (digits_val ds)" using assms(3) by (intro to_int32_id) simp_all
  ultimately show ?thesis by (simp add: atoi_def strtol_def)
qed

lemma tail_num_10: "n < 2 ^ 31 \<Longrightarrow> tail_num 10 (p @ seq_suffix n) = Some (int n)"
proof -
  assume n: "n < 2 ^ 31"
  then have "length (seq_suffix n) = 10" by (intro seq_length) simp
  moreover have "atoi (seq_suffix n) = int n"
    using atoi_digits [OF _ seq_digits, of n] n by (simp add: seq_suffix_def digits_val_zeros)
  ultimately show ?thesis by (simp add: tail_num_def)
qed

lemma tail_num_8: "n < 10 ^ 8 \<Longrightarrow> tail_num 8 (p @ seq_suffix n) = Some (int n)"
proof -
  assume n: "n < 10 ^ 8"
  have l: "length (dec_nat n) \<le> 8" "0 < length (dec_nat n)" using length_dec_nat [OF n] by simp_all
  let ?t = "replicate (8 - length (dec_nat n)) CHR ''0'' @ dec_nat n"
  have s: "seq_suffix n = ''00'' @ ?t"
    using l(1) by (simp add: seq_suffix_def Suc_diff_le numeral_eq_Suc flip: replicate_Suc)
  have "\<forall>c\<in>set ?t. isdigit c" using dec_nat_digits [of n] by (auto simp: isdigit_def)
  then have "atoi ?t = int n" using atoi_digits [of ?t] n by (simp add: digits_val_zeros)
  moreover have "length ?t = 8" using l(1) by simp
  ultimately show ?thesis by (simp add: tail_num_def s)
qed

text \<open>The node of a lock request.\<close>

definition lock_node :: "string \<Rightarrow> char \<Rightarrow> nat \<Rightarrow> string" where
  "lock_node path k n = path @ CHR ''/'' # k # seq_suffix n"

lemma digits_val_seq: "digits_val (seq_suffix n) = n"
  by (simp add: seq_suffix_def digits_val_zeros)

lemma seq_inj: "seq_suffix m = seq_suffix n \<Longrightarrow> m = n"
  by (metis digits_val_seq)

lemma lock_node_inj:
  assumes "lock_node p k m = lock_node q l n" "m < 10 ^ 10" "n < 10 ^ 10"
  shows "p = q \<and> k = l \<and> m = n"
proof -
  have "(p @ [CHR ''/'', k]) @ seq_suffix m = (q @ [CHR ''/'', l]) @ seq_suffix n" using assms(1) by (simp add: lock_node_def)
  then have "p @ [CHR ''/'', k] = q @ [CHR ''/'', l]" "seq_suffix m = seq_suffix n"
    using append_eq_append_conv [of "p @ [CHR ''/'', k]" "q @ [CHR ''/'', l]" "seq_suffix m" "seq_suffix n"] seq_length [OF assms(2)] seq_length [OF assms(3)] by auto
  then show ?thesis using seq_inj by auto
qed

lemma lock_name: "k \<noteq> CHR ''/'' \<Longrightarrow> zname (k # seq_suffix n)"
  using seq_digits [of n] by (auto simp: zname_def isdigit_def)

lemma lock_node_parent: "k \<noteq> CHR ''/'' \<Longrightarrow> zparent (lock_node path k n) = path"
  using zparent_child [OF lock_name] by (simp add: lock_node_def)

section \<open>Programs among other clients\<close>

text \<open>
  A program that is safe makes only requests that G allows and returns only what Q allows, when
  between its requests the state changes by R and a request changes it by A.
\<close>

primrec safe :: "('s \<Rightarrow> 's \<Rightarrow> bool) \<Rightarrow> ('s \<Rightarrow> zreq \<Rightarrow> 's \<Rightarrow> zreply \<Rightarrow> bool) \<Rightarrow> (zreq \<Rightarrow> bool) \<Rightarrow> ('a \<Rightarrow> 's \<Rightarrow> bool) \<Rightarrow> 'a zprog \<Rightarrow> 's \<Rightarrow> bool" where
  "safe R A G Q (Ret x) s \<longleftrightarrow> (\<forall>s'. R s s' \<longrightarrow> Q x s')"
| "safe R A G Q (Throw c) s \<longleftrightarrow> True"
| "safe R A G Q (Die e) s \<longleftrightarrow> True"
| "safe R A G Q (Ask q k) s \<longleftrightarrow> G q \<and> (\<forall>s1 s2 r. R s s1 \<longrightarrow> A s1 q s2 r \<longrightarrow> safe R A G Q (k r) s2)"

locale rely =
  fixes R :: "'s \<Rightarrow> 's \<Rightarrow> bool"
  assumes R_refl: "R s s" and R_trans: "R s s1 \<Longrightarrow> R s1 s2 \<Longrightarrow> R s s2"
begin

text \<open>What the others do keeps a program safe.\<close>

lemma safe_rely: "safe R A G Q p s \<Longrightarrow> R s s' \<Longrightarrow> safe R A G Q p s'"
  by (cases p) (auto intro: R_trans)

lemma safe_ask: "safe R A G Q (Ask q k) s \<Longrightarrow> A s q s' r \<Longrightarrow> G q \<and> safe R A G Q (k r) s'"
  using R_refl by auto

lemma safe_Ret: "safe R A G Q (Ret x) s \<Longrightarrow> Q x s"
  using R_refl by auto

lemma safe_bind: "safe R A G P p s \<Longrightarrow> (\<And>x s'. P x s' \<Longrightarrow> safe R A G Q (f x) s') \<Longrightarrow> safe R A G Q (zbind p f) s"
proof (induction p arbitrary: s)
  case (Ret x)
  then show ?case using R_refl by auto
qed auto

end

section \<open>What clients of the locks do to each other\<close>

text \<open>
  The tree with a history variable: which client created a sequence node that is still there.
\<close>

type_synonym lstate = "ztree \<times> (string \<Rightarrow> nat option)"

fun seq_create :: "zreq \<Rightarrow> bool" where
  "seq_create (Q_create p v flag) = (flag \<noteq> 0)"
| "seq_create q = False"

definition own_after :: "ztree \<Rightarrow> ztree \<Rightarrow> nat \<Rightarrow> zreq \<Rightarrow> (string \<Rightarrow> nat option) \<Rightarrow> string \<Rightarrow> nat option" where
  "own_after t t' c q own = (\<lambda>p. if t' p = None then None else if t p = None \<and> seq_create q then Some c else own p)"

text \<open>Sequence nodes are only created as lock requests.\<close>

definition lock_req :: "zreq \<Rightarrow> bool" where
  "lock_req q \<longleftrightarrow> (case q of Q_create p v flag \<Rightarrow> flag = 0 \<or> (\<exists>path. p = path @ ''/w'' \<or> p = path @ ''/r'') | _ \<Rightarrow> True)"

text \<open>Every owned node is a lock request with its number, below lim; numbers of one resource differ.\<close>

definition lock_inv :: "nat \<Rightarrow> lstate \<Rightarrow> bool" where
  "lock_inv lim s \<longleftrightarrow>
     (\<forall>p c. snd s p = Some c \<longrightarrow> (\<exists>path k n x. p = lock_node path k n \<and> k \<noteq> CHR ''/'' \<and> n < lim \<and> fst s p = Some x \<and> z_seq x = Some n)) \<and>
     (\<forall>path k l n. snd s (lock_node path k n) \<noteq> None \<longrightarrow> snd s (lock_node path l n) \<noteq> None \<longrightarrow> n < lim \<longrightarrow> k = l)"

text \<open>The others neither give client c a node nor put one before its nodes.\<close>

definition lock_rely :: "nat \<Rightarrow> nat \<Rightarrow> lstate \<Rightarrow> lstate \<Rightarrow> bool" where
  "lock_rely lim c s s' \<longleftrightarrow>
     (lock_inv lim s \<longrightarrow> lock_inv lim s') \<and>
     (\<forall>p. snd s' p = Some c \<longrightarrow> snd s p = Some c) \<and>
     (\<forall>path k l m n. snd s' (lock_node path k n) = Some c \<longrightarrow> n < lim \<longrightarrow> m < n \<longrightarrow> snd s' (lock_node path l m) \<noteq> None \<longrightarrow> snd s (lock_node path l m) \<noteq> None)"

definition lock_ask :: "nat \<Rightarrow> nat \<Rightarrow> lstate \<Rightarrow> zreq \<Rightarrow> lstate \<Rightarrow> zreply \<Rightarrow> bool" where
  "lock_ask lim c s q s' r \<longleftrightarrow>
     lock_inv lim s \<and> lock_inv lim s' \<and> snd s' = own_after (fst s) (fst s') c q (snd s) \<and>
     ((\<exists>r0. zk_effect (fst s) q (fst s') r0 \<and> (r = r0 \<or> rc r = ZCONNECTIONLOSS)) \<or> fst s' = fst s \<and> rc r = ZCONNECTIONLOSS)"

interpretation lr: rely "lock_rely lim c" for lim c
proof
  show "lock_rely lim c s s" for s by (simp add: lock_rely_def)
  fix s s1 s2 assume a: "lock_rely lim c s s1" "lock_rely lim c s1 s2"
  have "snd s p = Some c" if "snd s2 p = Some c" for p using a that unfolding lock_rely_def by blast
  moreover have "snd s (lock_node path l m) \<noteq> None" if "snd s2 (lock_node path k n) = Some c" "n < lim" "m < n" "snd s2 (lock_node path l m) \<noteq> None" for path k l m n
  proof -
    have "snd s1 (lock_node path k n) = Some c" "snd s1 (lock_node path l m) \<noteq> None" using a(2) that unfolding lock_rely_def by blast+
    then show ?thesis using a(1) that(2,3) unfolding lock_rely_def by blast
  qed
  ultimately show "lock_rely lim c s s2" using a unfolding lock_rely_def by blast
qed

lemma effect_keeps_seq: "zk_effect t q t' r \<Longrightarrow> t p = Some x \<Longrightarrow> t' p = Some y \<Longrightarrow> z_seq y = z_seq x"
  by (cases q) (auto split: if_splits option.splits)

text \<open>A node that a sequence request adds.\<close>

lemma effect_new:
  assumes "zk_effect t q t' r" "seq_create q" "t p = None" "t' p \<noteq> None"
  obtains pre v flag n where "q = Q_create pre v flag" "p = pre @ seq_suffix n" "rc r = ZOK" "r_text r = p" "t' p = Some \<lparr>z_data = v, z_version = 0, z_seq = Some n\<rparr>"
    "\<And>q x m. t q = Some x \<Longrightarrow> z_seq x = Some m \<Longrightarrow> zparent q = zparent pre \<Longrightarrow> m < n"
proof (cases q)
  case (Q_create pre v flag)
  have "t' \<noteq> t" using assms(3,4) by auto
  then obtain n where n: "\<forall>q x m. t q = Some x \<longrightarrow> z_seq x = Some m \<longrightarrow> zparent q = zparent pre \<longrightarrow> m < n" "rc r = ZOK" "r_text r = pre @ seq_suffix n"
      "t' = t(pre @ seq_suffix n \<mapsto> \<lparr>z_data = v, z_version = 0, z_seq = Some n\<rparr>)"
    using assms(1,2) Q_create by (auto split: if_splits)
  then have p: "p = pre @ seq_suffix n" using assms(3,4) by (auto split: if_splits)
  show ?thesis by (rule that [OF Q_create p]) (use n p in auto)
qed (use assms(2) in auto)

lemma lock_req_new:
  assumes "zk_effect t q t' r" "seq_create q" "lock_req q" "t p = None" "t' p \<noteq> None"
  obtains path k n y where "p = lock_node path k n" "k \<noteq> CHR ''/''" "t' p = Some y" "z_seq y = Some n"
    "\<forall>l m x. t (lock_node path l m) = Some x \<longrightarrow> z_seq x = Some m \<longrightarrow> l \<noteq> CHR ''/'' \<longrightarrow> m < n"
proof -
  obtain pre v flag n where e: "q = Q_create pre v flag" "p = pre @ seq_suffix n" "t' p = Some \<lparr>z_data = v, z_version = 0, z_seq = Some n\<rparr>"
    "\<And>q x m. t q = Some x \<Longrightarrow> z_seq x = Some m \<Longrightarrow> zparent q = zparent pre \<Longrightarrow> m < n"
    using effect_new [OF assms(1,2,4,5)] by metis
  obtain path k where k: "pre = path @ [CHR ''/'', k]" "k \<noteq> CHR ''/''" using assms(2,3) e(1) by (auto simp: lock_req_def)
  have "zparent pre = path" using zparent_child [of "[k]" path] k by (simp add: zname_def)
  then show ?thesis using that [of path k n] e k lock_node_parent by (auto simp: lock_node_def)
qed

lemma lock_inv_node:
  assumes "lock_inv lim s" "snd s (lock_node path k n) = Some c" "n < lim" "lim \<le> 10 ^ 10"
  obtains x where "fst s (lock_node path k n) = Some x" "z_seq x = Some n" "k \<noteq> CHR ''/''"
proof -
  obtain path' k' n' x where x: "lock_node path k n = lock_node path' k' n'" "k' \<noteq> CHR ''/''" "n' < lim" "fst s (lock_node path k n) = Some x" "z_seq x = Some n'"
    using assms(1,2) unfolding lock_inv_def by blast
  moreover have "path = path' \<and> k = k' \<and> n = n'" by (rule lock_node_inj [OF x(1)]) (use x(3) assms(3,4) in linarith)+
  ultimately show ?thesis using that by blast
qed

lemma own_old: "own_after t t' c q own p \<noteq> None \<Longrightarrow> t p \<noteq> None \<Longrightarrow> own p \<noteq> None \<and> t' p \<noteq> None"
  by (auto simp: own_after_def split: if_splits)

lemma own_new:
  assumes "own_after t t' c q own p \<noteq> None" "t p = None" "lock_inv lim (t, own)"
  shows "seq_create q" "t' p \<noteq> None"
proof -
  have "own p = None"
  proof (rule ccontr)
    assume "own p \<noteq> None"
    then obtain d where "snd (t, own) p = Some d" by auto
    then have "fst (t, own) p \<noteq> None" using assms(3) unfolding lock_inv_def by blast
    then show False using assms(2) by simp
  qed
  then show "seq_create q" "t' p \<noteq> None" using assms(1) by (auto simp: own_after_def split: if_splits)
qed

text \<open>A request keeps the invariant when the numbers stay below the limit: the shape of owned nodes.\<close>

lemma lock_shape_step:
  assumes "lock_inv lim (t, own)" "zk_effect t q t' r" "lock_req q" "\<forall>p x n. t' p = Some x \<longrightarrow> z_seq x = Some n \<longrightarrow> n < lim" "own_after t t' c q own p = Some d"
  shows "\<exists>path k n x. p = lock_node path k n \<and> k \<noteq> CHR ''/'' \<and> n < lim \<and> t' p = Some x \<and> z_seq x = Some n"
proof (cases "t p")
  case None
  have o: "own_after t t' c q own p \<noteq> None" using assms(5) by simp
  obtain path k n y where "p = lock_node path k n" "k \<noteq> CHR ''/''" "t' p = Some y" "z_seq y = Some n"
    by (rule lock_req_new [OF assms(2) own_new(1) [OF o None assms(1)] assms(3) None own_new(2) [OF o None assms(1)]])
  then show ?thesis using assms(4) by blast
next
  case (Some x)
  then have o: "own p \<noteq> None" "t' p \<noteq> None" using own_old [of t t' c q own p] assms(5) by auto
  then obtain d' y where d': "snd (t, own) p = Some d'" and y: "t' p = Some y" by auto
  obtain path k n x' where p: "p = lock_node path k n" "k \<noteq> CHR ''/''" "n < lim" "fst (t, own) p = Some x'" "z_seq x' = Some n"
    using assms(1) d' unfolding lock_inv_def by blast
  then have "z_seq y = Some n" using effect_keeps_seq [OF assms(2) Some y] Some by simp
  then show ?thesis using p(1-3) y by blast
qed

text \<open>The numbers of one resource differ: a new one is greater than those that are there.\<close>

lemma lock_new_greater:
  assumes "lock_inv lim (t, own)" "zk_effect t q t' r" "lock_req q" "lim \<le> 10 ^ 10" "\<forall>p x n. t' p = Some x \<longrightarrow> z_seq x = Some n \<longrightarrow> n < lim"
    "own_after t t' c q own (lock_node path k n) \<noteq> None" "n < lim" "t (lock_node path k n) = None" "own (lock_node path l m) \<noteq> None" "m < lim"
  shows "m < n"
proof -
  note new = own_new [OF assms(6,8,1)]
  obtain path' k' n' y where p: "lock_node path k n = lock_node path' k' n'" "k' \<noteq> CHR ''/''" "t' (lock_node path k n) = Some y" "z_seq y = Some n'"
      "\<forall>l m x. t (lock_node path' l m) = Some x \<longrightarrow> z_seq x = Some m \<longrightarrow> l \<noteq> CHR ''/'' \<longrightarrow> m < n'"
    by (rule lock_req_new [OF assms(2) new(1) assms(3,8) new(2)])
  have "n' < lim" using assms(5) p(3,4) by blast
  then have same: "path = path' \<and> k = k' \<and> n = n'" using lock_node_inj [OF p(1)] assms(4,7) by simp
  obtain d where d: "snd (t, own) (lock_node path l m) = Some d" using assms(9) by auto
  obtain x where "fst (t, own) (lock_node path l m) = Some x" "z_seq x = Some m" "l \<noteq> CHR ''/''"
    by (rule lock_inv_node [OF assms(1) d assms(10,4)])
  then show ?thesis using p(5) same by auto
qed

lemma lock_same_step:
  assumes "lock_inv lim (t, own)" "zk_effect t q t' r" "lock_req q" "lim \<le> 10 ^ 10" "\<forall>p x n. t' p = Some x \<longrightarrow> z_seq x = Some n \<longrightarrow> n < lim"
    "own_after t t' c q own (lock_node path k n) \<noteq> None" "own_after t t' c q own (lock_node path l n) \<noteq> None" "n < lim"
  shows "k = l"
proof (cases "t (lock_node path k n) = None"; cases "t (lock_node path l n) = None")
  assume n: "t (lock_node path k n) = None" "t (lock_node path l n) = None"
  note nk = own_new [OF assms(6) n(1) assms(1)] and nl = own_new [OF assms(7) n(2) assms(1)]
  obtain pre v flag m where 1: "q = Q_create pre v flag" "lock_node path k n = pre @ seq_suffix m" "rc r = ZOK" "r_text r = lock_node path k n"
    by (rule effect_new [OF assms(2) nk(1) n(1) nk(2)])
  obtain pre v flag m where 2: "q = Q_create pre v flag" "lock_node path l n = pre @ seq_suffix m" "rc r = ZOK" "r_text r = lock_node path l n"
    by (rule effect_new [OF assms(2) nl(1) n(2) nl(2)])
  have "lock_node path k n = lock_node path l n" using 1(4) 2(4) by simp
  then show ?thesis by (simp add: lock_node_def)
next
  assume n: "t (lock_node path k n) = None" "t (lock_node path l n) \<noteq> None"
  have "own (lock_node path l n) \<noteq> None" using own_old [OF assms(7) n(2)] by simp
  then show ?thesis using lock_new_greater [OF assms(1-6,8) n(1) _ assms(8)] by blast
next
  assume n: "t (lock_node path k n) \<noteq> None" "t (lock_node path l n) = None"
  have "own (lock_node path k n) \<noteq> None" using own_old [OF assms(6) n(1)] by simp
  then show ?thesis using lock_new_greater [OF assms(1-5,7,8) n(2) _ assms(8)] by blast
next
  assume n: "t (lock_node path k n) \<noteq> None" "t (lock_node path l n) \<noteq> None"
  have "snd (t, own) (lock_node path k n) \<noteq> None" "snd (t, own) (lock_node path l n) \<noteq> None"
    using own_old [OF assms(6) n(1)] own_old [OF assms(7) n(2)] by simp_all
  then show ?thesis using assms(1,8) unfolding lock_inv_def by blast
qed

lemma lock_inv_step:
  assumes "lock_inv lim (t, own)" "zk_effect t q t' r" "lock_req q" "lim \<le> 10 ^ 10" "\<forall>p x n. t' p = Some x \<longrightarrow> z_seq x = Some n \<longrightarrow> n < lim"
  shows "lock_inv lim (t', own_after t t' c q own)"
  unfolding lock_inv_def fst_conv snd_conv
  using lock_shape_step [OF assms(1-3,5)] lock_same_step [OF assms] by blast

text \<open>What a client does is what the others rely on; what is no lock request it could rely on itself.\<close>

lemma ask_rely_other:
  assumes "lock_ask lim c s q s' r" "lock_req q" "c \<noteq> d" "lim \<le> 10 ^ 10"
  shows "lock_rely lim d s s'"
proof -
  have own: "snd s' = own_after (fst s) (fst s') c q (snd s)" and inv: "lock_inv lim s" "lock_inv lim s'" using assms(1) by (simp_all add: lock_ask_def)
  have "snd s p = Some d" if "snd s' p = Some d" for p using that assms(3) by (auto simp: own own_after_def split: if_splits)
  moreover have "snd s (lock_node path l m) \<noteq> None"
    if o: "snd s' (lock_node path k n) = Some d" "n < lim" "m < n" "snd s' (lock_node path l m) \<noteq> None" for path k l m n
  proof (rule ccontr)
    assume no: "\<not> snd s (lock_node path l m) \<noteq> None"
    then have new: "fst s (lock_node path l m) = None" "fst s' (lock_node path l m) \<noteq> None" "seq_create q"
      using o(4) by (auto simp: own own_after_def split: if_splits)
    then have "fst s' \<noteq> fst s" by auto
    then obtain r0 where e: "zk_effect (fst s) q (fst s') r0" using assms(1) unfolding lock_ask_def by blast
    obtain path' l' m' y where p: "lock_node path l m = lock_node path' l' m'" "l' \<noteq> CHR ''/''" "fst s' (lock_node path l m) = Some y" "z_seq y = Some m'"
        "\<forall>l m x. fst s (lock_node path' l m) = Some x \<longrightarrow> z_seq x = Some m \<longrightarrow> l \<noteq> CHR ''/'' \<longrightarrow> m < m'"
      by (rule lock_req_new [OF e new(3) assms(2) new(1,2)])
    have m: "m < lim" using o(2,3) by simp
    obtain c' where c': "snd s' (lock_node path l m) = Some c'" using o(4) by auto
    obtain y' where "fst s' (lock_node path l m) = Some y'" "z_seq y' = Some m" "l \<noteq> CHR ''/''" by (rule lock_inv_node [OF inv(2) c' m assms(4)])
    then have mm: "m' = m" using p(3,4) by simp
    have "path = path'" using lock_node_inj [OF p(1)] m mm assms(4) by simp
    moreover have d: "snd s (lock_node path k n) = Some d" using o(1) assms(3) by (auto simp: own own_after_def split: if_splits)
    obtain x where "fst s (lock_node path k n) = Some x" "z_seq x = Some n" "k \<noteq> CHR ''/''" by (rule lock_inv_node [OF inv(1) d o(2) assms(4)])
    ultimately show False using p(5) mm o(3) by fastforce
  qed
  ultimately show ?thesis using inv unfolding lock_rely_def by blast
qed

lemma ask_rely_self:
  assumes "lock_ask lim c s q s' r" "\<not> seq_create q"
  shows "lock_rely lim c s s'"
  using assms by (auto simp: lock_ask_def lock_rely_def own_after_def split: if_splits)

section \<open>A call of Lock\<close>

text \<open>
  No request of another client that is still there stands before the own one, if that is still
  there: a writer waits for all, a reader for writers.
\<close>

definition before :: "nat \<Rightarrow> string \<Rightarrow> bool \<Rightarrow> nat \<Rightarrow> lstate \<Rightarrow> string set" where
  "before lim path rw n s = {l # seq_suffix m | l m. snd s (lock_node path l m) \<noteq> None \<and> m < n \<and> n < lim \<and> (rw \<or> l \<noteq> CHR ''r'')}"

definition lock_post :: "nat \<Rightarrow> nat \<Rightarrow> string \<Rightarrow> bool \<Rightarrow> string \<Rightarrow> lstate \<Rightarrow> bool" where
  "lock_post lim c path rw req s \<longleftrightarrow>
     (\<exists>n. req = lock_node path (if rw then CHR ''w'' else CHR ''r'') n \<and> n < lim \<and> (snd s req = Some c \<longrightarrow> before lim path rw n s = {}))"

definition lock_safe :: "nat \<Rightarrow> nat \<Rightarrow> string \<Rightarrow> bool \<Rightarrow> string zprog \<Rightarrow> lstate \<Rightarrow> bool" where
  "lock_safe lim c path rw = safe (lock_rely lim c) (lock_ask lim c) lock_req (lock_post lim c path rw)"

lemma before_rely:
  assumes "lock_rely lim c s s'" "snd s' (lock_node path k n) = Some c"
  shows "snd s (lock_node path k n) = Some c \<and> before lim path rw n s' \<subseteq> before lim path rw n s"
  using assms unfolding lock_rely_def before_def by blast

lemma lock_post_rely: "lock_rely lim c s s' \<Longrightarrow> lock_post lim c path rw req s \<Longrightarrow> lock_post lim c path rw req s'"
  unfolding lock_post_def using before_rely by blast

lemma lock_safe_Ret: "lock_post lim c path rw req s \<Longrightarrow> lock_safe lim c path rw (Ret req) s"
  by (simp add: lock_safe_def) (blast intro: lock_post_rely)

lemma lock_safe_stop: "lock_safe lim c path rw (Throw e) s" "lock_safe lim c path rw (Die d) s"
  by (simp_all add: lock_safe_def)

lemma lock_safe_Ask:
  assumes "lock_req q" "\<And>s1 s2 r. lock_rely lim c s s1 \<Longrightarrow> lock_ask lim c s1 q s2 r \<Longrightarrow> lock_safe lim c path rw (k r) s2"
  shows "lock_safe lim c path rw (Ask q k) s"
  using assms by (simp add: lock_safe_def)

text \<open>The reply to a list of children.\<close>

lemma ask_children:
  assumes "lock_ask lim c s (Q_children path) s' r" "rc r = ZOK" "lim \<le> 10 ^ 10" "snd s' (lock_node path l m) \<noteq> None" "m < lim"
  shows "l # seq_suffix m \<in> set (r_children r)"
proof -
  have t: "fst s' = fst s" "set (r_children r) = {a. zname a \<and> fst s (path @ CHR ''/'' # a) \<noteq> None}" and inv: "lock_inv lim s'"
    using assms(1,2) by (auto simp: lock_ask_def split: option.splits)
  obtain d where "snd s' (lock_node path l m) = Some d" using assms(4) by auto
  then obtain x where "fst s' (lock_node path l m) = Some x" "l \<noteq> CHR ''/''" using lock_inv_node [OF inv _ assms(5,3)] by metis
  then show ?thesis using t lock_name [of l m] by (simp add: lock_node_def)
qed

lemma before_name:
  assumes "a \<in> before lim path rw n s" "lim \<le> 10 ^ 8"
  shows "\<exists>m. tail_num 10 a = Some (int m) \<and> m < n \<and> (rw \<or> hd a \<noteq> CHR ''r'')"
proof -
  obtain l m where a: "a = l # seq_suffix m" "m < n" "n < lim" "rw \<or> l \<noteq> CHR ''r''" using assms(1) unfolding before_def by blast
  have "m < 2 ^ 31" using a(2,3) assms(2) by simp
  then have "tail_num 10 a = Some (int m)" using tail_num_10 [of m "[l]"] a(1) by simp
  then show ?thesis using a by auto
qed

lemma lock_check_safe:
  assumes "lim \<le> 10 ^ 8" "n < lim" "req = lock_node path (if rw then CHR ''w'' else CHR ''r'') n"
    "\<And>a s. lock_safe lim c path rw (lock_wait f path rw req (int n) a) s" "snd s req = Some c \<longrightarrow> before lim path rw n s \<subseteq> set as"
  shows "lock_safe lim c path rw (lock_check f path rw req (int n) as) s"
  using assms(5)
proof (induction as)
  case Nil
  then have "lock_post lim c path rw req s" using assms(2,3) by (auto simp: lock_post_def)
  then show ?case by (simp add: lock_safe_Ret)
next
  case (Cons a as)
  have skip: "lock_safe lim c path rw (lock_check f path rw req (int n) as) s" if "a \<notin> before lim path rw n s" using Cons that by auto
  have "a \<notin> before lim path rw n s" if "\<not> rw \<and> hd a = CHR ''r''" using before_name [OF _ assms(1)] that by blast
  moreover have "a \<notin> before lim path rw n s" if "tail_num 10 a = Some i" "\<not> int n > i" for i using before_name [OF _ assms(1), of a path rw n s] that by auto
  note ok = this calculation
  show ?case
  proof (cases "\<not> rw \<and> hd a = CHR ''r''")
    case True
    then show ?thesis using skip ok(2) by simp
  next
    case False
    show ?thesis
    proof (cases "tail_num 10 a")
      case None
      then show ?thesis by (simp only: lock_check.simps if_not_P [OF False] option.case lock_safe_stop)
    next
      case (Some i)
      then show ?thesis using skip ok(1) assms(4) [of a s] by (simp only: lock_check.simps if_not_P [OF False] option.case split: if_split) blast
    qed
  qed
qed

lemma lock_scan_safe:
  assumes "lim \<le> 10 ^ 8" "n < lim" "req = lock_node path (if rw then CHR ''w'' else CHR ''r'') n"
    "\<And>as s. (snd s req = Some c \<longrightarrow> before lim path rw n s \<subseteq> set as) \<Longrightarrow> lock_safe lim c path rw (lock_check f path rw req (int n) as) s"
  shows "lock_safe lim c path rw (lock_scan (Suc f) path rw req (int n)) s"
  unfolding lock_scan.simps zk_GetChildren_def zbind.simps
proof (rule lock_safe_Ask)
  fix s1 s2 r assume ask: "lock_ask lim c s1 (Q_children path) s2 r"
  have lim: "lim \<le> 10 ^ 10" using assms(1) by simp
  show "lock_safe lim c path rw (zbind (CHECK_ZOOCODE_AND_THROW (rc r) (Ret (r_children r)))
      (\<lambda>children. if 1 < length children then lock_check f path rw req (int n) children else Ret req)) s2"
  proof (cases "rc r = ZOK")
    case True
    note ch = ask_children [OF ask True lim]
    have sub: "before lim path rw n s2 \<subseteq> set (r_children r)" using ch by (auto simp: before_def)
    have "lock_post lim c path rw req s2" if "length (r_children r) \<le> 1"
    proof -
      have "before lim path rw n s2 = {}" if own: "snd s2 req = Some c"
      proof (rule ccontr)
        assume "before lim path rw n s2 \<noteq> {}"
        then obtain l m where lm: "l # seq_suffix m \<in> set (r_children r)" "m < n" using sub by (fastforce simp: before_def)
        moreover have "(if rw then CHR ''w'' else CHR ''r'') # seq_suffix n \<in> set (r_children r)" using ch own assms(2,3) by auto
        ultimately have "seq_suffix m = seq_suffix n" using \<open>length (r_children r) \<le> 1\<close> by (cases "r_children r") auto
        then show False using seq_inj lm(2) by blast
      qed
      then show ?thesis using assms(2,3) by (auto simp: lock_post_def)
    qed
    then show ?thesis using True sub assms(4) [of s2 "r_children r"] lock_safe_Ret by (auto simp: CHECK_ZOOCODE_AND_THROW_def)
  qed (simp add: CHECK_ZOOCODE_AND_THROW_def lock_safe_stop)
qed (simp add: lock_req_def)

lemma lock_loop_safe:
  assumes "lim \<le> 10 ^ 8" "n < lim" "req = lock_node path (if rw then CHR ''w'' else CHR ''r'') n"
  shows "lock_safe lim c path rw (lock_scan f path rw req (int n)) s \<and> lock_safe lim c path rw (lock_wait f path rw req (int n) a) s"
proof (induction f arbitrary: s a)
  case 0
  then show ?case by (simp add: lock_safe_stop)
next
  case (Suc f)
  have "lock_safe lim c path rw (lock_scan (Suc f) path rw req (int n)) s"
    by (rule lock_scan_safe [OF assms]) (rule lock_check_safe [OF assms], use Suc in blast)
  moreover have "lock_safe lim c path rw (lock_wait (Suc f) path rw req (int n) a) s"
    unfolding lock_wait.simps zk_Exists_def zbind.simps
    by (rule lock_safe_Ask) (use Suc in \<open>auto simp: lock_req_def CHECK_ZOOCODE_AND_THROW_def lock_safe_stop\<close>)
  ultimately show ?case by blast
qed

lemma ask_effect: "lock_ask lim c s q s' r \<Longrightarrow> rc r = ZOK \<Longrightarrow> zk_effect (fst s) q (fst s') r"
  by (auto simp: lock_ask_def simp del: zk_effect.simps)

lemma seq_create_effect:
  assumes "zk_effect t (Q_create p v flag) t' r" "flag \<noteq> 0" "rc r = ZOK"
  shows "\<exists>n. r_text r = p @ seq_suffix n \<and> t (p @ seq_suffix n) = None \<and> t' = t(p @ seq_suffix n \<mapsto> \<lparr>z_data = v, z_version = 0, z_seq = Some n\<rparr>)"
proof -
  have p: "good_path p" "parent_there t p" using assms by (auto split: if_splits)
  obtain n where "if t (p @ seq_suffix n) \<noteq> None then rc r = ZNODEEXISTS \<and> t' = t
      else rc r = ZOK \<and> r_text r = p @ seq_suffix n \<and> t' = t(p @ seq_suffix n \<mapsto> \<lparr>z_data = v, z_version = 0, z_seq = Some n\<rparr>)"
    using assms(1,2) p by auto
  then show ?thesis using assms(3) by (intro exI [of _ n]) (simp split: if_splits)
qed

text \<open>The request that Lock puts into the tree, and the loop behind it.\<close>

lemma lock_request_safe:
  assumes "lim \<le> 10 ^ 8" "flag \<noteq> 0" "flag div ZOO_SEQUENCE mod 2 = 1" "pre = path @ (if rw then ''/w'' else ''/r'')"
  shows "lock_safe lim c path rw (zbind (zk_CreateIfNotExists pre [] flag)
    (\<lambda>req. case tail_num 8 req of None \<Rightarrow> Die Out_of_range | Some i \<Rightarrow> lock_scan f path rw req i)) s"
  unfolding zk_CreateIfNotExists_def zbind.simps
proof (rule lock_safe_Ask)
  let ?k = "if rw then CHR ''w'' else CHR ''r''"
  show "lock_req (Q_create pre [] flag)" by (simp add: lock_req_def assms(4))
  fix s1 s2 r assume ask: "lock_ask lim c s1 (Q_create pre [] flag) s2 r"
  show "lock_safe lim c path rw (zbind (if rc r = ZNODEEXISTS then if flag div ZOO_SEQUENCE mod 2 = 0 then Ret pre else Die Check_failed else CHECK_ZOOCODE_AND_THROW (rc r) (Ret (r_text r)))
      (\<lambda>req. case tail_num 8 req of None \<Rightarrow> Die Out_of_range | Some i \<Rightarrow> lock_scan f path rw req i)) s2"
  proof (cases "rc r = ZOK")
    case True
    obtain n where n: "r_text r = pre @ seq_suffix n" "fst s1 (pre @ seq_suffix n) = None" "fst s2 = (fst s1)(pre @ seq_suffix n \<mapsto> \<lparr>z_data = [], z_version = 0, z_seq = Some n\<rparr>)"
      using seq_create_effect [OF ask_effect [OF ask True] assms(2) True] by blast
    have req: "pre @ seq_suffix n = lock_node path ?k n" by (simp add: assms(4) lock_node_def)
    have "snd s2 = own_after (fst s1) (fst s2) c (Q_create pre [] flag) (snd s1)" and inv: "lock_inv lim s2" using ask by (simp_all add: lock_ask_def)
    then have "snd s2 (pre @ seq_suffix n) = Some c" using n(2,3) assms(2) by (simp add: own_after_def)
    then have "n < lim" using inv n(3) unfolding lock_inv_def by fastforce
    then have "tail_num 8 (pre @ seq_suffix n) = Some (int n)" using tail_num_8 [of n pre] assms(1) by simp
    then show ?thesis using True n(1) lock_loop_safe [OF assms(1) \<open>n < lim\<close> req, where f = f] by (simp add: CHECK_ZOOCODE_AND_THROW_def)
  qed (simp add: CHECK_ZOOCODE_AND_THROW_def lock_safe_stop assms(3))
qed

text \<open>The whole call, whatever the client owned before.\<close>

lemma zk_Lock_safe:
  assumes "lim \<le> 10 ^ 8"
  shows "lock_safe lim c path rw (zk_Lock f path rw) s"
proof -
  define rest where "rest = (\<lambda>guid. zbind (zk_CreateIfNotExists (path @ (if rw then ''/w'' else ''/r'')) [] (ZOO_EPHEMERAL + ZOO_SEQUENCE))
    (\<lambda>req. case tail_num 8 req of None \<Rightarrow> Die Out_of_range | Some i \<Rightarrow> lock_scan f guid rw req i))"
  have rest: "lock_safe lim c path rw (rest path) s" for s
    unfolding rest_def by (rule lock_request_safe [OF assms _ _ refl]) (simp_all add: ZOO_EPHEMERAL_def ZOO_SEQUENCE_def)
  have "lock_safe lim c path rw (zbind (zk_CreateIfNotExists path [] 0) rest) s"
    unfolding zk_CreateIfNotExists_def zbind.simps
  proof (rule lock_safe_Ask)
    fix s1 s2 r assume ask: "lock_ask lim c s1 (Q_create path [] 0) s2 r"
    have "r_text r = path" if "rc r = ZOK" using ask_effect [OF ask that] that by (auto split: if_splits)
    then show "lock_safe lim c path rw (zbind (if rc r = ZNODEEXISTS then if 0 div ZOO_SEQUENCE mod 2 = 0 then Ret path else Die Check_failed
        else CHECK_ZOOCODE_AND_THROW (rc r) (Ret (r_text r))) rest) s2"
      by (simp add: CHECK_ZOOCODE_AND_THROW_def lock_safe_stop rest)
  qed (simp add: lock_req_def)
  then show ?thesis unfolding zk_Lock_def rest_def .
qed

section \<open>Clients together\<close>

datatype lock_client =
    L_idle
  | L_locking string bool "string zprog"
  | L_held string bool string
  | L_unlocking "unit zprog"
  | L_failed zcode
  | L_died fault

record 'z zworld =
  zw_z :: 'z
  zw_cl :: "nat \<Rightarrow> lock_client"
  zw_own :: "string \<Rightarrow> nat option"

text \<open>A request may be lost on its way, or its reply; the client then sees a connection loss.\<close>

definition lost_reply :: zreply where
  "lost_reply = \<lparr>rc = ZCONNECTIONLOSS, r_text = [], r_stat = \<lparr>st_version = 0, st_dataLength = 0\<rparr>, r_children = []\<rparr>"

definition deliver :: "('z \<Rightarrow> zreq \<Rightarrow> 'z \<times> zreply) \<Rightarrow> net \<Rightarrow> 'z \<Rightarrow> zreq \<Rightarrow> 'z \<times> zreply" where
  "deliver srv n z q = (case n of Answered \<Rightarrow> srv z q | Not_delivered \<Rightarrow> (z, lost_reply) | Reply_lost \<Rightarrow> (fst (srv z q), lost_reply))"

definition seqs_below :: "nat \<Rightarrow> ztree \<Rightarrow> bool" where
  "seqs_below lim t \<longleftrightarrow> (\<forall>p x n. t p = Some x \<longrightarrow> z_seq x = Some n \<longrightarrow> n < lim)"

text \<open>The world after a request of client c, which goes on with cl.\<close>

definition asked :: "('z \<Rightarrow> ztree) \<Rightarrow> nat \<Rightarrow> zreq \<Rightarrow> 'z \<Rightarrow> lock_client \<Rightarrow> 'z zworld \<Rightarrow> 'z zworld" where
  "asked tree c q z' cl w = w\<lparr>zw_z := z', zw_cl := (zw_cl w)(c := cl), zw_own := own_after (tree (zw_z w)) (tree z') c q (zw_own w)\<rparr>"

definition becomes :: "nat \<Rightarrow> lock_client \<Rightarrow> 'z zworld \<Rightarrow> 'z zworld" where
  "becomes c cl w = w\<lparr>zw_cl := (zw_cl w)(c := cl)\<rparr>"

text \<open>An exception is caught nowhere, so a client that throws is gone. A node of a session that expires disappears.\<close>

inductive zk_step :: "('z \<Rightarrow> ztree) \<Rightarrow> ('z \<Rightarrow> zreq \<Rightarrow> 'z \<times> zreply) \<Rightarrow> nat \<Rightarrow> 'z zworld \<Rightarrow> 'z zworld \<Rightarrow> bool" for tree srv lim where
  call: "zw_cl w c = L_idle \<Longrightarrow> zk_step tree srv lim w (becomes c (L_locking path rw (zk_Lock f path rw)) w)"
| ask: "zw_cl w c = L_locking path rw (Ask q k) \<Longrightarrow> deliver srv n (zw_z w) q = (z', r) \<Longrightarrow> seqs_below lim (tree z') \<Longrightarrow>
    zk_step tree srv lim w (asked tree c q z' (L_locking path rw (k r)) w)"
| got: "zw_cl w c = L_locking path rw (Ret req) \<Longrightarrow> zk_step tree srv lim w (becomes c (L_held path rw req) w)"
| unlock: "zw_cl w c = L_held path rw req \<Longrightarrow> zk_step tree srv lim w (becomes c (L_unlocking (zk_Unlock req)) w)"
| ask_unlock: "zw_cl w c = L_unlocking (Ask q k) \<Longrightarrow> deliver srv n (zw_z w) q = (z', r) \<Longrightarrow> seqs_below lim (tree z') \<Longrightarrow>
    zk_step tree srv lim w (asked tree c q z' (L_unlocking (k r)) w)"
| finish: "zw_cl w c = L_unlocking (Ret ()) \<Longrightarrow> zk_step tree srv lim w (becomes c L_idle w)"
| threw: "zw_cl w c = L_locking path rw (Throw e) \<or> zw_cl w c = L_unlocking (Throw e) \<Longrightarrow> zk_step tree srv lim w (becomes c (L_failed e) w)"
| died: "zw_cl w c = L_locking path rw (Die d) \<or> zw_cl w c = L_unlocking (Die d) \<Longrightarrow> zk_step tree srv lim w (becomes c (L_died d) w)"
| expire: "tree z' = (tree (zw_z w))(p := None) \<Longrightarrow> zk_step tree srv lim w (w\<lparr>zw_z := z', zw_own := (zw_own w)(p := None)\<rparr>)"

definition zk_start :: "'z \<Rightarrow> 'z zworld" where
  "zk_start z = \<lparr>zw_z = z, zw_cl = (\<lambda>_. L_idle), zw_own = (\<lambda>_. None)\<rparr>"

text \<open>The client has returned from Lock, and its session has not expired since.\<close>

definition zk_holds :: "'z zworld \<Rightarrow> nat \<Rightarrow> string \<Rightarrow> bool \<Rightarrow> bool" where
  "zk_holds w c path rw \<longleftrightarrow> (\<exists>req. zw_cl w c = L_held path rw req \<and> zw_own w req = Some c)"

section \<open>The invariant of all clients\<close>

definition unlock_safe :: "nat \<Rightarrow> nat \<Rightarrow> unit zprog \<Rightarrow> lstate \<Rightarrow> bool" where
  "unlock_safe lim c = safe (lock_rely lim c) (lock_ask lim c) lock_req (\<lambda>_ _. True)"

definition client_safe :: "nat \<Rightarrow> nat \<Rightarrow> lock_client \<Rightarrow> lstate \<Rightarrow> bool" where
  "client_safe lim c cl s = (case cl of
       L_locking path rw p \<Rightarrow> lock_safe lim c path rw p s
     | L_held path rw req \<Rightarrow> lock_post lim c path rw req s
     | L_unlocking p \<Rightarrow> unlock_safe lim c p s
     | _ \<Rightarrow> True)"

definition zw_state :: "('z \<Rightarrow> ztree) \<Rightarrow> 'z zworld \<Rightarrow> lstate" where
  "zw_state tree w = (tree (zw_z w), zw_own w)"

definition world_inv :: "('z \<Rightarrow> ztree) \<Rightarrow> nat \<Rightarrow> 'z zworld \<Rightarrow> bool" where
  "world_inv tree lim w \<longleftrightarrow> lock_inv lim (zw_state tree w) \<and> (\<forall>c. client_safe lim c (zw_cl w c) (zw_state tree w))"

lemma client_safe_rely: "client_safe lim c cl s \<Longrightarrow> lock_rely lim c s s' \<Longrightarrow> client_safe lim c cl s'"
proof (cases cl)
  case (L_locking path rw p)
  then show "client_safe lim c cl s \<Longrightarrow> lock_rely lim c s s' \<Longrightarrow> client_safe lim c cl s'" unfolding client_safe_def lock_safe_def by (simp add: lr.safe_rely)
next
  case (L_held path rw req)
  then show "client_safe lim c cl s \<Longrightarrow> lock_rely lim c s s' \<Longrightarrow> client_safe lim c cl s'" unfolding client_safe_def by (simp add: lock_post_rely)
next
  case (L_unlocking p)
  then show "client_safe lim c cl s \<Longrightarrow> lock_rely lim c s s' \<Longrightarrow> client_safe lim c cl s'" unfolding client_safe_def unlock_safe_def by (simp add: lr.safe_rely)
qed (simp_all add: client_safe_def)

text \<open>A program all of whose requests are allowed is safe as far as nothing is asked of its result.\<close>

primrec all_reqs :: "(zreq \<Rightarrow> bool) \<Rightarrow> 'a zprog \<Rightarrow> bool" where
  "all_reqs G (Ret x) \<longleftrightarrow> True"
| "all_reqs G (Throw c) \<longleftrightarrow> True"
| "all_reqs G (Die e) \<longleftrightarrow> True"
| "all_reqs G (Ask q k) \<longleftrightarrow> G q \<and> (\<forall>r. all_reqs G (k r))"

lemma all_reqs_bind: "all_reqs G p \<Longrightarrow> (\<And>x. all_reqs G (f x)) \<Longrightarrow> all_reqs G (zbind p f)"
  by (induction p) auto

lemma all_reqs_safe: "all_reqs G p \<Longrightarrow> safe R A G (\<lambda>_ _. True) p s"
  by (induction p arbitrary: s) auto

lemma all_reqs_delete: "all_reqs lock_req (zk_DeleteIfExists path)"
  unfolding zk_DeleteIfExists_def
  by (rule all_reqs_bind) (auto simp: zk_Exists_def CHECK_ZOOCODE_AND_THROW_def lock_req_def split: option.split)

lemma zk_Unlock_safe: "unlock_safe lim c (zk_Unlock req) s"
proof -
  have "all_reqs lock_req (zk_GetChildren key)" for key by (simp add: zk_GetChildren_def CHECK_ZOOCODE_AND_THROW_def lock_req_def)
  then have "all_reqs lock_req (zk_Unlock req)"
    unfolding zk_Unlock_def Let_def by (intro all_reqs_bind) (simp_all add: zthen_def all_reqs_bind all_reqs_delete)
  then show ?thesis unfolding unlock_safe_def by (rule all_reqs_safe)
qed

lemma world_becomes: "world_inv tree lim w \<Longrightarrow> client_safe lim c cl (zw_state tree w) \<Longrightarrow> world_inv tree lim (becomes c cl w)"
  by (simp add: world_inv_def becomes_def zw_state_def)

lemma deliver_effect:
  assumes "zk_ok tree srv" "deliver srv n z q = (z', r)"
  shows "(\<exists>r0. zk_effect (tree z) q (tree z') r0 \<and> (r = r0 \<or> rc r = ZCONNECTIONLOSS)) \<or> tree z' = tree z \<and> rc r = ZCONNECTIONLOSS"
proof -
  have e: "zk_effect (tree z) q (tree (fst (srv z q))) (snd (srv z q))" using assms(1) by (simp add: zk_ok_def)
  show ?thesis
  proof (cases n)
    case Answered
    then have "z' = fst (srv z q)" "r = snd (srv z q)" using assms(2) by (simp_all add: deliver_def)
    then show ?thesis using e by blast
  next
    case Not_delivered
    then show ?thesis using assms(2) by (auto simp: deliver_def lost_reply_def)
  next
    case Reply_lost
    then have "z' = fst (srv z q)" "rc r = ZCONNECTIONLOSS" using assms(2) by (auto simp: deliver_def lost_reply_def)
    then show ?thesis using e by blast
  qed
qed

lemma world_asked:
  assumes "zk_ok tree srv" "lim \<le> 10 ^ 8" "world_inv tree lim w" "lock_req q" "deliver srv n (zw_z w) q = (z', r)" "seqs_below lim (tree z')"
    "\<And>s'. lock_ask lim c (zw_state tree w) q s' r \<Longrightarrow> client_safe lim c cl s'"
  shows "world_inv tree lim (asked tree c q z' cl w)"
proof -
  let ?s = "zw_state tree w" and ?s' = "(tree z', own_after (tree (zw_z w)) (tree z') c q (zw_own w))"
  have lim: "lim \<le> 10 ^ 10" using assms(2) by simp
  have inv: "lock_inv lim (tree (zw_z w), zw_own w)" using assms(3) by (simp add: world_inv_def zw_state_def)
  note e = deliver_effect [OF assms(1,5)]
  have inv': "lock_inv lim ?s'"
  proof (cases "tree z' = tree (zw_z w)")
    case True
    have "own_after (tree (zw_z w)) (tree z') c q (zw_own w) = zw_own w"
    proof
      fix p
      show "own_after (tree (zw_z w)) (tree z') c q (zw_own w) p = zw_own w p"
      proof (cases "zw_own w p")
        case (Some d)
        then have "tree (zw_z w) p \<noteq> None" using inv unfolding lock_inv_def by fastforce
        then show ?thesis using True by (auto simp: own_after_def)
      qed (simp add: own_after_def True)
    qed
    then show ?thesis using inv True by simp
  next
    case False
    then obtain r0 where "zk_effect (tree (zw_z w)) q (tree z') r0" using e by blast
    then show ?thesis using lock_inv_step [OF inv _ assms(4) lim] assms(6) unfolding seqs_below_def by blast
  qed
  have ask: "lock_ask lim c ?s q ?s' r" unfolding lock_ask_def zw_state_def fst_conv snd_conv using inv inv' e by blast
  have "client_safe lim d (if d = c then cl else zw_cl w d) ?s'" for d
  proof (cases "d = c")
    case False
    then show ?thesis using client_safe_rely [OF _ ask_rely_other [OF ask assms(4) _ lim]] assms(3) unfolding world_inv_def by simp
  qed (use assms(7) [OF ask] in simp)
  then show ?thesis using inv' by (simp add: world_inv_def asked_def zw_state_def)
qed

lemma world_step:
  assumes "zk_ok tree srv" "lim \<le> 10 ^ 8" "zk_step tree srv lim w w'" "world_inv tree lim w"
  shows "world_inv tree lim w'"
proof -
  have cs: "client_safe lim c (zw_cl w c) (zw_state tree w)" for c using assms(4) by (simp add: world_inv_def)
  note b = world_becomes [OF assms(4)] and a = world_asked [OF assms(1,2,4)]
  show ?thesis using assms(3)
  proof cases
    case (call c path rw f)
    then show ?thesis using b [of c "L_locking path rw (zk_Lock f path rw)"] zk_Lock_safe [OF assms(2)] by (simp add: client_safe_def)
  next
    case (ask c path rw q k n z' r)
    have s: "safe (lock_rely lim c) (lock_ask lim c) lock_req (lock_post lim c path rw) (Ask q k) (zw_state tree w)"
      using cs [of c] ask(2) by (simp add: client_safe_def lock_safe_def del: safe.simps)
    have lq: "lock_req q" using s by simp
    have cl: "client_safe lim c (L_locking path rw (k r)) s'" if "lock_ask lim c (zw_state tree w) q s' r" for s'
      using lr.safe_ask [OF s that] by (simp add: client_safe_def lock_safe_def)
    show ?thesis unfolding ask(1) by (rule a [OF lq ask(3,4) cl])
  next
    case (got c path rw req)
    have s: "safe (lock_rely lim c) (lock_ask lim c) lock_req (lock_post lim c path rw) (Ret req) (zw_state tree w)"
      using cs [of c] got(2) by (simp add: client_safe_def lock_safe_def del: safe.simps)
    show ?thesis using b [of c "L_held path rw req"] lr.safe_Ret [OF s] got(1) by (simp add: client_safe_def)
  next
    case (unlock c path rw req)
    then show ?thesis using b [of c "L_unlocking (zk_Unlock req)"] zk_Unlock_safe by (simp add: client_safe_def)
  next
    case (ask_unlock c q k n z' r)
    have s: "safe (lock_rely lim c) (lock_ask lim c) lock_req (\<lambda>_ _. True) (Ask q k) (zw_state tree w)"
      using cs [of c] ask_unlock(2) by (simp add: client_safe_def unlock_safe_def del: safe.simps)
    have lq: "lock_req q" using s by simp
    have cl: "client_safe lim c (L_unlocking (k r)) s'" if "lock_ask lim c (zw_state tree w) q s' r" for s'
      using lr.safe_ask [OF s that] by (simp add: client_safe_def unlock_safe_def)
    show ?thesis unfolding ask_unlock(1) by (rule a [OF lq ask_unlock(3,4) cl])
  next
    case (expire z' p)
    have inv: "lock_inv lim (zw_state tree w')" using assms(4) expire unfolding world_inv_def lock_inv_def zw_state_def by (simp add: fun_upd_def)
    have "lock_rely lim c (zw_state tree w) (zw_state tree w')" for c using inv expire(1) unfolding lock_rely_def by (simp add: zw_state_def)
    then show ?thesis using inv client_safe_rely [OF cs] by (simp add: world_inv_def expire(1))
  qed (use b in \<open>simp_all add: client_safe_def\<close>)
qed

lemma world_run: "(zk_step tree srv lim)\<^sup>*\<^sup>* w w' \<Longrightarrow> zk_ok tree srv \<Longrightarrow> lim \<le> 10 ^ 8 \<Longrightarrow> world_inv tree lim w \<Longrightarrow> world_inv tree lim w'"
  by (induction rule: rtranclp_induct) (auto intro: world_step)

lemma world_start: "world_inv tree lim (zk_start z)"
  by (simp add: world_inv_def zk_start_def zw_state_def lock_inv_def client_safe_def)

text \<open>Of two holders of a lock the one with the greater number would have waited for the other, if one of them writes.\<close>

lemma holders_ordered:
  assumes "lock_post lim c path rw req s" "lock_post lim d path rw' req' s" "snd s req = Some c" "snd s req' = Some d" "rw \<or> rw'" "lock_inv lim s" "lim \<le> 10 ^ 8"
  shows "req = req'"
proof -
  let ?k = "\<lambda>rw. if rw then CHR ''w'' else CHR ''r''"
  obtain n where n: "req = lock_node path (?k rw) n" "n < lim" "before lim path rw n s = {}" using assms(1,3) by (auto simp: lock_post_def)
  obtain m where m: "req' = lock_node path (?k rw') m" "m < lim" "before lim path rw' m s = {}" using assms(2,4) by (auto simp: lock_post_def)
  have "\<not> m < n"
  proof
    assume "m < n"
    then have "?k rw' # seq_suffix m \<in> before lim path rw n s" using assms(4,5) m(1) n(2) unfolding before_def by force
    then show False using n(3) by simp
  qed
  moreover have "\<not> n < m"
  proof
    assume "n < m"
    then have "?k rw # seq_suffix n \<in> before lim path rw' m s" using assms(3,5) n(1) m(2) unfolding before_def by force
    then show False using m(3) by simp
  qed
  ultimately have mn: "m = n" by simp
  have "snd s (lock_node path (?k rw) n) \<noteq> None" "snd s (lock_node path (?k rw') n) \<noteq> None" using assms(3,4) unfolding n(1) m(1) mn by simp_all
  then have "?k rw = ?k rw'" using assms(6) n(2) unfolding lock_inv_def by blast
  then show ?thesis unfolding n(1) m(1) mn by simp
qed

section \<open>Executions\<close>

datatype zk_event = Z_call nat string bool nat | Z_unlock nat | Z_req nat net | Z_next nat

text \<open>A run given by its events; None when an event is not possible.\<close>

fun zk_exec :: "('z \<Rightarrow> ztree) \<Rightarrow> ('z \<Rightarrow> zreq \<Rightarrow> 'z \<times> zreply) \<Rightarrow> ('z \<Rightarrow> bool) \<Rightarrow> zk_event list \<Rightarrow> 'z zworld \<Rightarrow> 'z zworld option" where
  "zk_exec tree srv ok [] w = Some w"
| "zk_exec tree srv ok (Z_call c path rw f # es) w =
     (if zw_cl w c = L_idle then zk_exec tree srv ok es (becomes c (L_locking path rw (zk_Lock f path rw)) w) else None)"
| "zk_exec tree srv ok (Z_unlock c # es) w =
     (case zw_cl w c of L_held path rw req \<Rightarrow> zk_exec tree srv ok es (becomes c (L_unlocking (zk_Unlock req)) w) | _ \<Rightarrow> None)"
| "zk_exec tree srv ok (Z_req c n # es) w =
     (case zw_cl w c of
        L_locking path rw (Ask q k) \<Rightarrow> (case deliver srv n (zw_z w) q of (z', r) \<Rightarrow> if ok z' then zk_exec tree srv ok es (asked tree c q z' (L_locking path rw (k r)) w) else None)
      | L_unlocking (Ask q k) \<Rightarrow> (case deliver srv n (zw_z w) q of (z', r) \<Rightarrow> if ok z' then zk_exec tree srv ok es (asked tree c q z' (L_unlocking (k r)) w) else None)
      | _ \<Rightarrow> None)"
| "zk_exec tree srv ok (Z_next c # es) w =
     (case zw_cl w c of
        L_locking path rw (Ret req) \<Rightarrow> zk_exec tree srv ok es (becomes c (L_held path rw req) w)
      | L_locking path rw (Throw e) \<Rightarrow> zk_exec tree srv ok es (becomes c (L_failed e) w)
      | L_unlocking (Throw e) \<Rightarrow> zk_exec tree srv ok es (becomes c (L_failed e) w)
      | _ \<Rightarrow> None)"

lemma zk_exec_run:
  assumes "\<And>z. ok z \<Longrightarrow> seqs_below lim (tree z)"
  shows "zk_exec tree srv ok es w = Some w' \<Longrightarrow> (zk_step tree srv lim)\<^sup>*\<^sup>* w w'"
proof (induction es arbitrary: w)
  case (Cons e es)
  have "\<exists>w1. zk_step tree srv lim w w1 \<and> zk_exec tree srv ok es w1 = Some w'"
  proof (cases e)
    case (Z_call c path rw f)
    then show ?thesis using Cons.prems zk_step.call [of w c tree srv lim path rw f] by (auto split: if_splits)
  next
    case (Z_unlock c)
    then show ?thesis using Cons.prems zk_step.unlock [of w c _ _ _ tree srv lim] by (auto split: lock_client.splits)
  next
    case (Z_req c n)
    then show ?thesis using Cons.prems zk_step.ask [of w c _ _ _ _ srv n _ _ lim tree] zk_step.ask_unlock [of w c _ _ srv n _ _ lim tree] assms
      by (auto split: lock_client.splits zprog.splits prod.splits if_splits) blast+
  next
    case (Z_next c)
    then show ?thesis using Cons.prems zk_step.got [of w c _ _ _ tree srv lim] zk_step.threw [of w c _ _ _ tree srv lim]
      by (auto split: lock_client.splits zprog.splits)
  qed
  then show ?case using Cons.IH by (blast intro: converse_rtranclp_into_rtranclp)
qed simp

definition zm_below :: "nat \<Rightarrow> zmap \<Rightarrow> bool" where
  "zm_below lim z \<longleftrightarrow> list_all (\<lambda>(p, x). case z_seq x of None \<Rightarrow> True | Some n \<Rightarrow> n < lim) (zm_nodes z)"

lemma zm_below_seqs: "zm_below lim z \<Longrightarrow> seqs_below lim (zm_tree z)"
  unfolding zm_below_def seqs_below_def zm_tree_def list_all_iff by (fastforce dest: map_of_SomeD)

lemma demo_paths: "good_path ''/k''" "good_path ''/k/w''"
  using good_path1 [of "''k''"] good_path2 [of "''k''" "''w''"] by (simp_all add: zname_def)

lemma demo_digits: "char_of (48 :: nat) = CHR ''0''" "char_of (49 :: nat) = CHR ''1''" "char_of (57 :: nat) = CHR ''9''" "replicate 9 CHR ''0'' = ''000000000''" "replicate 2 CHR ''0'' = ''00''"
  by code_simp+

lemma demo_seqs: "seq_suffix 0 = ''0000000000''" "seq_suffix (Suc 0) = ''0000000001''" "seq_suffix 99999999 = ''0099999999''" "seq_suffix 100000000 = ''0100000000''"
  by (simp_all add: seq_suffix_def dec_nat.simps digit_char_def demo_digits)

lemma demo_nums: "tail_num 8 ''/k/w0000000000'' = Some 0" "tail_num 8 ''/k/w0000000001'' = Some 1" "tail_num 8 ''/k/w0099999999'' = Some 99999999" "tail_num 8 ''/k/w0100000000'' = Some 0"
  "tail_num 10 ''w0000000000'' = Some 0" "tail_num 10 ''w0000000001'' = Some 1" "tail_num 10 ''w0099999999'' = Some 99999999" "tail_num 10 ''w0100000000'' = Some 100000000"
proof -
  have "atoi ''00000000'' = 0" by code_simp
  then show "tail_num 8 ''/k/w0100000000'' = Some 0" by (simp add: tail_num_def)
  note t8 = tail_num_8 [where p = "''/k/w''"] and t10 = tail_num_10 [where p = "''w''"]
  show "tail_num 8 ''/k/w0000000000'' = Some 0" "tail_num 8 ''/k/w0000000001'' = Some 1" "tail_num 8 ''/k/w0099999999'' = Some 99999999"
    using t8 [of 0] t8 [of 1] t8 [of 99999999] by (simp_all add: demo_seqs)
  show "tail_num 10 ''w0000000000'' = Some 0" "tail_num 10 ''w0000000001'' = Some 1" "tail_num 10 ''w0099999999'' = Some 99999999" "tail_num 10 ''w0100000000'' = Some 100000000"
    using t10 [of 0] t10 [of 1] t10 [of 99999999] t10 [of 100000000] by (simp_all add: demo_seqs)
qed

lemma demo_parents: "zparent ''/k'' = []" "zparent ''/k/w'' = ''/k''" "zparent ''/k/w0000000000'' = ''/k''" "zparent ''/k/w0000000001'' = ''/k''"
  "zparent ''/k/w0099999999'' = ''/k''" "zparent ''/k/w0100000000'' = ''/k''"
  by code_simp+

lemmas demo_lock = zk_Lock_def zk_CreateIfNotExists_def ZOO_EPHEMERAL_def ZOO_SEQUENCE_def zk_GetChildren_def CHECK_ZOOCODE_AND_THROW_def
  zk_Unlock_def zk_DeleteIfExists_def zk_Exists_def zthen_def
lemmas demo_service = deliver_def zm_bad_def zm_reply_def zm_put_def zm_tree_def zm_names_def zname_def parent_there_def zm_below_def Let_def
  demo_paths demo_seqs demo_nums demo_parents

lemma own_after_apply: "own_after t t' c q own p = (if t' p = None then None else if t p = None \<and> seq_create q then Some c else own p)"
  by (simp add: own_after_def)

lemmas demo_world = becomes_def asked_def own_after_apply zk_start_def zk_holds_def

text \<open>Continuations are only looked at when they are reached.\<close>

lemma Ask_lazy: "q = q' \<Longrightarrow> Ask q k = Ask q' k"
  by simp

lemma zbind_lazy: "p = p' \<Longrightarrow> zbind p f = zbind p' f"
  by simp

definition demo_zk :: "nat \<Rightarrow> zmap" where
  "demo_zk n = \<lparr>zm_nodes = [], zm_base = n\<rparr>"

lemma zk_run:
  assumes "case zk_exec zm_tree zk_map (zm_below lim) es w of None \<Rightarrow> False | Some w' \<Rightarrow> P w'"
  shows "\<exists>w'. (zk_step zm_tree zk_map lim)\<^sup>*\<^sup>* w w' \<and> P w'"
proof -
  obtain w' where w': "zk_exec zm_tree zk_map (zm_below lim) es w = Some w'" "P w'"
    using assms by (cases "zk_exec zm_tree zk_map (zm_below lim) es w") simp_all
  show ?thesis using zk_exec_run [OF zm_below_seqs w'(1)] w'(2) by blast
qed

lemma zk_lock_example:
  "\<exists>w. (zk_step zm_tree zk_map 100)\<^sup>*\<^sup>* (zk_start (demo_zk 0)) w \<and> zk_holds w 0 ''/k'' True"
  by (rule zk_run [where es = "[Z_call 0 ''/k'' True (Suc 0), Z_req 0 Answered, Z_req 0 Answered, Z_req 0 Answered, Z_next 0]"])
     (simp add: demo_lock demo_service demo_world demo_zk_def cong: Ask_lazy zbind_lazy)

section \<open>Properties\<close>

text \<open>C10: locks in ZooKeeper: while the sequence numbers stay below 10^8, in every interleaving of the calls of any number of clients, whatever requests or replies are lost and whatever sessions expire, two clients that both hold the lock of a path, one of them for writing, are the same client.\<close>

theorem zk_lock_exclusion:
  assumes "zk_ok tree srv" "lim \<le> 10 ^ 8" "(zk_step tree srv lim)\<^sup>*\<^sup>* (zk_start z) w" "zk_holds w c path rw" "zk_holds w d path rw'" "rw \<or> rw'"
  shows "c = d"
proof -
  have inv: "world_inv tree lim w" by (rule world_run [OF assms(3,1,2) world_start])
  obtain r1 where 1: "zw_cl w c = L_held path rw r1" "zw_own w r1 = Some c" using assms(4) by (auto simp: zk_holds_def)
  obtain r2 where 2: "zw_cl w d = L_held path rw' r2" "zw_own w r2 = Some d" using assms(5) by (auto simp: zk_holds_def)
  have "client_safe lim c (zw_cl w c) (zw_state tree w)" "client_safe lim d (zw_cl w d) (zw_state tree w)" and li: "lock_inv lim (zw_state tree w)"
    using inv by (simp_all add: world_inv_def)
  then have "lock_post lim c path rw r1 (zw_state tree w)" "lock_post lim d path rw' r2 (zw_state tree w)" using 1(1) 2(1) by (simp_all add: client_safe_def)
  then have "r1 = r2" using holders_ordered [OF _ _ _ _ assms(6) li assms(2)] 1(2) 2(2) by (simp add: zw_state_def)
  then show ?thesis using 1(2) 2(2) by simp
qed

theorem zk_lock_exclusion_witness:
  "\<exists>w. (zk_step zm_tree zk_map 100)\<^sup>*\<^sup>* (zk_start (demo_zk 0)) w \<and> zk_holds w 0 ''/k'' True \<and> \<not> zk_holds w 1 ''/k'' False"
proof -
  obtain w where w: "(zk_step zm_tree zk_map 100)\<^sup>*\<^sup>* (zk_start (demo_zk 0)) w" "zk_holds w 0 ''/k'' True" using zk_lock_example by blast
  then show ?thesis using zk_lock_exclusion [OF zk_map_ok _ w, of 1 False] by auto
qed

text \<open>C36: from the number 10^8 on the lock fails: Lock reads the last eight digits of its own number and ten of the others, so the client with number 10^8 takes itself for the first and holds the lock for writing together with the one before.\<close>

theorem zk_lock_wraps:
  "\<exists>w. (zk_step zm_tree zk_map (2 * 10 ^ 8))\<^sup>*\<^sup>* (zk_start (demo_zk 99999999)) w \<and> zk_holds w 0 ''/k'' True \<and> zk_holds w 1 ''/k'' True"
  by (rule zk_run [where es = "[Z_call 0 ''/k'' True (Suc 0), Z_req 0 Answered, Z_req 0 Answered, Z_req 0 Answered, Z_next 0,
      Z_call 1 ''/k'' True (Suc 0), Z_req 1 Answered, Z_req 1 Answered, Z_req 1 Answered, Z_next 1]"])
     (simp add: demo_lock demo_service demo_world demo_zk_def cong: Ask_lazy zbind_lazy)


end
